(* ===== verification/Prelude.thy ===== *)
theory Prelude
  imports Main "HOL-Library.Word"
begin

unbundle bit_operations_syntax

text \<open>
  What every component shares: the C integer types as words, addresses and the byte memory
  the stream pointers refer to, network byte order, and the lemmas on them.  The collections
  \<open>bytes_simps\<close> and \<open>mem_simps\<close> hold the rewrite rules the component proofs add to the simplifier.
\<close>

named_theorems bytes_simps
named_theorems mem_simps

declare Let_def [simp]

section \<open>Machine types\<close>

text \<open>
  \<^verbatim>\<open>uint8_t\<close>, \<^verbatim>\<open>uint16_t\<close>, \<^verbatim>\<open>uint32_t\<close> (also \<^verbatim>\<open>u_int\<close>, \<^verbatim>\<open>enum_t\<close>, \<^verbatim>\<open>bool_t\<close>, \<^verbatim>\<open>int32_t\<close>: the
  signed reading of a word is \<open>sint\<close>) and \<^verbatim>\<open>uint64_t\<close> (also \<^verbatim>\<open>long\<close>, \<^verbatim>\<open>u_long\<close> and \<^verbatim>\<open>size_t\<close> of the LP64
  platforms the library is built for).  An address is a natural number; \<^verbatim>\<open>NULL\<close> is address 0.
  Objects of a 64-bit address space end far below the last address, so adding a 32-bit length
  to a pointer into an object does not wrap.
\<close>

type_synonym u8 = "8 word"
type_synonym u16 = "16 word"
type_synonym u32 = "32 word"
type_synonym u64 = "64 word"
type_synonym bytes = "u8 list"
type_synonym addr = nat
type_synonym mem = "addr \<Rightarrow> u8"

lemma unat_ucast_u64 [simp]: "unat (ucast (a :: u32) :: u64) = unat a"
proof -
  have "unat a < 2 ^ LENGTH(32)" by (rule unsigned_less)
  then show ?thesis by (simp add: unsigned_ucast_eq take_bit_nat_eq_self)
qed

lemma unat_of_nat_small: "n < 2 ^ LENGTH('a) \<Longrightarrow> unat (of_nat n :: 'a::len word) = n"
  by (simp add: unat_of_nat)

lemma unat_of_nat_diff:
  "h \<le> t \<Longrightarrow> t - h < 2 ^ LENGTH('a) \<Longrightarrow> unat (of_nat t - of_nat h :: 'a::len word) = t - h"
  using unat_of_nat_small [of "t - h", where ?'a = 'a] by simp

section \<open>Network byte order\<close>

text \<open>
  \<open>be32 v\<close> is the four bytes a store of \<^verbatim>\<open>htonl(v)\<close> leaves in memory, \<open>of_be32\<close> the value that
  \<^verbatim>\<open>ntohl\<close> of a load of four bytes gives.
\<close>

definition be32 :: "u32 \<Rightarrow> bytes" where
  "be32 v = [ucast (drop_bit 24 v), ucast (drop_bit 16 v), ucast (drop_bit 8 v), ucast v]"

fun of_be32 :: "bytes \<Rightarrow> u32" where
  "of_be32 [a, b, c, d] =
     push_bit 24 (ucast a) OR push_bit 16 (ucast b) OR push_bit 8 (ucast c) OR ucast d"
| "of_be32 _ = 0"

lemma length_be32 [simp]: "length (be32 v) = 4"
  by (simp add: be32_def)

lemma be32_not_Nil [simp]: "be32 v \<noteq> []"
  by (simp add: be32_def)

lemma of_be32_be32 [simp]: "of_be32 (be32 v) = v"
  unfolding be32_def of_be32.simps
proof (rule bit_word_eqI)
  fix n assume "n < LENGTH(32)"
  then consider "n < 8" | k where "n = 8 + k" "k < 8" | k where "n = 16 + k" "k < 8"
    | k where "n = 24 + k" "k < 8"
    by (fastforce simp: le_iff_add not_less dest: not_less [THEN iffD1])
  then show "bit (push_bit 24 (ucast (ucast (drop_bit 24 v) :: u8)) OR
      push_bit 16 (ucast (ucast (drop_bit 16 v) :: u8)) OR
      push_bit 8 (ucast (ucast (drop_bit 8 v) :: u8)) OR ucast (ucast v :: u8) :: u32) n = bit v n"
    by cases (auto simp: bit_simps)
qed

lemma length_4_conv: "length bs = 4 \<longleftrightarrow> (\<exists>a b c d. bs = [a, b, c, d])"
  by (auto simp: numeral_eq_Suc length_Suc_conv)

lemma bit_u8_high [simp]: "8 \<le> n \<Longrightarrow> \<not> bit (b :: u8) n"
  by (auto dest: bit_imp_le_length)

lemma be32_of_be32: "length bs = 4 \<Longrightarrow> be32 (of_be32 bs) = bs"
  by (auto simp: length_4_conv be32_def bit_simps not_le intro!: bit_word_eqI)

lemma be32_inject [simp]: "be32 v = be32 w \<longleftrightarrow> v = w"
  by (metis of_be32_be32)

section \<open>Rounding to XDR units\<close>

text \<open>\<^verbatim>\<open>RNDUP(x)\<close> of \<^verbatim>\<open>xdr.h\<close> on a \<^verbatim>\<open>u_int\<close>, and its value below the wrap-around.\<close>

definition RNDUP :: "u32 \<Rightarrow> u32" where
  "RNDUP x = (x + 4 - 1) AND NOT (4 - 1)"

lemma and_not_3: "(y :: u32) AND NOT 3 = push_bit 2 (drop_bit 2 y)"
proof (rule bit_word_eqI)
  fix n assume n: "n < LENGTH(32)"
  have m: "(3 :: u32) = mask 2" by (simp add: mask_eq_exp_minus_1)
  show "bit (y AND NOT 3) n = bit (push_bit 2 (drop_bit 2 y)) n"
  proof (cases "n < 2")
    case False
    then obtain k where "n = 2 + k" by (auto simp: not_less le_iff_add)
    with n show ?thesis unfolding m by (simp add: bit_simps)
  qed (simp add: m bit_simps)
qed

lemma unat_RNDUP:
  assumes "unat x + 3 < 2 ^ 32"
  shows "unat (RNDUP x) = (unat x + 3) div 4 * 4"
proof -
  have "unat (x + 3) = unat x + 3"
    using assms by (simp add: unat_word_ariths)
  then have "unat (drop_bit 2 (x + 3)) = (unat x + 3) div 4"
    by (simp add: drop_bit_eq_div unat_div)
  moreover have "(unat x + 3) div 4 * 4 < 2 ^ 32"
    using assms by linarith
  moreover have "RNDUP x = push_bit 2 (drop_bit 2 (x + 3))"
    by (simp only: and_not_3 [symmetric]) (simp add: RNDUP_def add.commute)
  ultimately show ?thesis
    by (simp only: unsigned_push_bit_eq) (simp add: push_bit_eq_mult take_bit_eq_mod)
qed

section \<open>Memory\<close>

text \<open>
  \<open>read_bytes m a n\<close> are the \<open>n\<close> bytes at \<open>a\<close> (the source of a \<^verbatim>\<open>memcpy\<close>, or a load),
  \<open>write_bytes m a bs\<close> the memory after the bytes \<open>bs\<close> are stored at \<open>a\<close>.
\<close>

definition read_bytes :: "mem \<Rightarrow> addr \<Rightarrow> nat \<Rightarrow> bytes" where
  "read_bytes m a n = map m [a..<a + n]"

definition write_bytes :: "mem \<Rightarrow> addr \<Rightarrow> bytes \<Rightarrow> mem" where
  "write_bytes m a bs = (\<lambda>x. if a \<le> x \<and> x < a + length bs then bs ! (x - a) else m x)"

abbreviation load32 :: "mem \<Rightarrow> addr \<Rightarrow> u32" where
  "load32 m a \<equiv> of_be32 (read_bytes m a 4)"

abbreviation store32 :: "mem \<Rightarrow> addr \<Rightarrow> u32 \<Rightarrow> mem" where
  "store32 m a v \<equiv> write_bytes m a (be32 v)"

lemma length_read_bytes [simp]: "length (read_bytes m a n) = n"
  by (simp add: read_bytes_def)

lemma read_bytes_0 [simp]: "read_bytes m a 0 = []"
  by (simp add: read_bytes_def)

lemma read_bytes_add: "read_bytes m a (n + k) = read_bytes m a n @ read_bytes m (a + n) k"
proof -
  have "[a..<a + (n + k)] = [a..<a + n] @ [a + n..<a + n + k]"
    using upt_add_eq_append [of a "a + n" k] by (simp add: add.assoc)
  then show ?thesis by (simp add: read_bytes_def)
qed

lemma read_bytes_split:
  "n \<le> k \<Longrightarrow> read_bytes m a k = read_bytes m a n @ read_bytes m (a + n) (k - n)"
  using read_bytes_add [of m a n "k - n"] by simp

lemma take_read_bytes: "take n (read_bytes m a k) = read_bytes m a (min n k)"
  by (simp add: read_bytes_def take_map min_def)

lemma drop_read_bytes: "drop n (read_bytes m a k) = read_bytes m (a + n) (k - n)"
  by (cases "n \<le> k") (simp_all add: read_bytes_def drop_map)

lemma read_write_same [mem_simps]: "n = length bs \<Longrightarrow> read_bytes (write_bytes m a bs) a n = bs"
  by (rule nth_equalityI) (auto simp: read_bytes_def write_bytes_def)

lemma read_write_before [mem_simps]:
  "b + n \<le> a \<Longrightarrow> read_bytes (write_bytes m a bs) b n = read_bytes m b n"
  by (auto simp: read_bytes_def write_bytes_def)

lemma read_write_after [mem_simps]:
  "a + length bs \<le> b \<Longrightarrow> read_bytes (write_bytes m a bs) b n = read_bytes m b n"
  by (auto simp: read_bytes_def write_bytes_def)

lemma read_write_append [mem_simps]:
  "c = a + n \<Longrightarrow> k = n + length bs \<Longrightarrow>
   read_bytes (write_bytes m c bs) a k = read_bytes m a n @ bs"
  by (simp add: read_bytes_add mem_simps)

lemma write_bytes_Nil [simp]: "write_bytes m a [] = m"
  by (rule ext) (auto simp: write_bytes_def)

lemma write_bytes_append:
  "write_bytes (write_bytes m a bs) (a + length bs) cs = write_bytes m a (bs @ cs)"
  by (rule ext) (auto simp: write_bytes_def nth_append not_less)

lemma read_bytes_cong:
  "(\<And>x. a \<le> x \<Longrightarrow> x < a + n \<Longrightarrow> m x = m' x) \<Longrightarrow> read_bytes m a n = read_bytes m' a n"
  by (simp add: read_bytes_def)

text \<open>
  Storing \<open>bs\<close> at the start of an array that holds \<open>old\<close>: what a copy of \<open>bs\<close> leaves in it.
\<close>

definition overlay :: "'a list \<Rightarrow> 'a list \<Rightarrow> 'a list" where
  "overlay bs old = bs @ drop (length bs) old"

lemma overlay_full [simp]: "length old \<le> length bs \<Longrightarrow> overlay bs old = bs"
  by (simp add: overlay_def)

lemma overlay_Nil [simp]: "overlay [] old = old"
  by (simp add: overlay_def)

lemma take_overlay [simp]: "n = length bs \<Longrightarrow> take n (overlay bs old) = bs"
  by (simp add: overlay_def)

lemma length_overlay: "length (overlay bs old) = max (length bs) (length old)"
  by (simp add: overlay_def)

end
