(* ===== verification/Xdr_Handle.thy ===== *)
theory Xdr_Handle
  imports Prelude
begin

text \<open>
  The XDR handle of \<^verbatim>\<open>ntirpc/rpc/xdr.h\<close>: the buffer vector, the handle itself, the operations
  vector \<^verbatim>\<open>x_ops\<close>, and the in-line routines that read and write primitive items with a fast path
  on the current buffer and a call through \<^verbatim>\<open>x_ops\<close> otherwise.  The two locales at the end are the
  contract of an operations vector: \<open>xdr_reader\<close> for decoding, \<open>xdr_writer\<close> for encoding.
\<close>

section \<open>Handle and buffers\<close>

datatype xdr_op = XDR_ENCODE | XDR_DECODE | XDR_FREE

datatype vio_type_t = VIO_HEADER | VIO_DATA | VIO_TRAILER_LEN | VIO_TRAILER

record xdr_vio =
  vio_base :: addr
  vio_head :: addr
  vio_tail :: addr
  vio_wrap :: addr
  vio_length :: u32
  vio_type :: vio_type_t

text \<open>
  \<^verbatim>\<open>x_base\<close> points to the \<^verbatim>\<open>xdr_vio\<close> that \<^verbatim>\<open>x_v\<close> is a copy of: the handle's own \<^verbatim>\<open>x_v\<close> for a memory
  stream, the vector of a queued buffer for an \<^verbatim>\<open>xdr_ioq\<close>.
\<close>

datatype vio_ptr = VioNull | VioSelf | VioAt nat

datatype mem_event = Mem_alloc nat | Mem_free nat

text \<open>
  The handle, followed by the part of the process state its routines touch: the bytes in memory
  (\<open>heap\<close>), the \<^verbatim>\<open>xdr_vio\<close> objects outside the handle (\<open>vios\<close>), the contents of a block that
  \<^verbatim>\<open>mem_alloc\<close> has just returned (\<open>fresh\<close>) and the calls of the allocator so far (\<open>mlog\<close>, most
  recent first).  \<^verbatim>\<open>struct xdr_ioq\<close> embeds the handle as its first member, and its model extends
  this record.
\<close>

record rpc_xdr =
  x_data :: addr
  x_base :: vio_ptr
  x_v :: xdr_vio
  x_handy :: u32
  x_flags :: u32
  x_op :: xdr_op
  heap :: mem
  vios :: "nat \<Rightarrow> xdr_vio"
  fresh :: "nat \<Rightarrow> u8"
  mlog :: "mem_event list"

abbreviation (input) NULL :: addr where
  "NULL \<equiv> 0"

text \<open>
  A filter for objects of type \<open>'v\<close> (\<^verbatim>\<open>xdrproc_t\<close>): given the handle and the object, its status, the
  object and the handle after the call.
\<close>

type_synonym ('x, 'v) xdrproc = "'x \<Rightarrow> 'v \<Rightarrow> bool \<times> 'v \<times> 'x"

text \<open>
  A \<^verbatim>\<open>struct xdr_uio\<close> is the list of its vectors, its reference count
  and whether it has a release function; \<open>uio_released\<close> records that the function was called.
  The number of vectors is \<^verbatim>\<open>uio_count\<close>.
\<close>

record xdr_uio =
  uio_release :: bool
  uio_flags :: u32
  uio_references :: u32
  uio_vio :: "xdr_vio list"
  uio_released :: bool

text \<open>
  The operations vector, over the type \<open>'x\<close> of handles.  A HOL record cannot hold functions on
  itself, so the routines take the vector that \<^verbatim>\<open>xdrs->x_ops\<close> points to as their first argument.
  A byte getter returns the bytes it stored at its destination, a byte putter takes the
  \<^verbatim>\<open>len\<close> bytes at its source; the vectors a routine fills in are returned, and their number is the
  length of the list.  Both implementations ignore what \<^verbatim>\<open>x_control\<close> and \<^verbatim>\<open>x_getbufs\<close> are passed.
  \<^verbatim>\<open>x_putbufs\<close> and \<^verbatim>\<open>x_allochdrs\<close> may end the process, which is \<open>None\<close>.
\<close>

record 'x xdr_ops =
  x_getunit :: "('x, u32) xdrproc"
  x_putunit :: "'x \<Rightarrow> u32 \<Rightarrow> bool \<times> 'x"
  x_getbytes :: "'x \<Rightarrow> u32 \<Rightarrow> bool \<times> bytes \<times> 'x"
  x_putbytes :: "'x \<Rightarrow> bytes \<Rightarrow> bool \<times> 'x"
  x_getpostn :: "'x \<Rightarrow> u32 \<times> 'x"
  x_getstartdatapos :: "'x \<Rightarrow> u32 \<Rightarrow> u32 \<Rightarrow> u32"
  x_getenddatapos :: "'x \<Rightarrow> u32 \<Rightarrow> u32 \<Rightarrow> u32"
  x_setpostn :: "'x \<Rightarrow> u32 \<Rightarrow> bool \<times> 'x"
  x_destroy :: "'x \<Rightarrow> 'x"
  x_control :: "'x \<Rightarrow> bool \<times> 'x"
  x_getbufs :: "'x \<Rightarrow> bool \<times> 'x"
  x_putbufs :: "'x \<Rightarrow> xdr_uio \<Rightarrow> u32 \<Rightarrow> (bool \<times> xdr_uio \<times> 'x) option"
  x_newbuf :: "'x \<Rightarrow> bool \<times> 'x"
  x_iovcount :: "'x \<Rightarrow> u32 \<Rightarrow> u32 \<Rightarrow> int \<times> 'x"
  x_fillbufs :: "'x \<Rightarrow> u32 \<Rightarrow> xdr_vio list \<Rightarrow> u32 \<Rightarrow> bool \<times> xdr_vio list \<times> 'x"
  x_allochdrs :: "'x \<Rightarrow> u32 \<Rightarrow> xdr_vio list \<Rightarrow> (bool \<times> xdr_vio list \<times> 'x) option"

type_synonym 'a ops = "'a rpc_xdr_scheme xdr_ops"

section \<open>In-line routines\<close>

definition xdr_size_inline :: "'a rpc_xdr_scheme \<Rightarrow> u64" where
  "xdr_size_inline xdrs = of_nat (vio_wrap (x_v xdrs)) - of_nat (x_data xdrs)"

definition xdr_tail_inline :: "'a rpc_xdr_scheme \<Rightarrow> u64" where
  "xdr_tail_inline xdrs = of_nat (vio_tail (x_v xdrs)) - of_nat (x_data xdrs)"

definition xdr_tail_update :: "'a rpc_xdr_scheme \<Rightarrow> 'a rpc_xdr_scheme" where
  "xdr_tail_update xdrs =
     (if vio_tail (x_v xdrs) < x_data xdrs then
        let xdrs = xdrs\<lparr>x_v := x_v xdrs\<lparr>vio_tail := x_data xdrs\<rparr>\<rparr> in
        case x_base xdrs of
          VioAt i \<Rightarrow> xdrs\<lparr>vios := (vios xdrs)(i := vios xdrs i\<lparr>vio_tail := x_data xdrs\<rparr>)\<rparr>
        | _ \<Rightarrow> xdrs
      else xdrs)"

definition xdr_getlong :: "'a ops \<Rightarrow> ('a rpc_xdr_scheme, u64) xdrproc" where
  "xdr_getlong ops xdrs lp =
     (let future = x_data xdrs + 4 in
      if future \<le> vio_tail (x_v xdrs) then
        (True, ucast (load32 (heap xdrs) (x_data xdrs)), xdrs\<lparr>x_data := future\<rparr>)
      else
        case x_getunit ops xdrs 0 of
          (b, u, xdrs) \<Rightarrow> (b, if b then scast u else lp, xdrs))"

definition xdr_putlong :: "'a ops \<Rightarrow> 'a rpc_xdr_scheme \<Rightarrow> u64 \<Rightarrow> bool \<times> 'a rpc_xdr_scheme" where
  "xdr_putlong ops xdrs lp =
     (let future = x_data xdrs + 4 in
      if future \<le> vio_wrap (x_v xdrs) then
        (True, xdrs\<lparr>heap := store32 (heap xdrs) (x_data xdrs) (ucast lp), x_data := future\<rparr>)
      else x_putunit ops xdrs (ucast lp))"

text \<open>
  \<^verbatim>\<open>xdr_inline_decode\<close> and \<^verbatim>\<open>xdr_inline_encode\<close> reserve \<open>count\<close> contiguous bytes and return their
  address, or \<^verbatim>\<open>NULL\<close>; the \<^verbatim>\<open>IXDR\<close> macros then load and store units there and move the pointer.
  The count is a number without a bound; the source has a \<^verbatim>\<open>size_t\<close>, and a pointer that \<^verbatim>\<open>x_data + count\<close> takes round
  the end of the address space is not modelled.
\<close>

definition xdr_inline_decode :: "'a rpc_xdr_scheme \<Rightarrow> nat \<Rightarrow> addr \<times> 'a rpc_xdr_scheme" where
  "xdr_inline_decode xdrs count =
     (let buf = x_data xdrs; future = x_data xdrs + count in
      if future \<le> vio_tail (x_v xdrs) then (buf, xdrs\<lparr>x_data := future\<rparr>)
      else (NULL, xdrs))"

definition xdr_inline_encode :: "'a rpc_xdr_scheme \<Rightarrow> nat \<Rightarrow> addr \<times> 'a rpc_xdr_scheme" where
  "xdr_inline_encode xdrs count =
     (let buf = x_data xdrs; future = x_data xdrs + count in
      if future \<le> vio_wrap (x_v xdrs) then (buf, xdr_tail_update (xdrs\<lparr>x_data := future\<rparr>))
      else (NULL, xdrs))"

definition IXDR_GET_U_INT32 :: "mem \<Rightarrow> addr \<Rightarrow> u32 \<times> addr" where
  "IXDR_GET_U_INT32 m buf = (load32 m buf, buf + 4)"

definition IXDR_PUT_INT32 :: "u32 \<Rightarrow> mem \<times> addr \<Rightarrow> mem \<times> addr" where
  "IXDR_PUT_INT32 v mb = (store32 (fst mb) (snd mb) v, snd mb + 4)"

definition xdr_getuint32 :: "'a ops \<Rightarrow> ('a rpc_xdr_scheme, u32) xdrproc" where
  "xdr_getuint32 ops xdrs ip =
     (let future = x_data xdrs + 4 in
      if future \<le> vio_tail (x_v xdrs) then
        (True, load32 (heap xdrs) (x_data xdrs), xdrs\<lparr>x_data := future\<rparr>)
      else x_getunit ops xdrs ip)"

definition xdr_putuint32 :: "'a ops \<Rightarrow> 'a rpc_xdr_scheme \<Rightarrow> u32 \<Rightarrow> bool \<times> 'a rpc_xdr_scheme" where
  "xdr_putuint32 ops xdrs v =
     (let future = x_data xdrs + 4 in
      if future \<le> vio_wrap (x_v xdrs) then
        (True, xdrs\<lparr>heap := store32 (heap xdrs) (x_data xdrs) v, x_data := future\<rparr>)
      else x_putunit ops xdrs v)"

definition xdr_getint32 :: "'a ops \<Rightarrow> ('a rpc_xdr_scheme, u32) xdrproc" where
  "xdr_getint32 ops xdrs ip = xdr_getuint32 ops xdrs ip"

definition xdr_putint32 :: "'a ops \<Rightarrow> 'a rpc_xdr_scheme \<Rightarrow> u32 \<Rightarrow> bool \<times> 'a rpc_xdr_scheme" where
  "xdr_putint32 ops xdrs v = xdr_putuint32 ops xdrs v"

definition xdr_getuint16 :: "'a ops \<Rightarrow> ('a rpc_xdr_scheme, u16) xdrproc" where
  "xdr_getuint16 ops xdrs ip =
     (let future = x_data xdrs + 4 in
      if future \<le> vio_tail (x_v xdrs) then
        (True, ucast (load32 (heap xdrs) (x_data xdrs)), xdrs\<lparr>x_data := future\<rparr>)
      else
        case x_getunit ops xdrs 0 of
          (b, u, xdrs) \<Rightarrow> (b, if b then ucast u else ip, xdrs))"

definition xdr_putuint16 :: "'a ops \<Rightarrow> 'a rpc_xdr_scheme \<Rightarrow> u32 \<Rightarrow> bool \<times> 'a rpc_xdr_scheme" where
  "xdr_putuint16 ops xdrs uint16v =
     (let future = x_data xdrs + 4 in
      if future \<le> vio_wrap (x_v xdrs) then
        (True, xdrs\<lparr>heap := store32 (heap xdrs) (x_data xdrs) uint16v, x_data := future\<rparr>)
      else x_putunit ops xdrs uint16v)"

definition xdr_getint16 :: "'a ops \<Rightarrow> ('a rpc_xdr_scheme, u16) xdrproc" where
  "xdr_getint16 ops xdrs ip = xdr_getuint16 ops xdrs ip"

definition xdr_putint16 :: "'a ops \<Rightarrow> 'a rpc_xdr_scheme \<Rightarrow> u32 \<Rightarrow> bool \<times> 'a rpc_xdr_scheme" where
  "xdr_putint16 ops xdrs int16v = xdr_putuint16 ops xdrs (ucast (ucast int16v :: u16))"

definition xdr_getuint8 :: "'a ops \<Rightarrow> ('a rpc_xdr_scheme, u8) xdrproc" where
  "xdr_getuint8 ops xdrs ip =
     (let future = x_data xdrs + 4 in
      if future \<le> vio_tail (x_v xdrs) then
        (True, ucast (load32 (heap xdrs) (x_data xdrs)), xdrs\<lparr>x_data := future\<rparr>)
      else
        case x_getunit ops xdrs 0 of
          (b, u, xdrs) \<Rightarrow> (b, if b then ucast u else ip, xdrs))"

definition xdr_putuint8 :: "'a ops \<Rightarrow> 'a rpc_xdr_scheme \<Rightarrow> u32 \<Rightarrow> bool \<times> 'a rpc_xdr_scheme" where
  "xdr_putuint8 ops xdrs uint8v =
     (let future = x_data xdrs + 4 in
      if future \<le> vio_wrap (x_v xdrs) then
        (True, xdrs\<lparr>heap := store32 (heap xdrs) (x_data xdrs) uint8v, x_data := future\<rparr>)
      else x_putunit ops xdrs uint8v)"

definition xdr_getint8 :: "'a ops \<Rightarrow> ('a rpc_xdr_scheme, u8) xdrproc" where
  "xdr_getint8 ops xdrs ip = xdr_getuint8 ops xdrs ip"

definition xdr_putint8 :: "'a ops \<Rightarrow> 'a rpc_xdr_scheme \<Rightarrow> u32 \<Rightarrow> bool \<times> 'a rpc_xdr_scheme" where
  "xdr_putint8 ops xdrs int8v = xdr_putuint8 ops xdrs (ucast (ucast int8v :: u8))"

definition xdr_getenum :: "'a ops \<Rightarrow> ('a rpc_xdr_scheme, u32) xdrproc" where
  "xdr_getenum ops xdrs ip = xdr_getint32 ops xdrs ip"

definition xdr_putenum :: "'a ops \<Rightarrow> 'a rpc_xdr_scheme \<Rightarrow> u32 \<Rightarrow> bool \<times> 'a rpc_xdr_scheme" where
  "xdr_putenum ops xdrs enumv = xdr_putint32 ops xdrs enumv"

definition xdr_getbool :: "'a ops \<Rightarrow> ('a rpc_xdr_scheme, u32) xdrproc" where
  "xdr_getbool ops xdrs ip =
     (case xdr_getint32 ops xdrs 0 of
        (False, lv, xdrs) \<Rightarrow> (False, ip, xdrs)
      | (True, lv, xdrs) \<Rightarrow> (True, if lv \<noteq> 0 then 1 else 0, xdrs))"

definition xdr_putbool :: "'a ops \<Rightarrow> 'a rpc_xdr_scheme \<Rightarrow> u32 \<Rightarrow> bool \<times> 'a rpc_xdr_scheme" where
  "xdr_putbool ops xdrs boolv = xdr_putint32 ops xdrs (if boolv \<noteq> 0 then 1 else 0)"

section \<open>Facts about the in-line routines\<close>

lemma xdr_tail_update_simps [simp]:
  "x_data (xdr_tail_update xdrs) = x_data xdrs"
  "x_op (xdr_tail_update xdrs) = x_op xdrs"
  "x_base (xdr_tail_update xdrs) = x_base xdrs"
  "heap (xdr_tail_update xdrs) = heap xdrs"
  "fresh (xdr_tail_update xdrs) = fresh xdrs"
  "mlog (xdr_tail_update xdrs) = mlog xdrs"
  "x_v (xdr_tail_update xdrs) =
     x_v xdrs\<lparr>vio_tail := max (vio_tail (x_v xdrs)) (x_data xdrs)\<rparr>"
  "rpc_xdr.more (xdr_tail_update xdrs) = rpc_xdr.more xdrs"
  by (auto simp: xdr_tail_update_def Let_def max_def split: vio_ptr.split)

lemma xdr_tail_update_heap:
  "xdr_tail_update (xdrs\<lparr>heap := m\<rparr>) = (xdr_tail_update xdrs)\<lparr>heap := m\<rparr>"
  by (simp add: xdr_tail_update_def Let_def split: vio_ptr.split)

lemma xdr_tail_update_id: "x_data xdrs \<le> vio_tail (x_v xdrs) \<Longrightarrow> xdr_tail_update xdrs = xdrs"
  by (simp add: xdr_tail_update_def)

section \<open>The contract of an operations vector, decoding\<close>

text \<open>
  A stream that is being read stands for the bytes that are still to be read, \<open>rd\<close>.  \<open>rinv\<close> is
  the provider's invariant and \<open>phase\<close> the position modulo the XDR unit: a provider may refuse to
  read a unit that is not at a unit boundary.  The laws say what the fast path may rely on (the
  bytes between \<^verbatim>\<open>x_data\<close> and \<^verbatim>\<open>vio_tail\<close> are the next bytes of the stream) and what the two getters
  do when there is enough data and when there is not.
\<close>

locale xdr_reader =
  fixes ops :: "'a ops"
    and rinv :: "'a rpc_xdr_scheme \<Rightarrow> bool"
    and rd :: "'a rpc_xdr_scheme \<Rightarrow> bytes"
    and phase :: "'a rpc_xdr_scheme \<Rightarrow> nat"
  assumes inline_rd: "rinv x \<Longrightarrow> x_data x + n \<le> vio_tail (x_v x) \<Longrightarrow>
      rd x = read_bytes (heap x) (x_data x) n @ rd (x\<lparr>x_data := x_data x + n\<rparr>)"
    and inline_rinv: "rinv x \<Longrightarrow> x_data x + n \<le> vio_tail (x_v x) \<Longrightarrow>
      rinv (x\<lparr>x_data := x_data x + n\<rparr>)"
    and inline_phase: "rinv x \<Longrightarrow> x_data x + n \<le> vio_tail (x_v x) \<Longrightarrow>
      phase (x\<lparr>x_data := x_data x + n\<rparr>) = (phase x + n) mod 4"
    and rinv_data: "rinv x \<Longrightarrow> x_data x \<noteq> NULL"
    and rinv_mlog: "rinv x \<Longrightarrow> rinv (x\<lparr>mlog := l\<rparr>)"
    and rd_mlog: "rinv x \<Longrightarrow> rd (x\<lparr>mlog := l\<rparr>) = rd x"
    and phase_mlog: "rinv x \<Longrightarrow> phase (x\<lparr>mlog := l\<rparr>) = phase x"
    and getunit_ok: "rinv x \<Longrightarrow> phase x = 0 \<Longrightarrow> 4 \<le> length (rd x) \<Longrightarrow>
      vio_tail (x_v x) < x_data x + 4 \<Longrightarrow>
      \<exists>x'. x_getunit ops x ip = (True, of_be32 (take 4 (rd x)), x') \<and> rinv x' \<and>
        rd x' = drop 4 (rd x) \<and> phase x' = 0 \<and> x_op x' = x_op x \<and> mlog x' = mlog x"
    and getunit_short: "rinv x \<Longrightarrow> length (rd x) < 4 \<Longrightarrow> vio_tail (x_v x) < x_data x + 4 \<Longrightarrow>
      \<exists>u x'. x_getunit ops x ip = (False, u, x') \<and> mlog x' = mlog x"
    and getbytes_ok: "rinv x \<Longrightarrow> unat cnt \<le> length (rd x) \<Longrightarrow>
      \<exists>x'. x_getbytes ops x cnt = (True, take (unat cnt) (rd x), x') \<and> rinv x' \<and>
        rd x' = drop (unat cnt) (rd x) \<and> phase x' = (phase x + unat cnt) mod 4 \<and>
        x_op x' = x_op x \<and> mlog x' = mlog x"
    and getbytes_short: "rinv x \<Longrightarrow> length (rd x) < unat cnt \<Longrightarrow>
      \<exists>bs x'. x_getbytes ops x cnt = (False, bs, x') \<and> mlog x' = mlog x"
begin

text \<open>
  \<open>decodes f e v\<close>: on a stream whose next bytes are \<open>e\<close>, the routine \<open>f\<close> succeeds, its result is
  \<open>v\<close>, and the stream is left after those bytes.  \<open>truncated f n\<close>: with fewer than \<open>n\<close> bytes
  left, \<open>f\<close> fails.
\<close>

definition ready :: "'a rpc_xdr_scheme \<Rightarrow> bool" where
  "ready x \<longleftrightarrow> rinv x \<and> x_op x = XDR_DECODE \<and> phase x = 0"

definition decodes ::
    "('a rpc_xdr_scheme \<Rightarrow> bool \<times> 'v \<times> 'a rpc_xdr_scheme) \<Rightarrow> bytes \<Rightarrow> 'v \<Rightarrow> bool" where
  "decodes f e v \<longleftrightarrow> (\<forall>x rest. ready x \<and> rd x = e @ rest \<longrightarrow>
     (\<exists>x'. f x = (True, v, x') \<and> ready x' \<and> rd x' = rest))"

definition truncated ::
    "('a rpc_xdr_scheme \<Rightarrow> bool \<times> 'v \<times> 'a rpc_xdr_scheme) \<Rightarrow> nat \<Rightarrow> bool" where
  "truncated f n \<longleftrightarrow> (\<forall>x. ready x \<and> length (rd x) < n \<longrightarrow> fst (f x) = False)"

lemma decodesI:
  assumes "\<And>x rest. ready x \<Longrightarrow> rd x = e @ rest \<Longrightarrow>
    \<exists>x'. f x = (True, v, x') \<and> ready x' \<and> rd x' = rest"
  shows "decodes f e v"
  using assms by (auto simp: decodes_def)

lemma decodesE:
  assumes "decodes f e v" "ready x" "rd x = e @ rest"
  obtains x' where "f x = (True, v, x')" "ready x'" "rd x' = rest"
  using assms unfolding decodes_def by blast

lemma decodes_cong: "decodes f e v \<Longrightarrow> e = e' \<Longrightarrow> v = v' \<Longrightarrow> decodes f e' v'"
  by simp

text \<open>Sequencing: the second routine runs on the object and the stream the first one leaves.\<close>

lemma decodes_bind:
  assumes f: "decodes f e1 v" and g: "decodes (g v) e2 w"
    and h: "\<And>x x'. f x = (True, v, x') \<Longrightarrow> h x = g v x'"
  shows "decodes h (e1 @ e2) w"
proof (rule decodesI)
  fix x rest assume "ready x" "rd x = (e1 @ e2) @ rest"
  then obtain x1 where x1: "f x = (True, v, x1)" "ready x1" "rd x1 = e2 @ rest"
    using decodesE [OF f, of x "e2 @ rest"] by (metis append_assoc)
  with decodesE [OF g x1(2,3)] obtain x2 where "g v x1 = (True, w, x2)" "ready x2" "rd x2 = rest"
    by metis
  with h [OF x1(1)] show "\<exists>x'. h x = (True, w, x') \<and> ready x' \<and> rd x' = rest"
    by auto
qed

lemma decodes_map:
  assumes f: "decodes f e v"
    and h: "\<And>x x'. ready x \<Longrightarrow> f x = (True, v, x') \<Longrightarrow> h x = (True, w, x')"
  shows "decodes h e w"
proof (rule decodesI)
  fix x rest assume x: "ready x" "rd x = e @ rest"
  with decodesE [OF f x] obtain x1 where "f x = (True, v, x1)" "ready x1" "rd x1 = rest"
    by metis
  with h [OF x(1)] show "\<exists>x'. h x = (True, w, x') \<and> ready x' \<and> rd x' = rest"
    by auto
qed

lemma decodes_return: "decodes (\<lambda>x. (True, v, x)) [] v"
  by (rule decodesI) auto

lemma decodes_getuint32: "decodes (\<lambda>x. xdr_getuint32 ops x ip) (be32 v) v"
proof (rule decodesI)
  fix x rest assume x: "ready x" and r: "rd x = be32 v @ rest"
  show "\<exists>x'. xdr_getuint32 ops x ip = (True, v, x') \<and> ready x' \<and> rd x' = rest"
  proof (cases "x_data x + 4 \<le> vio_tail (x_v x)")
    case True
    then have "be32 v @ rest = read_bytes (heap x) (x_data x) 4 @ rd (x\<lparr>x_data := x_data x + 4\<rparr>)"
      using inline_rd [of x 4] x r by (simp add: ready_def)
    then have e: "read_bytes (heap x) (x_data x) 4 = be32 v" "rd (x\<lparr>x_data := x_data x + 4\<rparr>) = rest"
      by (simp_all add: append_eq_append_conv)
    with True x inline_rinv [of x 4] inline_phase [of x 4] show ?thesis
      by (auto simp: xdr_getuint32_def ready_def Let_def)
  next
    case False
    with x r getunit_ok [of x ip] show ?thesis
      by (fastforce simp: xdr_getuint32_def ready_def)
  qed
qed

lemma truncated_getuint32: "truncated (\<lambda>x. xdr_getuint32 ops x ip) 4"
  unfolding truncated_def
proof (intro allI impI)
  fix x assume x: "ready x \<and> length (rd x) < 4"
  show "fst (xdr_getuint32 ops x ip) = False"
  proof (cases "x_data x + 4 \<le> vio_tail (x_v x)")
    case True
    with x inline_rd [of x 4] have "4 \<le> length (rd x)"
      by (simp add: ready_def)
    with x show ?thesis by simp
  next
    case False
    with x getunit_short [of x ip] show ?thesis
      by (auto simp: xdr_getuint32_def ready_def)
  qed
qed

end

section \<open>The contract of an operations vector, encoding\<close>

text \<open>
  A stream that is being written stands for the bytes written so far, \<open>wr\<close>; \<open>fits x n\<close> says that
  it can take \<open>n\<close> more, and \<open>anchor\<close> is what identifies the stream and never changes.  \<open>wphase\<close> is
  the position modulo the XDR unit: a provider may leave a gap when a unit is put elsewhere.
\<close>

locale xdr_writer =
  fixes ops :: "'a ops"
    and winv :: "'a rpc_xdr_scheme \<Rightarrow> bool"
    and wr :: "'a rpc_xdr_scheme \<Rightarrow> bytes"
    and fits :: "'a rpc_xdr_scheme \<Rightarrow> nat \<Rightarrow> bool"
    and anchor :: "'a rpc_xdr_scheme \<Rightarrow> addr"
    and wphase :: "'a rpc_xdr_scheme \<Rightarrow> nat"
  assumes inline_winv: "winv x \<Longrightarrow> x_data x + length bs \<le> vio_wrap (x_v x) \<Longrightarrow>
      winv (x\<lparr>heap := write_bytes (heap x) (x_data x) bs, x_data := x_data x + length bs\<rparr>)"
    and inline_wr: "winv x \<Longrightarrow> x_data x + length bs \<le> vio_wrap (x_v x) \<Longrightarrow>
      wr (x\<lparr>heap := write_bytes (heap x) (x_data x) bs, x_data := x_data x + length bs\<rparr>) = wr x @ bs"
    and inline_fits: "winv x \<Longrightarrow> fits x (length bs + k) \<Longrightarrow>
      x_data x + length bs \<le> vio_wrap (x_v x) \<Longrightarrow>
      fits (x\<lparr>heap := write_bytes (heap x) (x_data x) bs, x_data := x_data x + length bs\<rparr>) k"
    and inline_anchor: "winv x \<Longrightarrow> x_data x + length bs \<le> vio_wrap (x_v x) \<Longrightarrow>
      anchor (x\<lparr>heap := write_bytes (heap x) (x_data x) bs, x_data := x_data x + length bs\<rparr>) = anchor x"
    and inline_wphase: "winv x \<Longrightarrow> x_data x + length bs \<le> vio_wrap (x_v x) \<Longrightarrow>
      wphase (x\<lparr>heap := write_bytes (heap x) (x_data x) bs, x_data := x_data x + length bs\<rparr>) =
        (wphase x + length bs) mod 4"
    and tail_wphase: "winv x \<Longrightarrow> wphase (xdr_tail_update x) = wphase x"
    and tail_anchor: "winv x \<Longrightarrow> anchor (xdr_tail_update x) = anchor x"
    and winv_data: "winv x \<Longrightarrow> x_data x \<noteq> NULL"
    and tail_winv: "winv x \<Longrightarrow> winv (xdr_tail_update x)"
    and tail_wr: "winv x \<Longrightarrow> wr (xdr_tail_update x) = wr x"
    and tail_fits: "winv x \<Longrightarrow> fits (xdr_tail_update x) n = fits x n"
    and fits_mono: "fits x n \<Longrightarrow> k \<le> n \<Longrightarrow> fits x k"
    and putunit_ok: "winv x \<Longrightarrow> wphase x = 0 \<Longrightarrow> fits x (4 + k) \<Longrightarrow> vio_wrap (x_v x) < x_data x + 4 \<Longrightarrow>
      \<exists>x'. x_putunit ops x v = (True, x') \<and> winv x' \<and> wr x' = wr x @ be32 v \<and> fits x' k \<and>
        x_op x' = x_op x \<and> anchor x' = anchor x \<and> wphase x' = 0"
    and putunit_full: "winv x \<Longrightarrow> \<not> fits x 4 \<Longrightarrow> fst (x_putunit ops x v) = False"
    and fits_inline: "winv x \<Longrightarrow> x_data x + n \<le> vio_wrap (x_v x) \<Longrightarrow> fits x n"
    and putbytes_ok: "winv x \<Longrightarrow> fits x (length bs + k) \<Longrightarrow> length bs < 2 ^ 32 \<Longrightarrow>
      \<exists>x'. x_putbytes ops x bs = (True, x') \<and> winv x' \<and> wr x' = wr x @ bs \<and> fits x' k \<and>
        x_op x' = x_op x \<and> anchor x' = anchor x \<and> wphase x' = (wphase x + length bs) mod 4"
    and putbytes_full: "winv x \<Longrightarrow> \<not> fits x (length bs) \<Longrightarrow> length bs < 2 ^ 32 \<Longrightarrow>
      fst (x_putbytes ops x bs) = False"
begin

text \<open>
  \<open>encodes f e v\<close>: on a stream with room for the bytes \<open>e\<close>, the routine \<open>f\<close> succeeds, appends
  exactly \<open>e\<close> and leaves the object \<open>v\<close>.  \<open>emits\<close> is the same for a routine that returns
  its status only.
\<close>

definition writable :: "'a rpc_xdr_scheme \<Rightarrow> bool" where
  "writable x \<longleftrightarrow> winv x \<and> x_op x = XDR_ENCODE \<and> wphase x = 0"

definition emits :: "('a rpc_xdr_scheme \<Rightarrow> bool \<times> 'a rpc_xdr_scheme) \<Rightarrow> bytes \<Rightarrow> bool" where
  "emits f e \<longleftrightarrow> (\<forall>x k. writable x \<and> fits x (length e + k) \<longrightarrow>
     (\<exists>x'. f x = (True, x') \<and> writable x' \<and> wr x' = wr x @ e \<and> fits x' k \<and> anchor x' = anchor x))"

definition encodes ::
    "('a rpc_xdr_scheme \<Rightarrow> bool \<times> 'v \<times> 'a rpc_xdr_scheme) \<Rightarrow> bytes \<Rightarrow> 'v \<Rightarrow> bool" where
  "encodes f e v \<longleftrightarrow> (\<forall>x k. writable x \<and> fits x (length e + k) \<longrightarrow>
     (\<exists>x'. f x = (True, v, x') \<and> writable x' \<and> wr x' = wr x @ e \<and> fits x' k \<and> anchor x' = anchor x))"

lemma emitsI:
  assumes "\<And>x k. writable x \<Longrightarrow> fits x (length e + k) \<Longrightarrow>
    \<exists>x'. f x = (True, x') \<and> writable x' \<and> wr x' = wr x @ e \<and> fits x' k \<and> anchor x' = anchor x"
  shows "emits f e"
  using assms by (auto simp: emits_def)

lemma emitsE:
  assumes "emits f e" "writable x" "fits x (length e + k)"
  obtains x' where "f x = (True, x')" "writable x'" "wr x' = wr x @ e" "fits x' k" "anchor x' = anchor x"
  using assms unfolding emits_def by blast

lemma encodesI:
  assumes "\<And>x k. writable x \<Longrightarrow> fits x (length e + k) \<Longrightarrow>
    \<exists>x'. f x = (True, v, x') \<and> writable x' \<and> wr x' = wr x @ e \<and> fits x' k \<and> anchor x' = anchor x"
  shows "encodes f e v"
  using assms by (auto simp: encodes_def)

lemma encodesE:
  assumes "encodes f e v" "writable x" "fits x (length e + k)"
  obtains x' where "f x = (True, v, x')" "writable x'" "wr x' = wr x @ e" "fits x' k" "anchor x' = anchor x"
  using assms unfolding encodes_def by blast

lemma encodes_cong: "encodes f e v \<Longrightarrow> e = e' \<Longrightarrow> v = v' \<Longrightarrow> encodes f e' v'"
  by simp

lemma emits_cong: "emits f e \<Longrightarrow> e = e' \<Longrightarrow> emits f e'"
  by simp

lemma encodes_bind:
  assumes f: "encodes f e1 v" and g: "encodes (g v) e2 w"
    and h: "\<And>x x'. f x = (True, v, x') \<Longrightarrow> h x = g v x'"
  shows "encodes h (e1 @ e2) w"
proof (rule encodesI)
  fix x k assume "writable x" "fits x (length (e1 @ e2) + k)"
  then obtain x1 where x1: "f x = (True, v, x1)" "writable x1" "wr x1 = wr x @ e1"
      "fits x1 (length e2 + k)" "anchor x1 = anchor x"
    using encodesE [OF f, of x "length e2 + k"] by (metis add.assoc length_append)
  with encodesE [OF g x1(2,4)] obtain x2 where
    "g v x1 = (True, w, x2)" "writable x2" "wr x2 = wr x1 @ e2" "fits x2 k" "anchor x2 = anchor x1"
    by metis
  with h [OF x1(1)] x1(3,5)
  show "\<exists>x'. h x = (True, w, x') \<and> writable x' \<and> wr x' = wr x @ e1 @ e2 \<and> fits x' k \<and> anchor x' = anchor x"
    by auto
qed

lemma encodes_map:
  assumes f: "encodes f e v"
    and h: "\<And>x x'. writable x \<Longrightarrow> f x = (True, v, x') \<Longrightarrow> h x = (True, w, x')"
  shows "encodes h e w"
proof (rule encodesI)
  fix x k assume x: "writable x" "fits x (length e + k)"
  with encodesE [OF f x] obtain x1 where
    "f x = (True, v, x1)" "writable x1" "wr x1 = wr x @ e" "fits x1 k" "anchor x1 = anchor x"
    by metis
  with h [OF x(1)] show "\<exists>x'. h x = (True, w, x') \<and> writable x' \<and> wr x' = wr x @ e \<and> fits x' k \<and> anchor x' = anchor x"
    by auto
qed

lemma encodes_emits:
  assumes f: "emits f e" and h: "\<And>x x'. writable x \<Longrightarrow> f x = (True, x') \<Longrightarrow> h x = (True, v, x')"
  shows "encodes h e v"
proof (rule encodesI)
  fix x k assume x: "writable x" "fits x (length e + k)"
  with emitsE [OF f x] obtain x1 where
    "f x = (True, x1)" "writable x1" "wr x1 = wr x @ e" "fits x1 k" "anchor x1 = anchor x"
    by metis
  with h [OF x(1)] show "\<exists>x'. h x = (True, v, x') \<and> writable x' \<and> wr x' = wr x @ e \<and> fits x' k \<and> anchor x' = anchor x"
    by auto
qed

lemma emits_bind:
  assumes f: "emits f e1" and g: "emits g e2" and h: "\<And>x x'. f x = (True, x') \<Longrightarrow> h x = g x'"
  shows "emits h (e1 @ e2)"
proof (rule emitsI)
  fix x k assume "writable x" "fits x (length (e1 @ e2) + k)"
  then obtain x1 where x1: "f x = (True, x1)" "writable x1" "wr x1 = wr x @ e1"
      "fits x1 (length e2 + k)" "anchor x1 = anchor x"
    using emitsE [OF f, of x "length e2 + k"] by (metis add.assoc length_append)
  with emitsE [OF g x1(2,4)] obtain x2 where
    "g x1 = (True, x2)" "writable x2" "wr x2 = wr x1 @ e2" "fits x2 k" "anchor x2 = anchor x1"
    by metis
  with h [OF x1(1)] x1(3,5)
  show "\<exists>x'. h x = (True, x') \<and> writable x' \<and> wr x' = wr x @ e1 @ e2 \<and> fits x' k \<and> anchor x' = anchor x"
    by auto
qed

lemma emits_return: "emits (\<lambda>x. (True, x)) []"
  by (rule emitsI) simp

lemma encodes_return: "encodes (\<lambda>x. (True, v, x)) [] v"
  by (rule encodesI) simp

lemma emits_putuint32: "emits (\<lambda>x. xdr_putuint32 ops x v) (be32 v)"
proof (rule emitsI)
  fix x k assume x: "writable x" and f: "fits x (length (be32 v) + k)"
  show "\<exists>x'. xdr_putuint32 ops x v = (True, x') \<and> writable x' \<and> wr x' = wr x @ be32 v \<and> fits x' k \<and> anchor x' = anchor x"
  proof (cases "x_data x + 4 \<le> vio_wrap (x_v x)")
    case True
    with x f inline_winv [of x "be32 v"] inline_wr [of x "be32 v"] inline_fits [of x "be32 v" k]
      inline_anchor [of x "be32 v"] inline_wphase [of x "be32 v"]
    show ?thesis by (simp add: xdr_putuint32_def writable_def)
  next
    case False
    with x f putunit_ok [of x k v] show ?thesis
      by (force simp: xdr_putuint32_def writable_def)
  qed
qed

text \<open>Reserving space in line and then filling it appends the bytes that are stored there.\<close>

lemma inline_encode_fill:
  assumes "writable x" "fits x (length bs + k)" "x_data x + length bs \<le> vio_wrap (x_v x)" "length bs mod 4 = 0"
  defines "x' \<equiv> (xdr_tail_update (x\<lparr>x_data := x_data x + length bs\<rparr>))
      \<lparr>heap := write_bytes (heap x) (x_data x) bs\<rparr>"
  shows "writable x'" "wr x' = wr x @ bs" "fits x' k" "anchor x' = anchor x"
proof -
  let ?y = "x\<lparr>heap := write_bytes (heap x) (x_data x) bs, x_data := x_data x + length bs\<rparr>"
  have eq: "x' = xdr_tail_update ?y"
    unfolding x'_def xdr_tail_update_heap [symmetric] by (cases x) simp
  have "winv ?y" "wr ?y = wr x @ bs" "fits ?y k" "anchor ?y = anchor x" "wphase ?y = 0"
    using assms inline_winv [of x bs] inline_wr [of x bs] inline_fits [of x bs k]
      inline_anchor [of x bs] inline_wphase [of x bs]
    by (simp_all add: writable_def)
  with assms(1) tail_winv [of ?y] tail_wr [of ?y] tail_fits [of ?y k] tail_anchor [of ?y] tail_wphase [of ?y]
  show "writable x'" "wr x' = wr x @ bs" "fits x' k" "anchor x' = anchor x"
    by (simp_all add: writable_def eq)
qed

text \<open>
  \<open>emits_any\<close> and \<open>encodes_any\<close> are for routines whose output is not determined by the object alone
  (padding that is left as it was): they append some \<open>n\<close> bytes for which \<open>E\<close> holds.
\<close>

definition emits_any ::
    "('a rpc_xdr_scheme \<Rightarrow> bool \<times> 'a rpc_xdr_scheme) \<Rightarrow> (bytes \<Rightarrow> bool) \<Rightarrow> nat \<Rightarrow> bool" where
  "emits_any f E n \<longleftrightarrow> (\<forall>x k. writable x \<and> fits x (n + k) \<longrightarrow>
     (\<exists>e x'. E e \<and> length e = n \<and> f x = (True, x') \<and> writable x' \<and> wr x' = wr x @ e \<and> fits x' k \<and>
       anchor x' = anchor x))"

definition encodes_any ::
    "('a rpc_xdr_scheme \<Rightarrow> bool \<times> 'v \<times> 'a rpc_xdr_scheme) \<Rightarrow> (bytes \<Rightarrow> bool) \<Rightarrow> nat \<Rightarrow> 'v \<Rightarrow> bool" where
  "encodes_any f E n v \<longleftrightarrow> (\<forall>x k. writable x \<and> fits x (n + k) \<longrightarrow>
     (\<exists>e x'. E e \<and> length e = n \<and> f x = (True, v, x') \<and> writable x' \<and> wr x' = wr x @ e \<and> fits x' k \<and>
       anchor x' = anchor x))"

lemma emits_any_exact: "emits f e \<Longrightarrow> E e \<Longrightarrow> length e = n \<Longrightarrow> emits_any f E n"
  unfolding emits_any_def by (blast elim: emitsE)

lemma encodes_any_exact: "encodes f e v \<Longrightarrow> E e \<Longrightarrow> length e = n \<Longrightarrow> encodes_any f E n v"
  unfolding encodes_any_def by (blast elim: encodesE)

lemma encodes_any_emits:
  assumes f: "emits_any f E n"
    and h: "\<And>x x'. writable x \<Longrightarrow> f x = (True, x') \<Longrightarrow> h x = (True, v, x')"
  shows "encodes_any h E n v"
  unfolding encodes_any_def
proof (intro allI impI)
  fix x k assume x: "writable x \<and> fits x (n + k)"
  with f obtain e x' where "E e" "length e = n" "f x = (True, x')" "writable x'" "wr x' = wr x @ e"
      "fits x' k" "anchor x' = anchor x"
    unfolding emits_any_def by blast
  with h x show "\<exists>e x'. E e \<and> length e = n \<and> h x = (True, v, x') \<and> writable x' \<and> wr x' = wr x @ e \<and>
      fits x' k \<and> anchor x' = anchor x"
    by blast
qed

text \<open>
  A routine that fills \<open>n\<close> bytes reserved in line when the current buffer has room, and otherwise
  does what \<open>g\<close> does.
\<close>

lemma emits_inline_or:
  assumes inl: "\<And>x. writable x \<Longrightarrow> x_data x + n \<le> vio_wrap (x_v x) \<Longrightarrow>
      \<exists>e. E e \<and> length e = n \<and> f x = (True, (xdr_tail_update (x\<lparr>x_data := x_data x + n\<rparr>))
        \<lparr>heap := write_bytes (heap x) (x_data x) e\<rparr>)"
    and n: "n mod 4 = 0" and g: "emits_any g E n" and f: "\<And>x. \<not> x_data x + n \<le> vio_wrap (x_v x) \<Longrightarrow> f x = g x"
  shows "emits_any f E n"
  unfolding emits_any_def
proof (intro allI impI)
  fix x k assume x: "writable x \<and> fits x (n + k)"
  show "\<exists>e x'. E e \<and> length e = n \<and> f x = (True, x') \<and> writable x' \<and> wr x' = wr x @ e \<and>
      fits x' k \<and> anchor x' = anchor x"
  proof (cases "x_data x + n \<le> vio_wrap (x_v x)")
    case True
    with inl x obtain e where e: "E e" "length e = n" "f x = (True, (xdr_tail_update (x\<lparr>x_data := x_data x + n\<rparr>))
        \<lparr>heap := write_bytes (heap x) (x_data x) e\<rparr>)"
      by blast
    with True x n inline_encode_fill [of x e k] show ?thesis by auto
  next
    case False
    with x g f show ?thesis unfolding emits_any_def by metis
  qed
qed

end

end
