(* ===== verification/Xdr_Mem.thy ===== *)
theory Xdr_Mem
  imports Xdr_Handle
begin

text \<open>
  The memory stream, \<^verbatim>\<open>src/xdr_mem.c\<close>: one contiguous buffer, no slow path.  The operations come
  in the order of the file; the two interpretations at the end show that its operations vector
  keeps the contracts of \<open>Xdr_Handle\<close>.  An \<^verbatim>\<open>abort()\<close> of the code is the result \<open>None\<close>.
\<close>

section \<open>Operations\<close>

definition xdrmem_ncreate ::
    "'a rpc_xdr_scheme \<Rightarrow> addr \<Rightarrow> u32 \<Rightarrow> xdr_op \<Rightarrow> 'a rpc_xdr_scheme option" where
  "xdrmem_ncreate xdrs addr sz op =
     (if addr mod 4 \<noteq> 0 then None
      else
        let limit = (if addr \<noteq> NULL then addr + unat sz else NULL) in
        case (case op of XDR_ENCODE \<Rightarrow> Some addr | XDR_DECODE \<Rightarrow> Some limit | XDR_FREE \<Rightarrow> None) of
          None \<Rightarrow> None
        | Some tail \<Rightarrow>
            Some (xdrs\<lparr>x_op := op, x_data := addr,
              x_v := x_v xdrs\<lparr>vio_base := addr, vio_head := addr, vio_tail := tail,
                vio_wrap := limit\<rparr>,
              x_base := VioSelf\<rparr>))"

definition xdrmem_getunit :: "('a rpc_xdr_scheme, u32) xdrproc" where
  "xdrmem_getunit xdrs p = (False, p, xdrs)"

definition xdrmem_putunit :: "'a rpc_xdr_scheme \<Rightarrow> u32 \<Rightarrow> bool \<times> 'a rpc_xdr_scheme" where
  "xdrmem_putunit xdrs v = (False, xdrs)"

definition xdrmem_getbytes :: "'a rpc_xdr_scheme \<Rightarrow> u32 \<Rightarrow> bool \<times> bytes \<times> 'a rpc_xdr_scheme" where
  "xdrmem_getbytes xdrs len =
     (let future = x_data xdrs + unat len in
      if future > vio_tail (x_v xdrs) then (False, [], xdrs)
      else (True, read_bytes (heap xdrs) (x_data xdrs) (unat len), xdrs\<lparr>x_data := future\<rparr>))"

definition xdrmem_putbytes :: "'a rpc_xdr_scheme \<Rightarrow> bytes \<Rightarrow> bool \<times> 'a rpc_xdr_scheme" where
  "xdrmem_putbytes xdrs bs =
     (let future = x_data xdrs + length bs in
      if future > vio_wrap (x_v xdrs) then (False, xdrs)
      else (True, xdrs\<lparr>heap := write_bytes (heap xdrs) (x_data xdrs) bs, x_data := future\<rparr>))"

definition xdrmem_getpos :: "'a rpc_xdr_scheme \<Rightarrow> u32 \<times> 'a rpc_xdr_scheme" where
  "xdrmem_getpos xdrs =
     (let xdrs = xdr_tail_update xdrs in
      (of_nat (x_data xdrs) - of_nat (vio_head (x_v xdrs)), xdrs))"

definition xdrmem_getstartdatapos :: "'a rpc_xdr_scheme \<Rightarrow> u32 \<Rightarrow> u32 \<Rightarrow> u32" where
  "xdrmem_getstartdatapos xdrs start datalen = start"

definition xdrmem_getenddatapos :: "'a rpc_xdr_scheme \<Rightarrow> u32 \<Rightarrow> u32 \<Rightarrow> u32" where
  "xdrmem_getenddatapos xdrs start datalen = start + datalen"

definition xdrmem_setpos :: "'a rpc_xdr_scheme \<Rightarrow> u32 \<Rightarrow> bool \<times> 'a rpc_xdr_scheme" where
  "xdrmem_setpos xdrs pos =
     (let future = vio_head (x_v xdrs) + unat pos;
          xdrs = xdr_tail_update xdrs in
      if future > vio_wrap (x_v xdrs) then (False, xdrs)
      else (True, xdrs\<lparr>x_data := future\<rparr>))"

text \<open>The vectored operations.\<close>

fun xdrmem_putvio :: "'a rpc_xdr_scheme \<Rightarrow> xdr_vio list \<Rightarrow> bool \<times> 'a rpc_xdr_scheme" where
  "xdrmem_putvio xdrs [] = (True, xdrs)"
| "xdrmem_putvio xdrs (v # vs) =
     (case xdrmem_putbytes xdrs (read_bytes (heap xdrs) (vio_head v) (unat (vio_length v))) of
        (False, xdrs) \<Rightarrow> (False, xdrs)
      | (True, xdrs) \<Rightarrow> xdrmem_putvio xdrs vs)"

definition xdrmem_putbufs ::
    "'a rpc_xdr_scheme \<Rightarrow> xdr_uio \<Rightarrow> u32 \<Rightarrow> (bool \<times> xdr_uio \<times> 'a rpc_xdr_scheme) option" where
  "xdrmem_putbufs xdrs uio flags =
     (case xdrmem_putvio (xdr_tail_update xdrs) (uio_vio uio) of
        (False, xdrs) \<Rightarrow> Some (False, uio, xdrs)
      | (True, xdrs) \<Rightarrow>
          let uio = uio\<lparr>uio_references := uio_references uio - 1\<rparr> in
          if uio_references uio = 0 then
            if uio_release uio then Some (True, uio\<lparr>uio_released := True\<rparr>, xdrs)
            else None
          else Some (True, uio, xdrs))"

definition xdrmem_range_valid :: "'a rpc_xdr_scheme \<Rightarrow> u32 \<Rightarrow> u32 \<Rightarrow> bool" where
  "xdrmem_range_valid xdrs start datalen =
     (if vio_head (x_v xdrs) = NULL \<or> vio_tail (x_v xdrs) = NULL then start = 0 \<and> datalen = 0
      else
        let used = (of_nat (vio_tail (x_v xdrs)) - of_nat (vio_head (x_v xdrs)) :: u64) in
        ucast start \<le> used \<and> ucast datalen \<le> used - ucast start)"

definition xdrmem_iovcount :: "'a rpc_xdr_scheme \<Rightarrow> u32 \<Rightarrow> u32 \<Rightarrow> int" where
  "xdrmem_iovcount xdrs start datalen =
     (if \<not> xdrmem_range_valid xdrs start datalen then -1 else 1)"

definition xdrmem_fillbufs ::
    "'a rpc_xdr_scheme \<Rightarrow> u32 \<Rightarrow> xdr_vio list \<Rightarrow> u32 \<Rightarrow> bool \<times> xdr_vio list" where
  "xdrmem_fillbufs xdrs start vector datalen =
     (if \<not> xdrmem_range_valid xdrs start datalen then (False, vector)
      else
        let v = (x_v xdrs)\<lparr>vio_type := VIO_DATA\<rparr>;
            v = (if vio_head (x_v xdrs) \<noteq> NULL
                 then v\<lparr>vio_head := vio_head (x_v xdrs) + unat start,
                        vio_tail := vio_head (x_v xdrs) + unat start + unat datalen\<rparr>
                 else v) in
        (True, vector[0 := v\<lparr>vio_length := datalen\<rparr>]))"

text \<open>
  The loop of \<^verbatim>\<open>xdrmem_allochdrs\<close>: the vectors already handled are in \<open>done\<close>, newest first; the
  \<^verbatim>\<open>iov_count\<close> vectors are the list.
\<close>

fun xdrmem_allochdrs_loop ::
    "addr \<Rightarrow> bool \<Rightarrow> 'a rpc_xdr_scheme \<Rightarrow> xdr_vio list \<Rightarrow> xdr_vio list \<Rightarrow>
     bool \<times> xdr_vio list \<times> 'a rpc_xdr_scheme" where
  "xdrmem_allochdrs_loop current found_data xdrs handled [] =
     (True, rev handled, xdr_tail_update xdrs)"
| "xdrmem_allochdrs_loop current found_data xdrs handled (v # vs) =
     (if found_data = (vio_type v \<noteq> VIO_DATA) then
        (False, rev handled @ v # vs, xdrs\<lparr>x_data := current\<rparr>)
      else if vio_type v \<noteq> VIO_DATA then
        let future = x_data xdrs + unat (vio_length v) in
        if future > vio_wrap (x_v xdrs) then
          (False, rev handled @ v # vs, xdrs\<lparr>x_data := current\<rparr>)
        else
          xdrmem_allochdrs_loop current found_data (xdrs\<lparr>x_data := future\<rparr>)
            (v\<lparr>vio_base := vio_base (x_v xdrs), vio_head := x_data xdrs, vio_tail := future,
               vio_wrap := vio_wrap (x_v xdrs)\<rparr> # handled) vs
      else xdrmem_allochdrs_loop current True xdrs (v # handled) vs)"

definition xdrmem_allochdrs ::
    "'a rpc_xdr_scheme \<Rightarrow> u32 \<Rightarrow> xdr_vio list \<Rightarrow> bool \<times> xdr_vio list \<times> 'a rpc_xdr_scheme" where
  "xdrmem_allochdrs xdrs start vector = xdrmem_allochdrs_loop (x_data xdrs) False xdrs [] vector"

definition xdrmem_destroy :: "'a rpc_xdr_scheme \<Rightarrow> 'a rpc_xdr_scheme" where
  "xdrmem_destroy xdrs = xdrs"

definition xdrmem_noop :: "'a rpc_xdr_scheme \<Rightarrow> bool \<times> 'a rpc_xdr_scheme" where
  "xdrmem_noop xdrs = (False, xdrs)"

definition xdrmem_ops_aligned :: "'a ops" where
  "xdrmem_ops_aligned =
     \<lparr>x_getunit = xdrmem_getunit, x_putunit = xdrmem_putunit,
      x_getbytes = xdrmem_getbytes, x_putbytes = xdrmem_putbytes,
      x_getpostn = xdrmem_getpos, x_getstartdatapos = xdrmem_getstartdatapos,
      x_getenddatapos = xdrmem_getenddatapos, x_setpostn = xdrmem_setpos,
      x_destroy = xdrmem_destroy, x_control = xdrmem_noop, x_getbufs = xdrmem_noop,
      x_putbufs = xdrmem_putbufs, x_newbuf = xdrmem_noop,
      x_iovcount = (\<lambda>xdrs start datalen. (xdrmem_iovcount xdrs start datalen, xdrs)),
      x_fillbufs = (\<lambda>xdrs start vector datalen.
        case xdrmem_fillbufs xdrs start vector datalen of (b, vector) \<Rightarrow> (b, vector, xdrs)),
      x_allochdrs = (\<lambda>xdrs start vector. Some (xdrmem_allochdrs xdrs start vector))\<rparr>"

lemmas xdrmem_defs = xdrmem_getunit_def xdrmem_putunit_def xdrmem_getbytes_def
  xdrmem_putbytes_def xdrmem_getpos_def xdrmem_setpos_def

lemma xdrmem_ops_simps [simp]:
  "x_getunit xdrmem_ops_aligned = xdrmem_getunit"
  "x_putunit xdrmem_ops_aligned = xdrmem_putunit"
  "x_getbytes xdrmem_ops_aligned = xdrmem_getbytes"
  "x_putbytes xdrmem_ops_aligned = xdrmem_putbytes"
  "x_getpostn xdrmem_ops_aligned = xdrmem_getpos"
  "x_setpostn xdrmem_ops_aligned = xdrmem_setpos"
  by (simp_all add: xdrmem_ops_aligned_def)

section \<open>The memory stream keeps the contracts\<close>

definition mem_rinv :: "'a rpc_xdr_scheme \<Rightarrow> bool" where
  "mem_rinv x \<longleftrightarrow> x_data x \<noteq> NULL \<and> vio_head (x_v x) \<le> x_data x \<and> x_data x \<le> vio_tail (x_v x)"

definition mem_rd :: "'a rpc_xdr_scheme \<Rightarrow> bytes" where
  "mem_rd x = read_bytes (heap x) (x_data x) (vio_tail (x_v x) - x_data x)"

definition mem_phase :: "'a rpc_xdr_scheme \<Rightarrow> nat" where
  "mem_phase x = (x_data x - vio_head (x_v x)) mod 4"

definition mem_winv :: "'a rpc_xdr_scheme \<Rightarrow> bool" where
  "mem_winv x \<longleftrightarrow> x_data x \<noteq> NULL \<and> vio_head (x_v x) \<le> x_data x \<and> x_data x \<le> vio_wrap (x_v x)"

definition mem_wr :: "'a rpc_xdr_scheme \<Rightarrow> bytes" where
  "mem_wr x = read_bytes (heap x) (vio_head (x_v x)) (x_data x - vio_head (x_v x))"

definition mem_fits :: "'a rpc_xdr_scheme \<Rightarrow> nat \<Rightarrow> bool" where
  "mem_fits x n \<longleftrightarrow> x_data x + n \<le> vio_wrap (x_v x)"

interpretation mem_r: xdr_reader "xdrmem_ops_aligned :: 'a ops" mem_rinv mem_rd mem_phase
proof
  fix x :: "'a rpc_xdr_scheme" and n :: nat
  assume x: "mem_rinv x" and n: "x_data x + n \<le> vio_tail (x_v x)"
  then show "mem_rd x = read_bytes (heap x) (x_data x) n @ mem_rd (x\<lparr>x_data := x_data x + n\<rparr>)"
    using read_bytes_split [of n "vio_tail (x_v x) - x_data x" "heap x" "x_data x"]
    by (simp add: mem_rd_def)
  show "mem_rinv (x\<lparr>x_data := x_data x + n\<rparr>)"
    using x n by (simp add: mem_rinv_def)
  show "mem_phase (x\<lparr>x_data := x_data x + n\<rparr>) = (mem_phase x + n) mod 4"
    using x by (simp add: mem_phase_def mem_rinv_def mod_add_left_eq)
next
  fix x :: "'a rpc_xdr_scheme" and cnt :: u32
  assume "mem_rinv x" and "unat cnt \<le> length (mem_rd x)"
  then show "\<exists>x'. x_getbytes xdrmem_ops_aligned x cnt = (True, take (unat cnt) (mem_rd x), x') \<and>
      mem_rinv x' \<and> mem_rd x' = drop (unat cnt) (mem_rd x) \<and>
      mem_phase x' = (mem_phase x + unat cnt) mod 4 \<and> x_op x' = x_op x \<and> mlog x' = mlog x"
    by (auto simp: xdrmem_getbytes_def mem_rinv_def mem_rd_def mem_phase_def take_read_bytes
        drop_read_bytes mod_add_left_eq min_def)
qed (auto simp: mem_rinv_def mem_rd_def mem_phase_def xdrmem_defs)

interpretation mem_w: xdr_writer "xdrmem_ops_aligned :: 'a ops" mem_winv mem_wr mem_fits
  "\<lambda>x. vio_head (x_v x)" mem_phase
proof
  fix x :: "'a rpc_xdr_scheme" and bs :: bytes
  assume x: "mem_winv x" and n: "x_data x + length bs \<le> vio_wrap (x_v x)"
  then show "mem_wr (x\<lparr>heap := write_bytes (heap x) (x_data x) bs,
      x_data := x_data x + length bs\<rparr>) = mem_wr x @ bs"
    by (simp add: mem_wr_def mem_winv_def mem_simps)
next
  fix x :: "'a rpc_xdr_scheme" and bs :: bytes and k
  assume "mem_winv x" "mem_fits x (length bs + k)"
  then show "\<exists>x'. x_putbytes xdrmem_ops_aligned x bs = (True, x') \<and> mem_winv x' \<and>
      mem_wr x' = mem_wr x @ bs \<and> mem_fits x' k \<and> x_op x' = x_op x \<and> vio_head (x_v x') = vio_head (x_v x) \<and>
      mem_phase x' = (mem_phase x + length bs) mod 4"
    by (simp add: xdrmem_putbytes_def mem_fits_def mem_winv_def mem_wr_def mem_phase_def mod_add_left_eq mem_simps)
qed (auto simp: mem_winv_def mem_wr_def mem_fits_def mem_phase_def mod_add_left_eq xdrmem_defs)

text \<open>A stream created for writing is empty and has room for its size; one for reading holds its buffer.\<close>

lemma xdrmem_ncreate_encode:
  assumes "xdrmem_ncreate xdrs a sz XDR_ENCODE = Some x" "a \<noteq> NULL"
  shows "mem_w.writable x" "mem_wr x = []" "mem_fits x n \<longleftrightarrow> n \<le> unat sz" "heap x = heap xdrs"
    "vio_head (x_v x) = a" "x_data x = a" "vio_wrap (x_v x) = a + unat sz"
  using assms
  by (auto simp: xdrmem_ncreate_def mem_w.writable_def mem_winv_def mem_wr_def mem_fits_def mem_phase_def
      Let_def split: if_splits)

lemma xdrmem_ncreate_decode:
  assumes "xdrmem_ncreate xdrs a sz XDR_DECODE = Some x" "a \<noteq> NULL"
  shows "mem_r.ready x" "mem_rd x = read_bytes (heap xdrs) a (unat sz)" "heap x = heap xdrs"
    "mlog x = mlog xdrs"
  using assms
  by (auto simp: xdrmem_ncreate_def mem_r.ready_def mem_rinv_def mem_rd_def mem_phase_def
      Let_def split: if_splits)

text \<open>
  Encoding an object into a buffer and decoding it again, the way the callers of the memory stream
  do: a stream over \<open>sz\<close> bytes at \<open>a\<close> for the encoder, then one over the bytes up to the position
  the encoder reached for the decoder.
\<close>

definition mem_transfer ::
    "addr \<Rightarrow> u32 \<Rightarrow> ('a rpc_xdr_scheme \<Rightarrow> bool \<times> 'v \<times> 'a rpc_xdr_scheme) \<Rightarrow>
     ('a rpc_xdr_scheme \<Rightarrow> bool \<times> 'w \<times> 'a rpc_xdr_scheme) \<Rightarrow> 'a rpc_xdr_scheme \<Rightarrow> 'w option" where
  "mem_transfer a sz enc dec xdrs =
     (case xdrmem_ncreate xdrs a sz XDR_ENCODE of
        None \<Rightarrow> None
      | Some x \<Rightarrow>
          (case enc x of
             (False, _, x) \<Rightarrow> None
           | (True, _, x) \<Rightarrow>
               (case xdrmem_getpos x of (n, x) \<Rightarrow>
                  (case xdrmem_ncreate x a n XDR_DECODE of
                     None \<Rightarrow> None
                   | Some y \<Rightarrow> (case dec y of (b, w, y) \<Rightarrow> if b then Some w else None)))))"

lemma mem_transfer_any:
  assumes enc: "mem_w.encodes_any enc E m v" and d: "\<And>e. E e \<Longrightarrow> mem_r.decodes dec e w"
    and a: "a \<noteq> NULL" "a mod 4 = 0" and len: "m \<le> unat sz"
  shows "mem_transfer a sz enc dec xdrs = Some w"
proof -
  obtain x where x: "xdrmem_ncreate xdrs a sz XDR_ENCODE = Some x"
    using a by (simp add: xdrmem_ncreate_def)
  note c = xdrmem_ncreate_encode [OF x a(1)]
  have "mem_w.writable x \<and> mem_fits x (m + 0)" using c len by simp
  from enc [unfolded mem_w.encodes_any_def, rule_format, OF this]
  obtain e x1 where e: "E e" "length e = m" and
      x1: "enc x = (True, v, x1)" "mem_w.writable x1" "mem_wr x1 = e" "vio_head (x_v x1) = vio_head (x_v x)"
    by (auto simp: c(2))
  with c have h: "vio_head (x_v x1) = a" by simp
  then have n: "x_data x1 - a = length e" "a \<le> x_data x1"
    using x1(2,3) by (auto simp: mem_wr_def mem_w.writable_def mem_winv_def)
  have "length e < 2 ^ LENGTH(32)"
    using len e(2) unsigned_less [of sz, where ?'a = nat] by (metis le_less_trans)
  then have p: "unat (of_nat (x_data x1) - of_nat a :: u32) = length e"
    using n by (subst unat_of_nat_diff) auto
  let ?n = "of_nat (x_data x1) - of_nat a :: u32"
  obtain y where y: "xdrmem_ncreate (xdr_tail_update x1) a ?n XDR_DECODE = Some y"
    using a by (simp add: xdrmem_ncreate_def)
  note r = xdrmem_ncreate_decode [OF y a(1)]
  have "mem_rd y = e @ []"
    using r x1(3) p h n by (simp add: mem_wr_def)
  with mem_r.decodesE [OF d [OF e(1)] r(1)] obtain y' where "dec y = (True, w, y')" by metis
  with x x1(1) y h show ?thesis
    by (simp add: mem_transfer_def xdrmem_getpos_def)
qed

lemma mem_transfer_ok:
  assumes "mem_w.encodes enc e v" "mem_r.decodes dec e w" "a \<noteq> NULL" "a mod 4 = 0" "length e \<le> unat sz"
  shows "mem_transfer a sz enc dec xdrs = Some w"
  by (rule mem_transfer_any [OF mem_w.encodes_any_exact [OF assms(1), where E = "(=) e"]])
    (use assms in auto)

text \<open>One filter in both directions: the object \<open>v\<close> is written, and read back over the object \<open>old\<close>.\<close>

definition mem_roundtrip ::
    "addr \<Rightarrow> u32 \<Rightarrow> ('a rpc_xdr_scheme, 'v) xdrproc \<Rightarrow> 'v \<Rightarrow> 'v \<Rightarrow> 'a rpc_xdr_scheme \<Rightarrow> 'v option" where
  "mem_roundtrip a sz f v old xdrs = mem_transfer a sz (\<lambda>x. f x v) (\<lambda>x. f x old) xdrs"

lemma mem_roundtrip_ok:
  assumes "mem_w.encodes (\<lambda>x. f x v) e v'" "mem_r.decodes (\<lambda>x. f x old) e w"
    "a \<noteq> NULL" "a mod 4 = 0" "length e \<le> unat sz"
  shows "mem_roundtrip a sz f v old xdrs = Some w"
  unfolding mem_roundtrip_def by (rule mem_transfer_ok [OF assms])

section \<open>Bounds\<close>

text \<open>The shape invariant stated in \<^verbatim>\<open>xdr.h\<close> for a vector, with the position inside it.\<close>

definition mem_ok :: "'a rpc_xdr_scheme \<Rightarrow> bool" where
  "mem_ok x \<longleftrightarrow> x_base x = VioSelf \<and> vio_base (x_v x) \<le> vio_head (x_v x) \<and>
     vio_head (x_v x) \<le> vio_tail (x_v x) \<and> vio_tail (x_v x) \<le> vio_wrap (x_v x) \<and>
     vio_head (x_v x) \<le> x_data x \<and> x_data x \<le> vio_wrap (x_v x)"

text \<open>The calls a client can make on a memory stream, and the handle each leaves.\<close>

datatype mem_api =
    Call_getuint32
  | Call_putuint32 u32
  | Call_getlong
  | Call_putlong u64
  | Call_getuint16
  | Call_putuint16 u32
  | Call_getuint8
  | Call_putuint8 u32
  | Call_getbytes u32
  | Call_putbytes bytes
  | Call_inline_decode nat
  | Call_inline_encode nat
  | Call_getpos
  | Call_setpos u32
  | Call_putbufs "xdr_vio list"
  | Call_allochdrs "xdr_vio list"

fun mem_call :: "mem_api \<Rightarrow> 'a rpc_xdr_scheme \<Rightarrow> 'a rpc_xdr_scheme" where
  "mem_call Call_getuint32 x = snd (snd (xdr_getuint32 xdrmem_ops_aligned x 0))"
| "mem_call (Call_putuint32 v) x = snd (xdr_putuint32 xdrmem_ops_aligned x v)"
| "mem_call Call_getlong x = snd (snd (xdr_getlong xdrmem_ops_aligned x 0))"
| "mem_call (Call_putlong v) x = snd (xdr_putlong xdrmem_ops_aligned x v)"
| "mem_call Call_getuint16 x = snd (snd (xdr_getuint16 xdrmem_ops_aligned x 0))"
| "mem_call (Call_putuint16 v) x = snd (xdr_putuint16 xdrmem_ops_aligned x v)"
| "mem_call Call_getuint8 x = snd (snd (xdr_getuint8 xdrmem_ops_aligned x 0))"
| "mem_call (Call_putuint8 v) x = snd (xdr_putuint8 xdrmem_ops_aligned x v)"
| "mem_call (Call_getbytes n) x = snd (snd (xdrmem_getbytes x n))"
| "mem_call (Call_putbytes bs) x = snd (xdrmem_putbytes x bs)"
| "mem_call (Call_inline_decode n) x = snd (xdr_inline_decode x n)"
| "mem_call (Call_inline_encode n) x = snd (xdr_inline_encode x n)"
| "mem_call Call_getpos x = snd (xdrmem_getpos x)"
| "mem_call (Call_setpos p) x = snd (xdrmem_setpos x p)"
| "mem_call (Call_putbufs vs) x = snd (xdrmem_putvio (xdr_tail_update x) vs)"
| "mem_call (Call_allochdrs vs) x = snd (snd (xdrmem_allochdrs x 0 vs))"

text \<open>
  \<open>mem_within x y\<close>: from \<open>x\<close> to \<open>y\<close> the handle stays well formed on the same buffer, and no byte
  outside the buffer changes.
\<close>

definition mem_within :: "'a rpc_xdr_scheme \<Rightarrow> 'a rpc_xdr_scheme \<Rightarrow> bool" where
  "mem_within x y \<longleftrightarrow> mem_ok y \<and> vio_base (x_v y) = vio_base (x_v x) \<and>
     vio_head (x_v y) = vio_head (x_v x) \<and> vio_wrap (x_v y) = vio_wrap (x_v x) \<and>
     (\<forall>a. a < vio_head (x_v x) \<or> vio_wrap (x_v x) \<le> a \<longrightarrow> heap y a = heap x a)"

lemma mem_within_refl: "mem_ok x \<Longrightarrow> mem_within x x"
  by (simp add: mem_within_def)

lemma mem_within_trans: "mem_within x y \<Longrightarrow> mem_within y z \<Longrightarrow> mem_within x z"
  by (simp add: mem_within_def)

lemma mem_within_tail: "mem_ok x \<Longrightarrow> mem_within x (xdr_tail_update x)"
  by (auto simp: mem_within_def mem_ok_def)

lemma mem_within_seek:
  "mem_ok x \<Longrightarrow> vio_head (x_v x) \<le> a \<Longrightarrow> a \<le> vio_wrap (x_v x) \<Longrightarrow> mem_within x (x\<lparr>x_data := a\<rparr>)"
  by (simp add: mem_within_def mem_ok_def)

lemma mem_within_store:
  "mem_ok x \<Longrightarrow> a = x_data x + length bs \<Longrightarrow> a \<le> vio_wrap (x_v x) \<Longrightarrow>
   mem_within x (x\<lparr>heap := write_bytes (heap x) (x_data x) bs, x_data := a\<rparr>)"
  by (auto simp: mem_within_def mem_ok_def write_bytes_def)

lemma mem_within_putbytes: "mem_ok x \<Longrightarrow> mem_within x (snd (xdrmem_putbytes x bs))"
  by (simp add: xdrmem_putbytes_def mem_within_store mem_within_refl Let_def)

lemma mem_within_putvio: "mem_ok x \<Longrightarrow> mem_within x (snd (xdrmem_putvio x vs))"
proof (induction x vs rule: xdrmem_putvio.induct)
  case (1 xdrs)
  then show ?case by (simp add: mem_within_refl)
next
  case (2 xdrs v vs)
  obtain b y where y:
    "xdrmem_putbytes xdrs (read_bytes (heap xdrs) (vio_head v) (unat (vio_length v))) = (b, y)"
    by fastforce
  then have "mem_within xdrs y"
    using mem_within_putbytes [OF "2.prems"] by (metis snd_conv)
  moreover from this have "b \<Longrightarrow> mem_within y (snd (xdrmem_putvio y vs))"
    using "2.IH" y by (simp add: mem_within_def)
  ultimately show ?case
    using y by (auto split: bool.split intro: mem_within_trans)
qed

lemma mem_within_allochdrs_loop:
  assumes "mem_ok x" "vio_head (x_v x) \<le> c" "c \<le> vio_wrap (x_v x)"
  shows "mem_within x (snd (snd (xdrmem_allochdrs_loop c f x d vs)))"
  using assms
proof (induction c f x d vs rule: xdrmem_allochdrs_loop.induct)
  case (1 current found_data xdrs handled)
  then show ?case by (simp add: mem_within_tail)
next
  case (2 current found_data xdrs handled v vs)
  let ?y = "xdrs\<lparr>x_data := x_data xdrs + unat (vio_length v)\<rparr>"
  have y: "mem_within xdrs ?y" if "x_data xdrs + unat (vio_length v) \<le> vio_wrap (x_v xdrs)"
    using that "2.prems" by (intro mem_within_seek) (auto simp: mem_ok_def)
  then have "mem_ok ?y" if "x_data xdrs + unat (vio_length v) \<le> vio_wrap (x_v xdrs)"
    using that by (simp add: mem_within_def)
  with 2 y show ?case
    by (auto simp: Let_def mem_within_seek intro!: mem_within_trans [OF y])
qed

lemma mem_within_call:
  assumes "mem_ok x"
  shows "mem_within x (mem_call c x)"
proof -
  have d: "vio_head (x_v x) \<le> x_data x" "vio_tail (x_v x) \<le> vio_wrap (x_v x)"
    using assms by (simp_all add: mem_ok_def)
  have t: "mem_ok (xdr_tail_update x)"
    using mem_within_tail [OF assms] by (simp add: mem_within_def)
  show ?thesis
  proof (cases c)
    case (Call_putbufs vs)
    then show ?thesis
      using mem_within_trans [OF mem_within_tail [OF assms] mem_within_putvio [OF t]] by simp
  next
    case (Call_allochdrs vs)
    then show ?thesis
      using assms by (simp add: xdrmem_allochdrs_def mem_within_allochdrs_loop mem_ok_def)
  next
    case (Call_inline_encode n)
    have "x_data x + n \<le> vio_wrap (x_v x) \<Longrightarrow> mem_within x (xdr_tail_update (x\<lparr>x_data := x_data x + n\<rparr>))"
      using assms mem_within_seek [OF assms, of "x_data x + n"] d mem_within_tail
      by (metis mem_within_def mem_within_trans trans_le_add1)
    with Call_inline_encode assms show ?thesis
      by (simp add: xdr_inline_encode_def mem_within_refl Let_def)
  next
    case (Call_setpos p)
    have "vio_head (x_v x) + unat p \<le> vio_wrap (x_v x) \<Longrightarrow>
        mem_within x ((xdr_tail_update x)\<lparr>x_data := vio_head (x_v x) + unat p\<rparr>)"
      using mem_within_trans [OF mem_within_tail [OF assms] mem_within_seek [OF t]] by simp
    with Call_setpos assms show ?thesis
      by (simp add: xdrmem_setpos_def mem_within_tail Let_def)
  qed (use assms d in \<open>auto simp: xdr_getuint32_def xdr_putuint32_def xdr_getlong_def xdr_putlong_def
      xdr_getuint16_def xdr_putuint16_def xdr_getuint8_def xdr_putuint8_def xdr_inline_decode_def
      xdrmem_defs Let_def intro!: mem_within_refl mem_within_seek mem_within_store mem_within_tail
      split: prod.split\<close>)
qed

lemma mem_within_fold: "mem_ok x \<Longrightarrow> mem_within x (fold mem_call cs x)"
proof (induction cs arbitrary: x)
  case Nil
  then show ?case by (simp add: mem_within_refl)
next
  case (Cons c cs)
  from mem_within_call [OF Cons.prems] have c: "mem_within x (mem_call c x)" .
  then have "mem_ok (mem_call c x)" by (simp add: mem_within_def)
  from mem_within_trans [OF c Cons.IH [OF this]] show ?case by simp
qed

section \<open>Properties\<close>

text \<open>C5: Whatever sequence of calls a client makes on a memory stream, the handle keeps the order
  \<^verbatim>\<open>vio_base <= vio_head <= vio_tail <= vio_wrap\<close> on the same buffer with \<^verbatim>\<open>x_data\<close> inside it, and
  no byte of memory outside the buffer is written.\<close>

theorem xdrmem_calls_stay_in_buffer:
  assumes "mem_ok x"
  shows "mem_within x (fold mem_call cs x)"
  using assms by (rule mem_within_fold)

text \<open>A writable stream over the eight bytes at address 64, for the witnesses.\<close>

definition xdr_blank :: rpc_xdr where
  "xdr_blank = \<lparr>x_data = 0, x_base = VioNull,
     x_v = \<lparr>vio_base = 0, vio_head = 0, vio_tail = 0, vio_wrap = 0, vio_length = 0,
       vio_type = VIO_DATA\<rparr>,
     x_handy = 0, x_flags = 0, x_op = XDR_FREE, heap = (\<lambda>_. 0), vios = (\<lambda>_. undefined),
     fresh = (\<lambda>_. 0), mlog = []\<rparr>"

definition xdr_demo :: "u32 \<Rightarrow> xdr_op \<Rightarrow> rpc_xdr" where
  "xdr_demo n op = the (xdrmem_ncreate xdr_blank 64 n op)"

text \<open>A readable stream over the given bytes at address 64.\<close>

definition xdr_demo_read :: "bytes \<Rightarrow> rpc_xdr" where
  "xdr_demo_read bs =
     the (xdrmem_ncreate (xdr_blank\<lparr>heap := write_bytes (\<lambda>_. 0) 64 bs\<rparr>) 64 (of_nat (length bs)) XDR_DECODE)"

lemma xdr_demo_read_ready:
  assumes "length bs < 2 ^ 32"
  shows "mem_r.ready (xdr_demo_read bs)" "mem_rd (xdr_demo_read bs) = bs" "mlog (xdr_demo_read bs) = []"
proof -
  let ?y = "xdr_blank\<lparr>heap := write_bytes (\<lambda>_. 0) 64 bs\<rparr>"
  have n: "unat (of_nat (length bs) :: u32) = length bs"
    using assms by (simp add: unat_of_nat_small)
  obtain x where x: "xdrmem_ncreate ?y 64 (of_nat (length bs)) XDR_DECODE = Some x"
    by (simp add: xdrmem_ncreate_def)
  then have "xdr_demo_read bs = x" by (simp add: xdr_demo_read_def)
  with xdrmem_ncreate_decode [OF x] n
  show "mem_r.ready (xdr_demo_read bs)" "mem_rd (xdr_demo_read bs) = bs" "mlog (xdr_demo_read bs) = []"
    by (simp_all add: mem_simps xdr_blank_def)
qed

theorem xdrmem_calls_stay_in_buffer_witness:
  "mem_ok (xdr_demo 8 XDR_ENCODE) \<and>
   mem_within (xdr_demo 8 XDR_ENCODE)
     (fold mem_call [Call_putuint32 7, Call_putbytes [1, 2, 3], Call_putuint32 9, Call_setpos 2]
       (xdr_demo 8 XDR_ENCODE))"
proof -
  have "mem_ok (xdr_demo 8 XDR_ENCODE)"
    by (simp add: xdr_demo_def xdrmem_ncreate_def xdr_blank_def mem_ok_def)
  then show ?thesis using xdrmem_calls_stay_in_buffer by blast
qed

lemma ucast_le_u64: "(ucast (a :: u32) :: u64) \<le> b \<longleftrightarrow> unat a \<le> unat b"
  by (simp add: word_le_nat_alt)

lemma xdrmem_range_valid_iff:
  assumes "vio_head (x_v x) \<le> vio_tail (x_v x)" "vio_tail (x_v x) < 2 ^ 64"
    and "vio_head (x_v x) = NULL \<longrightarrow> vio_tail (x_v x) = NULL"
  shows "xdrmem_range_valid x start datalen \<longleftrightarrow>
    unat start + unat datalen \<le> vio_tail (x_v x) - vio_head (x_v x)"
proof (cases "vio_head (x_v x) = NULL \<or> vio_tail (x_v x) = NULL")
  case True
  with assms have "vio_tail (x_v x) - vio_head (x_v x) = 0" by auto
  with True show ?thesis
    by (simp add: xdrmem_range_valid_def unat_eq_zero)
next
  case False
  let ?used = "of_nat (vio_tail (x_v x)) - of_nat (vio_head (x_v x)) :: u64"
  have u: "unat ?used = vio_tail (x_v x) - vio_head (x_v x)"
    by (rule unat_of_nat_diff) (use assms in auto)
  have "(ucast start :: u64) \<le> ?used \<Longrightarrow> unat (?used - ucast start) = unat ?used - unat start"
    by (simp add: unat_sub)
  with False u show ?thesis
    by (auto simp: xdrmem_range_valid_def ucast_le_u64 Let_def)
qed

text \<open>C6: The range check of the memory stream is exact for every 32-bit \<^verbatim>\<open>start\<close> and \<^verbatim>\<open>datalen\<close>, hostile
  ones included: \<^verbatim>\<open>xdrmem_iovcount\<close> and \<^verbatim>\<open>xdrmem_fillbufs\<close> accept a range exactly when
  \<^verbatim>\<open>start + datalen\<close>, without wrap-around, is at most the used length, and then the vector that is
  filled in is the requested window of the used part of the buffer.\<close>

theorem xdrmem_fillbufs_exact:
  assumes "vio_head (x_v x) \<le> vio_tail (x_v x)" "vio_tail (x_v x) < 2 ^ 64"
    and "vio_head (x_v x) \<noteq> NULL" "vector \<noteq> []"
  shows "(xdrmem_iovcount x start datalen = 1 \<longleftrightarrow>
      unat start + unat datalen \<le> vio_tail (x_v x) - vio_head (x_v x)) \<and>
    (fst (xdrmem_fillbufs x start vector datalen) \<longleftrightarrow> xdrmem_iovcount x start datalen = 1) \<and>
    (fst (xdrmem_fillbufs x start vector datalen) \<longrightarrow>
      (let v = snd (xdrmem_fillbufs x start vector datalen) ! 0 in
       vio_head v = vio_head (x_v x) + unat start \<and> vio_tail v = vio_head v + unat datalen \<and>
       vio_tail v \<le> vio_tail (x_v x) \<and> vio_length v = datalen \<and> vio_type v = VIO_DATA))"
  using assms xdrmem_range_valid_iff [of x start datalen]
  by (auto simp: xdrmem_iovcount_def xdrmem_fillbufs_def Let_def)

theorem xdrmem_fillbufs_exact_witness:
  "fst (xdrmem_fillbufs (xdr_demo 8 XDR_DECODE) 4 [x_v xdr_blank] 4) \<and>
   xdrmem_iovcount (xdr_demo 8 XDR_DECODE) 4 0xFFFFFFFF = -1"
proof -
  let ?x = "xdr_demo 8 XDR_DECODE"
  have h: "vio_head (x_v ?x) = 64" "vio_tail (x_v ?x) = 72"
    by (simp_all add: xdr_demo_def xdrmem_ncreate_def xdr_blank_def)
  have "xdrmem_iovcount ?x 4 4 = 1"
    using xdrmem_fillbufs_exact [of ?x "[x_v xdr_blank]" 4 4] h by simp
  moreover have "xdrmem_iovcount ?x 4 0xFFFFFFFF \<noteq> 1"
    using xdrmem_fillbufs_exact [of ?x "[x_v xdr_blank]" 4 "0xFFFFFFFF"] h by simp
  ultimately show ?thesis
    using xdrmem_fillbufs_exact [of ?x "[x_v xdr_blank]" 4 4] h
    by (simp add: xdrmem_iovcount_def split: if_splits)
qed

lemma allochdrs_loop_status:
  "x_data x \<le> vio_wrap (x_v x) \<Longrightarrow>
   fst (xdrmem_allochdrs_loop c False x d vs) \<longleftrightarrow>
     (\<forall>v \<in> set vs. vio_type v \<noteq> VIO_DATA) \<and>
     x_data x + (\<Sum>v\<leftarrow>vs. unat (vio_length v)) \<le> vio_wrap (x_v x)"
  by (induction c "False" x d vs rule: xdrmem_allochdrs_loop.induct) (auto simp: Let_def)

lemma allochdrs_loop_failed:
  "\<not> fst (xdrmem_allochdrs_loop c f x d vs) \<Longrightarrow>
   snd (snd (xdrmem_allochdrs_loop c f x d vs)) = x\<lparr>x_data := c\<rparr>"
  by (induction c f x d vs rule: xdrmem_allochdrs_loop.induct) (auto simp: Let_def)

text \<open>C7: \<^verbatim>\<open>xdrmem_allochdrs\<close> accepts a vector exactly when it holds no \<^verbatim>\<open>VIO_DATA\<close> entry at all and the
  lengths of its entries fit behind the current position: the test that is meant to reject a second
  data entry, or a header after the data, rejects the first data entry.  When it fails the handle is
  as before the call.\<close>

theorem xdrmem_allochdrs_rejects_data:
  assumes "x_data x \<le> vio_wrap (x_v x)"
  shows "(fst (xdrmem_allochdrs x start vector) \<longleftrightarrow>
      (\<forall>v \<in> set vector. vio_type v \<noteq> VIO_DATA) \<and>
      x_data x + (\<Sum>v\<leftarrow>vector. unat (vio_length v)) \<le> vio_wrap (x_v x)) \<and>
    (\<not> fst (xdrmem_allochdrs x start vector) \<longrightarrow> snd (snd (xdrmem_allochdrs x start vector)) = x)"
  using assms allochdrs_loop_status [of x "x_data x" "[]" vector]
    allochdrs_loop_failed [of "x_data x" False x "[]" vector]
  by (simp add: xdrmem_allochdrs_def)

theorem xdrmem_allochdrs_rejects_data_witness:
  "\<not> fst (xdrmem_allochdrs (xdr_demo 8 XDR_ENCODE) 0 [x_v xdr_blank])"
proof -
  have "x_data (xdr_demo 8 XDR_ENCODE) \<le> vio_wrap (x_v (xdr_demo 8 XDR_ENCODE))"
    by (simp add: xdr_demo_def xdrmem_ncreate_def xdr_blank_def)
  from xdrmem_allochdrs_rejects_data [OF this, of 0 "[x_v xdr_blank]"] show ?thesis
    by (simp add: xdr_blank_def)
qed

text \<open>C8: A position that \<^verbatim>\<open>xdrmem_getpos\<close> reports can be restored: after any calls that stay on the
  buffer, \<^verbatim>\<open>xdrmem_setpos\<close> to it succeeds and puts \<^verbatim>\<open>x_data\<close> back where it was; a position past the
  end of the buffer is refused and does not move the stream.\<close>

theorem xdrmem_setpos_getpos:
  assumes "mem_ok x" "vio_wrap (x_v x) - vio_head (x_v x) < 2 ^ 32"
  shows "(\<exists>y. xdrmem_setpos (fold mem_call cs (snd (xdrmem_getpos x))) (fst (xdrmem_getpos x)) = (True, y) \<and>
      x_data y = x_data x) \<and>
    (vio_wrap (x_v x) - vio_head (x_v x) < unat p \<longrightarrow>
      fst (xdrmem_setpos x p) = False \<and> x_data (snd (xdrmem_setpos x p)) = x_data x)"
proof -
  let ?x = "xdr_tail_update x"
  let ?y = "fold mem_call cs ?x"
  have ok: "mem_ok ?x" using mem_within_tail [OF assms(1)] by (simp add: mem_within_def)
  have "mem_within ?x ?y"
    using ok by (rule mem_within_fold)
  then have y: "vio_head (x_v ?y) = vio_head (x_v x)" "vio_wrap (x_v ?y) = vio_wrap (x_v x)"
    by (simp_all add: mem_within_def)
  have d: "vio_head (x_v x) \<le> x_data x" "x_data x \<le> vio_wrap (x_v x)"
    using assms(1) by (simp_all add: mem_ok_def)
  then have "unat (of_nat (x_data x) - of_nat (vio_head (x_v x)) :: u32) = x_data x - vio_head (x_v x)"
    using assms(2) by (intro unat_of_nat_diff) auto
  with y d show ?thesis
    by (auto simp: xdrmem_setpos_def xdrmem_getpos_def Let_def)
qed

theorem xdrmem_setpos_getpos_witness:
  "\<exists>y. xdrmem_setpos (fold mem_call [Call_putuint32 7, Call_setpos 1] (snd (xdrmem_getpos (xdr_demo 8 XDR_ENCODE))))
     (fst (xdrmem_getpos (xdr_demo 8 XDR_ENCODE))) = (True, y) \<and> x_data y = 64"
proof -
  have "mem_ok (xdr_demo 8 XDR_ENCODE)"
      "vio_wrap (x_v (xdr_demo 8 XDR_ENCODE)) - vio_head (x_v (xdr_demo 8 XDR_ENCODE)) < 2 ^ 32"
      "x_data (xdr_demo 8 XDR_ENCODE) = 64"
    by (simp_all add: xdr_demo_def xdrmem_ncreate_def xdr_blank_def mem_ok_def)
  with xdrmem_setpos_getpos [of "xdr_demo 8 XDR_ENCODE" "[Call_putuint32 7, Call_setpos 1]"]
  show ?thesis by auto
qed

end
