(* ===== verification/Xdr_Scalar.thy ===== *)
theory Xdr_Scalar
  imports Xdr_Mem
begin

text \<open>
  The filters for integers, booleans and enumerations of \<^verbatim>\<open>ntirpc/rpc/xdr_inline.h\<close> and their
  out-of-line versions in \<^verbatim>\<open>src/xdr.c\<close>.  Signed C integers are words read by \<open>sint\<close>; \<^verbatim>\<open>long\<close> has 64
  bits.  The lemmas in the two locale contexts give the bytes each filter writes and reads on any
  stream that keeps the contracts.
\<close>

section \<open>Filters\<close>

text \<open>The result of a filter that encodes: the status and stream of the putter, the object as it was.\<close>

definition keep :: "'v \<Rightarrow> bool \<times> 'x \<Rightarrow> bool \<times> 'v \<times> 'x" where
  "keep v r = (fst r, v, snd r)"

lemma keep_simp [simp]: "keep v (b, x) = (b, v, x)"
  by (simp add: keep_def)

definition inline_xdr_int :: "'a ops \<Rightarrow> ('a rpc_xdr_scheme, u32) xdrproc" where
  "inline_xdr_int ops xdrs p =
     (case x_op xdrs of
        XDR_ENCODE \<Rightarrow> keep p (xdr_putlong ops xdrs (scast p))
      | XDR_DECODE \<Rightarrow> (case xdr_getlong ops xdrs 0 of
            (False, l, xdrs) \<Rightarrow> (False, p, xdrs)
          | (True, l, xdrs) \<Rightarrow> (True, ucast l, xdrs))
      | XDR_FREE \<Rightarrow> (True, p, xdrs))"

definition inline_xdr_u_int :: "'a ops \<Rightarrow> ('a rpc_xdr_scheme, u32) xdrproc" where
  "inline_xdr_u_int ops xdrs p =
     (case x_op xdrs of
        XDR_ENCODE \<Rightarrow> keep p (xdr_putlong ops xdrs (ucast p))
      | XDR_DECODE \<Rightarrow> (case xdr_getlong ops xdrs 0 of
            (False, l, xdrs) \<Rightarrow> (False, p, xdrs)
          | (True, l, xdrs) \<Rightarrow> (True, ucast l, xdrs))
      | XDR_FREE \<Rightarrow> (True, p, xdrs))"

definition inline_xdr_long :: "'a ops \<Rightarrow> ('a rpc_xdr_scheme, u64) xdrproc" where
  "inline_xdr_long ops xdrs p =
     (case x_op xdrs of
        XDR_ENCODE \<Rightarrow> keep p (xdr_putlong ops xdrs p)
      | XDR_DECODE \<Rightarrow> xdr_getlong ops xdrs p
      | XDR_FREE \<Rightarrow> (True, p, xdrs))"

definition inline_xdr_u_long :: "'a ops \<Rightarrow> ('a rpc_xdr_scheme, u64) xdrproc" where
  "inline_xdr_u_long ops xdrs p =
     (case x_op xdrs of
        XDR_ENCODE \<Rightarrow> keep p (xdr_putlong ops xdrs p)
      | XDR_DECODE \<Rightarrow> xdr_getlong ops xdrs p
      | XDR_FREE \<Rightarrow> (True, p, xdrs))"

definition xdr_uint64_t :: "'a ops \<Rightarrow> ('a rpc_xdr_scheme, u64) xdrproc" where
  "xdr_uint64_t ops xdrs p =
     (case x_op xdrs of
        XDR_ENCODE \<Rightarrow>
          (let u0 = ucast (drop_bit 32 p) AND 0xffffffff; u1 = ucast p AND 0xffffffff in
           case xdr_putuint32 ops xdrs u0 of
             (False, xdrs) \<Rightarrow> (False, p, xdrs)
           | (True, xdrs) \<Rightarrow> keep p (xdr_putuint32 ops xdrs u1))
      | XDR_DECODE \<Rightarrow>
          (case xdr_getuint32 ops xdrs 0 of
             (False, u0, xdrs) \<Rightarrow> (False, p, xdrs)
           | (True, u0, xdrs) \<Rightarrow>
               (case xdr_getuint32 ops xdrs 0 of
                  (False, u1, xdrs) \<Rightarrow> (False, p, xdrs)
                | (True, u1, xdrs) \<Rightarrow> (True, push_bit 32 (ucast u0) OR ucast u1, xdrs)))
      | XDR_FREE \<Rightarrow> (True, p, xdrs))"

definition xdr_u_int64_t :: "'a ops \<Rightarrow> ('a rpc_xdr_scheme, u64) xdrproc" where
  "xdr_u_int64_t ops xdrs p = xdr_uint64_t ops xdrs p"

definition xdr_int64_t :: "'a ops \<Rightarrow> ('a rpc_xdr_scheme, u64) xdrproc" where
  "xdr_int64_t ops xdrs p = xdr_uint64_t ops xdrs p"

definition xdr_int32_t :: "'a ops \<Rightarrow> ('a rpc_xdr_scheme, u32) xdrproc" where
  "xdr_int32_t ops xdrs p =
     (case x_op xdrs of
        XDR_ENCODE \<Rightarrow> keep p (xdr_putint32 ops xdrs p)
      | XDR_DECODE \<Rightarrow> xdr_getint32 ops xdrs p
      | XDR_FREE \<Rightarrow> (True, p, xdrs))"

definition xdr_uint32_t :: "'a ops \<Rightarrow> ('a rpc_xdr_scheme, u32) xdrproc" where
  "xdr_uint32_t ops xdrs p =
     (case x_op xdrs of
        XDR_ENCODE \<Rightarrow> keep p (xdr_putuint32 ops xdrs p)
      | XDR_DECODE \<Rightarrow> xdr_getuint32 ops xdrs p
      | XDR_FREE \<Rightarrow> (True, p, xdrs))"

definition xdr_u_int32_t :: "'a ops \<Rightarrow> ('a rpc_xdr_scheme, u32) xdrproc" where
  "xdr_u_int32_t ops xdrs p = xdr_uint32_t ops xdrs p"

definition xdr_rpcprog :: "'a ops \<Rightarrow> ('a rpc_xdr_scheme, u32) xdrproc" where
  "xdr_rpcprog ops xdrs p = xdr_uint32_t ops xdrs p"

definition xdr_rpcvers :: "'a ops \<Rightarrow> ('a rpc_xdr_scheme, u32) xdrproc" where
  "xdr_rpcvers ops xdrs p = xdr_uint32_t ops xdrs p"

definition xdr_rpcproc :: "'a ops \<Rightarrow> ('a rpc_xdr_scheme, u32) xdrproc" where
  "xdr_rpcproc ops xdrs p = xdr_uint32_t ops xdrs p"

definition xdr_rpcprot :: "'a ops \<Rightarrow> ('a rpc_xdr_scheme, u32) xdrproc" where
  "xdr_rpcprot ops xdrs p = xdr_uint32_t ops xdrs p"

definition xdr_rpcport :: "'a ops \<Rightarrow> ('a rpc_xdr_scheme, u32) xdrproc" where
  "xdr_rpcport ops xdrs p = xdr_uint32_t ops xdrs p"

definition xdr_int16_t :: "'a ops \<Rightarrow> ('a rpc_xdr_scheme, u16) xdrproc" where
  "xdr_int16_t ops xdrs p =
     (case x_op xdrs of
        XDR_ENCODE \<Rightarrow> keep p (xdr_putint16 ops xdrs (scast p))
      | XDR_DECODE \<Rightarrow> xdr_getint16 ops xdrs p
      | XDR_FREE \<Rightarrow> (True, p, xdrs))"

definition xdr_uint16_t :: "'a ops \<Rightarrow> ('a rpc_xdr_scheme, u16) xdrproc" where
  "xdr_uint16_t ops xdrs p =
     (case x_op xdrs of
        XDR_ENCODE \<Rightarrow> keep p (xdr_putuint16 ops xdrs (ucast p))
      | XDR_DECODE \<Rightarrow> xdr_getuint16 ops xdrs p
      | XDR_FREE \<Rightarrow> (True, p, xdrs))"

definition xdr_u_int16_t :: "'a ops \<Rightarrow> ('a rpc_xdr_scheme, u16) xdrproc" where
  "xdr_u_int16_t ops xdrs p = xdr_uint16_t ops xdrs p"

definition xdr_int8_t :: "'a ops \<Rightarrow> ('a rpc_xdr_scheme, u8) xdrproc" where
  "xdr_int8_t ops xdrs p =
     (case x_op xdrs of
        XDR_ENCODE \<Rightarrow> keep p (xdr_putint8 ops xdrs (scast p))
      | XDR_DECODE \<Rightarrow> xdr_getint8 ops xdrs p
      | XDR_FREE \<Rightarrow> (True, p, xdrs))"

definition xdr_uint8_t :: "'a ops \<Rightarrow> ('a rpc_xdr_scheme, u8) xdrproc" where
  "xdr_uint8_t ops xdrs p =
     (case x_op xdrs of
        XDR_ENCODE \<Rightarrow> keep p (xdr_putuint8 ops xdrs (ucast p))
      | XDR_DECODE \<Rightarrow> xdr_getuint8 ops xdrs p
      | XDR_FREE \<Rightarrow> (True, p, xdrs))"

definition xdr_u_int8_t :: "'a ops \<Rightarrow> ('a rpc_xdr_scheme, u8) xdrproc" where
  "xdr_u_int8_t ops xdrs p = xdr_uint8_t ops xdrs p"

definition xdr_bool :: "'a ops \<Rightarrow> ('a rpc_xdr_scheme, u32) xdrproc" where
  "xdr_bool ops xdrs p =
     (case x_op xdrs of
        XDR_ENCODE \<Rightarrow> keep p (xdr_putbool ops xdrs p)
      | XDR_DECODE \<Rightarrow> xdr_getbool ops xdrs p
      | XDR_FREE \<Rightarrow> (True, p, xdrs))"

definition xdr_enum :: "'a ops \<Rightarrow> ('a rpc_xdr_scheme, u32) xdrproc" where
  "xdr_enum ops xdrs p =
     (case x_op xdrs of
        XDR_ENCODE \<Rightarrow> keep p (xdr_putenum ops xdrs p)
      | XDR_DECODE \<Rightarrow> xdr_getenum ops xdrs p
      | XDR_FREE \<Rightarrow> (True, p, xdrs))"

text \<open>The out-of-line versions of \<^verbatim>\<open>src/xdr.c\<close>.\<close>

definition xdr_void :: "'x \<Rightarrow> 'v \<Rightarrow> bool \<times> 'v \<times> 'x" where
  "xdr_void xdrs unused = (True, unused, xdrs)"

definition xdr_int :: "'a ops \<Rightarrow> ('a rpc_xdr_scheme, u32) xdrproc" where
  "xdr_int ops xdrs p =
     (case x_op xdrs of
        XDR_ENCODE \<Rightarrow> keep p (xdr_putlong ops xdrs (scast p))
      | XDR_DECODE \<Rightarrow> (case xdr_getlong ops xdrs 0 of
            (False, l, xdrs) \<Rightarrow> (False, p, xdrs)
          | (True, l, xdrs) \<Rightarrow> (True, ucast l, xdrs))
      | XDR_FREE \<Rightarrow> (True, p, xdrs))"

definition xdr_u_int :: "'a ops \<Rightarrow> ('a rpc_xdr_scheme, u32) xdrproc" where
  "xdr_u_int ops xdrs p =
     (case x_op xdrs of
        XDR_ENCODE \<Rightarrow> keep p (xdr_putlong ops xdrs (ucast p))
      | XDR_DECODE \<Rightarrow> (case xdr_getlong ops xdrs 0 of
            (False, l, xdrs) \<Rightarrow> (False, p, xdrs)
          | (True, l, xdrs) \<Rightarrow> (True, ucast l, xdrs))
      | XDR_FREE \<Rightarrow> (True, p, xdrs))"

definition xdr_long :: "'a ops \<Rightarrow> ('a rpc_xdr_scheme, u64) xdrproc" where
  "xdr_long ops xdrs p =
     (case x_op xdrs of
        XDR_ENCODE \<Rightarrow> keep p (xdr_putlong ops xdrs p)
      | XDR_DECODE \<Rightarrow> xdr_getlong ops xdrs p
      | XDR_FREE \<Rightarrow> (True, p, xdrs))"

definition xdr_u_long :: "'a ops \<Rightarrow> ('a rpc_xdr_scheme, u64) xdrproc" where
  "xdr_u_long ops xdrs p =
     (case x_op xdrs of
        XDR_ENCODE \<Rightarrow> keep p (xdr_putlong ops xdrs p)
      | XDR_DECODE \<Rightarrow> xdr_getlong ops xdrs p
      | XDR_FREE \<Rightarrow> (True, p, xdrs))"

definition xdr_longlong_t :: "'a ops \<Rightarrow> ('a rpc_xdr_scheme, u64) xdrproc" where
  "xdr_longlong_t ops xdrs p = xdr_int64_t ops xdrs p"

definition xdr_u_longlong_t :: "'a ops \<Rightarrow> ('a rpc_xdr_scheme, u64) xdrproc" where
  "xdr_u_longlong_t ops xdrs p = xdr_u_int64_t ops xdrs p"

definition inline_xdr_longlong_t :: "'a ops \<Rightarrow> ('a rpc_xdr_scheme, u64) xdrproc" where
  "inline_xdr_longlong_t ops xdrs p = xdr_int64_t ops xdrs p"

definition inline_xdr_u_longlong_t :: "'a ops \<Rightarrow> ('a rpc_xdr_scheme, u64) xdrproc" where
  "inline_xdr_u_longlong_t ops xdrs p = xdr_u_int64_t ops xdrs p"

lemmas xdr_scalar_aliases = xdr_u_int64_t_def xdr_int64_t_def xdr_u_int32_t_def xdr_rpcprog_def
  xdr_rpcvers_def xdr_rpcproc_def xdr_rpcprot_def xdr_rpcport_def xdr_u_int16_t_def
  xdr_u_int8_t_def xdr_longlong_t_def xdr_u_longlong_t_def inline_xdr_longlong_t_def
  inline_xdr_u_longlong_t_def

section \<open>Filters as readings of one unit\<close>

lemma ucast_scast_u64 [simp]: "ucast (scast (u :: u32) :: u64) = u"
  by (rule bit_word_eqI) (simp add: bit_simps)

lemma ucast_ucast_u64 [simp]: "ucast (ucast (u :: u32) :: u64) = u"
  by (rule bit_word_eqI) (auto simp: bit_simps)

lemma ucast_scast_u16 [simp]: "ucast (scast (u :: u16) :: u32) = u"
  by (rule bit_word_eqI) (simp add: bit_simps)

lemma ucast_ucast_u16 [simp]: "ucast (ucast (u :: u16) :: u32) = u"
  by (rule bit_word_eqI) (auto simp: bit_simps)

lemma ucast_scast_u8 [simp]: "ucast (scast (u :: u8) :: u32) = u"
  by (rule bit_word_eqI) (simp add: bit_simps)

lemma ucast_ucast_u8 [simp]: "ucast (ucast (u :: u8) :: u32) = u"
  by (rule bit_word_eqI) (auto simp: bit_simps)

lemma u64_halves: "push_bit 32 (ucast (ucast (drop_bit 32 p) :: u32)) OR ucast (ucast p :: u32) = (p :: u64)"
  by (rule bit_word_eqI) (auto simp: bit_simps)

lemma ucast_u32_u64_iff: "ucast (ucast v :: u32) = v \<longleftrightarrow> v < (0x100000000 :: u64)"
proof -
  have "unat (ucast (ucast v :: u32) :: u64) = unat v mod 2 ^ 32"
    by (simp only: unat_ucast_u64) (simp add: unsigned_ucast_eq take_bit_eq_mod)
  then have "ucast (ucast v :: u32) = v \<longleftrightarrow> unat v mod 2 ^ 32 = unat v"
    by (metis word_unat_eq_iff)
  also have "\<dots> \<longleftrightarrow> unat v < 2 ^ 32"
    by (metis mod_less mod_less_divisor zero_less_numeral zero_less_power)
  finally show ?thesis by (simp add: word_less_nat_alt)
qed

text \<open>Every primitive getter and putter is the 32-bit one followed or preceded by a conversion.\<close>

lemma xdr_getuint16_eq:
  "xdr_getuint16 ops x ip = (case xdr_getuint32 ops x 0 of (b, u, x) \<Rightarrow> (b, if b then ucast u else ip, x))"
  by (simp add: xdr_getuint16_def xdr_getuint32_def)

lemma xdr_getuint8_eq:
  "xdr_getuint8 ops x ip = (case xdr_getuint32 ops x 0 of (b, u, x) \<Rightarrow> (b, if b then ucast u else ip, x))"
  by (simp add: xdr_getuint8_def xdr_getuint32_def)

lemma xdr_put_eqs:
  "xdr_putuint16 ops x u = xdr_putuint32 ops x u"
  "xdr_putuint8 ops x u = xdr_putuint32 ops x u"
  "xdr_putlong ops x l = xdr_putuint32 ops x (ucast l)"
  by (simp_all add: xdr_putuint16_def xdr_putuint8_def xdr_putlong_def xdr_putuint32_def)

lemma xdr_getlong_u32:
  "(case xdr_getlong ops x l0 of (False, l, x') \<Rightarrow> (False, p, x') | (True, l, x') \<Rightarrow> (True, ucast l :: u32, x')) =
   (case xdr_getuint32 ops x 0 of (False, u, x') \<Rightarrow> (False, p, x') | (True, u, x') \<Rightarrow> (True, u, x'))"
  by (auto simp: xdr_getlong_def xdr_getuint32_def split: prod.split bool.split)

lemmas xdr_unit_eqs = xdr_getuint16_eq xdr_getuint8_eq xdr_put_eqs xdr_getlong_u32
  xdr_getint32_def xdr_putint32_def xdr_getint16_def xdr_putint16_def xdr_getint8_def
  xdr_putint8_def xdr_getenum_def xdr_putenum_def xdr_getbool_def xdr_putbool_def

context xdr_reader
begin

lemma decodes_unit:
  assumes "\<And>x x'. x_op x = XDR_DECODE \<Longrightarrow> xdr_getuint32 ops x ip = (True, u, x') \<Longrightarrow> f x = (True, v, x')"
  shows "decodes f (be32 u) v"
  by (rule decodes_map [OF decodes_getuint32 [of ip]]) (simp add: assms ready_def)

lemma decodes_uint32_t: "decodes (\<lambda>x. xdr_uint32_t ops x ip) (be32 v) v"
  by (rule decodes_unit [of ip]) (simp add: xdr_uint32_t_def)

lemma decodes_int32_t: "decodes (\<lambda>x. xdr_int32_t ops x ip) (be32 v) v"
  by (rule decodes_unit [of ip]) (simp add: xdr_int32_t_def xdr_getint32_def)

lemma decodes_enum: "decodes (\<lambda>x. xdr_enum ops x ip) (be32 v) v"
  by (rule decodes_unit [of ip]) (simp add: xdr_enum_def xdr_unit_eqs)

lemma decodes_getenum: "decodes (\<lambda>x. xdr_getenum ops x ip) (be32 v) v"
  by (rule decodes_unit [of ip]) (simp add: xdr_unit_eqs)

lemma decodes_u_int: "decodes (\<lambda>x. xdr_u_int ops x ip) (be32 v) v"
  by (rule decodes_unit [of 0]) (simp add: xdr_u_int_def xdr_getlong_u32)

lemma decodes_int: "decodes (\<lambda>x. xdr_int ops x ip) (be32 v) v"
  by (rule decodes_unit [of 0]) (simp add: xdr_int_def xdr_getlong_u32)

lemma decodes_inline_u_int: "decodes (\<lambda>x. inline_xdr_u_int ops x ip) (be32 v) v"
  by (rule decodes_unit [of 0]) (simp add: inline_xdr_u_int_def xdr_getlong_u32)

lemma decodes_inline_int: "decodes (\<lambda>x. inline_xdr_int ops x ip) (be32 v) v"
  by (rule decodes_unit [of 0]) (simp add: inline_xdr_int_def xdr_getlong_u32)

lemma decodes_bool: "decodes (\<lambda>x. xdr_bool ops x ip) (be32 v) (if v \<noteq> 0 then 1 else 0)"
  by (rule decodes_unit [of 0]) (simp add: xdr_bool_def xdr_unit_eqs)

lemma decodes_uint16_t: "decodes (\<lambda>x. xdr_uint16_t ops x ip) (be32 v) (ucast v)"
  by (rule decodes_unit [of 0]) (simp add: xdr_uint16_t_def xdr_unit_eqs)

lemma decodes_int16_t: "decodes (\<lambda>x. xdr_int16_t ops x ip) (be32 v) (ucast v)"
  by (rule decodes_unit [of 0]) (simp add: xdr_int16_t_def xdr_unit_eqs)

lemma decodes_uint8_t: "decodes (\<lambda>x. xdr_uint8_t ops x ip) (be32 v) (ucast v)"
  by (rule decodes_unit [of 0]) (simp add: xdr_uint8_t_def xdr_unit_eqs)

lemma decodes_int8_t: "decodes (\<lambda>x. xdr_int8_t ops x ip) (be32 v) (ucast v)"
  by (rule decodes_unit [of 0]) (simp add: xdr_int8_t_def xdr_unit_eqs)

lemma decodes_uint64_t:
  "decodes (\<lambda>x. xdr_uint64_t ops x ip) (be32 u0 @ be32 u1) (push_bit 32 (ucast u0) OR ucast u1)"
proof (rule decodesI)
  fix x rest assume x: "ready x" "rd x = (be32 u0 @ be32 u1) @ rest"
  then obtain x1 where x1: "xdr_getuint32 ops x 0 = (True, u0, x1)" "ready x1" "rd x1 = be32 u1 @ rest"
    using decodesE [OF decodes_getuint32 [of 0 u0], of x "be32 u1 @ rest"] by auto
  then obtain x2 where "xdr_getuint32 ops x1 0 = (True, u1, x2)" "ready x2" "rd x2 = rest"
    using decodesE [OF decodes_getuint32 [of 0 u1], of x1 rest] by auto
  with x x1 show "\<exists>x'. xdr_uint64_t ops x ip = (True, push_bit 32 (ucast u0) OR ucast u1, x') \<and>
      ready x' \<and> rd x' = rest"
    by (simp add: xdr_uint64_t_def ready_def)
qed

end

text \<open>
  What the filters of 64-bit words put on the wire: the two halves, the upper one first.
\<close>

definition be64 :: "u64 \<Rightarrow> bytes" where
  "be64 p = be32 (ucast (drop_bit 32 p)) @ be32 (ucast p)"

lemma length_be64 [simp]: "length (be64 p) = 8"
  by (simp add: be64_def)

context xdr_writer
begin

lemma encodes_unit:
  assumes "\<And>x x'. x_op x = XDR_ENCODE \<Longrightarrow> xdr_putuint32 ops x u = (True, x') \<Longrightarrow> f x = (True, v, x')"
  shows "encodes f (be32 u) v"
  by (rule encodes_emits [OF emits_putuint32]) (simp add: assms writable_def)

lemma encodes_uint32_t: "encodes (\<lambda>x. xdr_uint32_t ops x v) (be32 v) v"
  by (rule encodes_unit) (simp add: xdr_uint32_t_def)

lemma encodes_int32_t: "encodes (\<lambda>x. xdr_int32_t ops x v) (be32 v) v"
  by (rule encodes_unit) (simp add: xdr_int32_t_def xdr_unit_eqs)

lemma encodes_enum: "encodes (\<lambda>x. xdr_enum ops x v) (be32 v) v"
  by (rule encodes_unit) (simp add: xdr_enum_def xdr_unit_eqs)

lemma emits_putenum: "emits (\<lambda>x. xdr_putenum ops x v) (be32 v)"
  using emits_putuint32 by (simp add: xdr_unit_eqs)

lemma encodes_u_int: "encodes (\<lambda>x. xdr_u_int ops x v) (be32 v) v"
  by (rule encodes_unit) (simp add: xdr_u_int_def xdr_unit_eqs)

lemma encodes_int: "encodes (\<lambda>x. xdr_int ops x v) (be32 v) v"
  by (rule encodes_unit) (simp add: xdr_int_def xdr_unit_eqs)

lemma encodes_inline_u_int: "encodes (\<lambda>x. inline_xdr_u_int ops x v) (be32 v) v"
  by (rule encodes_unit) (simp add: inline_xdr_u_int_def xdr_unit_eqs)

lemma encodes_inline_int: "encodes (\<lambda>x. inline_xdr_int ops x v) (be32 v) v"
  by (rule encodes_unit) (simp add: inline_xdr_int_def xdr_unit_eqs)

lemma encodes_bool: "encodes (\<lambda>x. xdr_bool ops x v) (be32 (if v \<noteq> 0 then 1 else 0)) v"
  by (rule encodes_unit) (simp add: xdr_bool_def xdr_unit_eqs)

lemma encodes_uint16_t: "encodes (\<lambda>x. xdr_uint16_t ops x v) (be32 (ucast v)) v"
  by (rule encodes_unit) (simp add: xdr_uint16_t_def xdr_unit_eqs)

lemma encodes_int16_t: "encodes (\<lambda>x. xdr_int16_t ops x v) (be32 (ucast v)) v"
  by (rule encodes_unit) (simp add: xdr_int16_t_def xdr_unit_eqs)

lemma encodes_uint8_t: "encodes (\<lambda>x. xdr_uint8_t ops x v) (be32 (ucast v)) v"
  by (rule encodes_unit) (simp add: xdr_uint8_t_def xdr_unit_eqs)

lemma encodes_int8_t: "encodes (\<lambda>x. xdr_int8_t ops x v) (be32 (ucast v)) v"
  by (rule encodes_unit) (simp add: xdr_int8_t_def xdr_unit_eqs)

lemma encodes_long: "encodes (\<lambda>x. xdr_long ops x v) (be32 (ucast v)) v"
  by (rule encodes_unit) (simp add: xdr_long_def xdr_unit_eqs)

lemma encodes_uint64_t: "encodes (\<lambda>x. xdr_uint64_t ops x v) (be64 v) v"
proof -
  have "(0xffffffff :: u32) = - 1" by simp
  then have m: "u AND 0xffffffff = u" for u :: u32 by (simp only: and.right_neutral)
  have "emits (\<lambda>x. case xdr_putuint32 ops x (ucast (drop_bit 32 v)) of
      (False, x) \<Rightarrow> (False, x) | (True, x) \<Rightarrow> xdr_putuint32 ops x (ucast v)) (be64 v)"
    unfolding be64_def by (rule emits_bind [OF emits_putuint32 emits_putuint32]) simp
  then show ?thesis
    by (rule encodes_emits) (auto simp: xdr_uint64_t_def writable_def m split: prod.splits bool.splits)
qed

end

section \<open>Round trips\<close>

text \<open>
  A \<^verbatim>\<open>long\<close> is written as its low 32 bits, and what comes back depends on the path that reads it:
  the fast path on the buffer zero-extends, the call through \<^verbatim>\<open>x_getunit\<close> sign-extends.
\<close>

lemma mem_decodes_long: "mem_r.decodes (\<lambda>x. xdr_long xdrmem_ops_aligned x ip) (be32 u) (ucast u)"
proof (rule mem_r.decodesI)
  fix x rest assume x: "mem_r.ready x" and r: "mem_rd x = be32 u @ rest"
  have fast: "x_data x + 4 \<le> vio_tail (x_v x)"
    using arg_cong [OF r, of length] by (simp add: mem_rd_def)
  from x r obtain x' where x': "xdr_getuint32 xdrmem_ops_aligned x 0 = (True, u, x')" "mem_r.ready x'"
      "mem_rd x' = rest"
    by (rule mem_r.decodesE [OF mem_r.decodes_getuint32])
  with fast x show "\<exists>x'. xdr_long xdrmem_ops_aligned x ip = (True, ucast u, x') \<and> mem_r.ready x' \<and>
      mem_rd x' = rest"
    by (auto simp: xdr_long_def xdr_getlong_def xdr_getuint32_def mem_r.ready_def)
qed

text \<open>
  C9: Every 64-bit, 32-bit, 16-bit and 8-bit integer, signed or unsigned, written to a memory stream
  by its filter and read back from the start of the same buffer comes back as it was, whatever the
  object held before; a boolean comes back as \<^verbatim>\<open>TRUE\<close> or \<^verbatim>\<open>FALSE\<close>.
\<close>

theorem xdr_integers_roundtrip:
  fixes v64 w64 :: u64 and v32 w32 :: u32 and v16 w16 :: u16 and v8 w8 :: u8
  assumes "a \<noteq> NULL" "a mod 4 = 0" "8 \<le> unat sz"
  shows "mem_roundtrip a sz (xdr_int64_t xdrmem_ops_aligned) v64 w64 xdrs = Some v64 \<and>
    mem_roundtrip a sz (xdr_uint64_t xdrmem_ops_aligned) v64 w64 xdrs = Some v64 \<and>
    mem_roundtrip a sz (xdr_int xdrmem_ops_aligned) v32 w32 xdrs = Some v32 \<and>
    mem_roundtrip a sz (xdr_u_int xdrmem_ops_aligned) v32 w32 xdrs = Some v32 \<and>
    mem_roundtrip a sz (xdr_int32_t xdrmem_ops_aligned) v32 w32 xdrs = Some v32 \<and>
    mem_roundtrip a sz (xdr_uint32_t xdrmem_ops_aligned) v32 w32 xdrs = Some v32 \<and>
    mem_roundtrip a sz (xdr_enum xdrmem_ops_aligned) v32 w32 xdrs = Some v32 \<and>
    mem_roundtrip a sz (xdr_int16_t xdrmem_ops_aligned) v16 w16 xdrs = Some v16 \<and>
    mem_roundtrip a sz (xdr_uint16_t xdrmem_ops_aligned) v16 w16 xdrs = Some v16 \<and>
    mem_roundtrip a sz (xdr_int8_t xdrmem_ops_aligned) v8 w8 xdrs = Some v8 \<and>
    mem_roundtrip a sz (xdr_uint8_t xdrmem_ops_aligned) v8 w8 xdrs = Some v8 \<and>
    mem_roundtrip a sz (xdr_bool xdrmem_ops_aligned) v32 w32 xdrs = Some (if v32 \<noteq> 0 then 1 else 0)"
proof -
  note rt = mem_roundtrip_ok [OF _ _ assms(1,2)]
  have len: "4 \<le> unat sz" using assms(3) by simp
  have d64: "mem_r.decodes (\<lambda>x. xdr_uint64_t xdrmem_ops_aligned x w64) (be64 v64) v64"
    using mem_r.decodes_uint64_t [of w64 "ucast (drop_bit 32 v64)" "ucast v64"]
    by (simp only: be64_def u64_halves)
  have u64: "mem_roundtrip a sz (xdr_uint64_t xdrmem_ops_aligned) v64 w64 xdrs = Some v64"
    by (rule rt [OF mem_w.encodes_uint64_t d64]) (simp add: assms)
  then have "mem_roundtrip a sz (xdr_int64_t xdrmem_ops_aligned) v64 w64 xdrs = Some v64"
    by (simp add: xdr_int64_t_def mem_roundtrip_def)
  with u64 show ?thesis
    by (simp add: rt [OF mem_w.encodes_int mem_r.decodes_int]
    rt [OF mem_w.encodes_u_int mem_r.decodes_u_int] rt [OF mem_w.encodes_int32_t mem_r.decodes_int32_t]
    rt [OF mem_w.encodes_uint32_t mem_r.decodes_uint32_t] rt [OF mem_w.encodes_enum mem_r.decodes_enum]
    rt [OF mem_w.encodes_int16_t mem_r.decodes_int16_t] rt [OF mem_w.encodes_uint16_t mem_r.decodes_uint16_t]
    rt [OF mem_w.encodes_int8_t mem_r.decodes_int8_t] rt [OF mem_w.encodes_uint8_t mem_r.decodes_uint8_t]
    rt [OF mem_w.encodes_bool mem_r.decodes_bool] len)
qed

theorem xdr_integers_roundtrip_witness:
  "mem_roundtrip 8 16 (xdr_int16_t xdrmem_ops_aligned) (- 2) 0 xdr_blank = Some (- 2)"
  using xdr_integers_roundtrip [of 8 16 0 0 xdr_blank 0 0 "- 2" 0 0 0] by simp

text \<open>
  C10: A \<^verbatim>\<open>long\<close> written to a memory stream by \<^verbatim>\<open>xdr_long\<close> and read back comes back as it was exactly when
  it is between 0 and the largest 32-bit unsigned number: every negative \<^verbatim>\<open>long\<close>, also one that fits
  in 32 bits, comes back as a positive one, because the fast path of \<^verbatim>\<open>xdr_getlong\<close> does not extend
  the sign.
\<close>

theorem xdr_long_roundtrip_iff:
  assumes "a \<noteq> NULL" "a mod 4 = 0" "4 \<le> unat sz"
  shows "mem_roundtrip a sz (xdr_long xdrmem_ops_aligned) v w xdrs = Some v \<longleftrightarrow> v < 0x100000000"
proof -
  have "mem_roundtrip a sz (xdr_long xdrmem_ops_aligned) v w xdrs = Some (ucast (ucast v :: u32))"
    by (rule mem_roundtrip_ok [OF mem_w.encodes_long mem_decodes_long]) (simp_all add: assms)
  then show ?thesis by (simp add: ucast_u32_u64_iff)
qed

theorem xdr_long_roundtrip_iff_witness:
  "mem_roundtrip 8 16 (xdr_long xdrmem_ops_aligned) (- 1) 0 xdr_blank \<noteq> Some (- 1)"
  using xdr_long_roundtrip_iff [of 8 16 "- 1" 0 xdr_blank] by simp

end
