(* ===== verification/Xdr_Opaque.thy ===== *)
theory Xdr_Opaque
  imports Xdr_Scalar
begin

text \<open>
  The filters for opaque data, counted bytes and strings of \<^verbatim>\<open>ntirpc/rpc/xdr_inline.h\<close>, with the
  wrappers of \<^verbatim>\<open>src/xdr.c\<close>.  A block of bytes that the caller or the allocator provides is the list of
  its contents, and a pointer to such a block is \<open>None\<close> for \<^verbatim>\<open>NULL\<close>.  A filter that decodes into a
  block the caller provides relies on the caller for its size: bytes past the end of the list are
  appended to it.  Encoding reads the first \<^verbatim>\<open>size\<close> bytes of the block.  \<^verbatim>\<open>u_int\<close> has 32 bits, so the
  second test of \<^verbatim>\<open>xdr_bytes_encode\<close>, whether the size fits \<^verbatim>\<open>uint32_t\<close>, never fails.
\<close>

section \<open>Allocator\<close>

text \<open>
  \<^verbatim>\<open>mem_alloc\<close> never returns \<^verbatim>\<open>NULL\<close> (the hooks of \<^verbatim>\<open>tirpc_pkg_params\<close> abort instead) and the contents
  of a new block are arbitrary; \<^verbatim>\<open>mem_zalloc\<close> returns a block of zeros.  Both and \<^verbatim>\<open>mem_free\<close> are
  recorded in \<open>mlog\<close>; \<open>mem_live\<close> is the number of bytes allocated and not freed.
\<close>

definition mem_alloc :: "u32 \<Rightarrow> 'a rpc_xdr_scheme \<Rightarrow> bytes \<times> 'a rpc_xdr_scheme" where
  "mem_alloc n xdrs = (map (fresh xdrs) [0..<unat n], xdrs\<lparr>mlog := Mem_alloc (unat n) # mlog xdrs\<rparr>)"

definition mem_zalloc :: "u32 \<Rightarrow> 'a rpc_xdr_scheme \<Rightarrow> 'a rpc_xdr_scheme" where
  "mem_zalloc n xdrs = xdrs\<lparr>mlog := Mem_alloc (unat n) # mlog xdrs\<rparr>"

definition mem_free :: "nat \<Rightarrow> 'a rpc_xdr_scheme \<Rightarrow> 'a rpc_xdr_scheme" where
  "mem_free n xdrs = xdrs\<lparr>mlog := Mem_free n # mlog xdrs\<rparr>"

fun mem_live :: "mem_event list \<Rightarrow> int" where
  "mem_live [] = 0"
| "mem_live (Mem_alloc n # l) = mem_live l + int n"
| "mem_live (Mem_free n # l) = mem_live l - int n"

lemmas mem_alloc_defs = mem_alloc_def mem_zalloc_def mem_free_def

section \<open>Filters\<close>

definition xdr_opaque_decode ::
    "'a ops \<Rightarrow> 'a rpc_xdr_scheme \<Rightarrow> bytes \<Rightarrow> u32 \<Rightarrow> bool \<times> bytes \<times> 'a rpc_xdr_scheme" where
  "xdr_opaque_decode ops xdrs cp cnt =
     (if cnt = 0 then (True, cp, xdrs)
      else
        case x_getbytes ops xdrs cnt of
          (False, bs, xdrs) \<Rightarrow> (False, overlay bs cp, xdrs)
        | (True, bs, xdrs) \<Rightarrow>
            let cp = overlay bs cp; rndup = cnt AND (4 - 1) in
            if rndup > 0 then
              case x_getbytes ops xdrs (4 - rndup) of
                (False, crud, xdrs) \<Rightarrow> (False, cp, xdrs)
              | (True, crud, xdrs) \<Rightarrow> (True, cp, xdrs)
            else (True, cp, xdrs))"

definition xdr_opaque_encode ::
    "'a ops \<Rightarrow> 'a rpc_xdr_scheme \<Rightarrow> bytes \<Rightarrow> u32 \<Rightarrow> bool \<times> 'a rpc_xdr_scheme" where
  "xdr_opaque_encode ops xdrs cp cnt =
     (if cnt = 0 then (True, xdrs)
      else
        case x_putbytes ops xdrs (take (unat cnt) cp) of
          (False, xdrs) \<Rightarrow> (False, xdrs)
        | (True, xdrs) \<Rightarrow>
            let rndup = cnt AND (4 - 1) in
            if rndup > 0 then
              case x_putbytes ops xdrs (replicate (unat (4 - rndup)) 0) of
                (False, xdrs) \<Rightarrow> (False, xdrs)
              | (True, xdrs) \<Rightarrow> (True, xdrs)
            else (True, xdrs))"

definition xdr_opaque ::
    "'a ops \<Rightarrow> 'a rpc_xdr_scheme \<Rightarrow> bytes \<Rightarrow> u32 \<Rightarrow> bool \<times> bytes \<times> 'a rpc_xdr_scheme" where
  "xdr_opaque ops xdrs cp cnt =
     (case x_op xdrs of
        XDR_DECODE \<Rightarrow> xdr_opaque_decode ops xdrs cp cnt
      | XDR_ENCODE \<Rightarrow> keep cp (xdr_opaque_encode ops xdrs cp cnt)
      | XDR_FREE \<Rightarrow> (True, cp, xdrs))"

definition xdr_opaques ::
    "'a ops \<Rightarrow> u32 \<Rightarrow> ('a rpc_xdr_scheme, bytes \<times> u32) xdrproc" where
  "xdr_opaques ops maxsize xdrs = (\<lambda>(sp, sizep).
     case xdr_uint32_t ops xdrs sizep of
       (False, sizep, xdrs) \<Rightarrow> (False, (sp, sizep), xdrs)
     | (True, nodesize, xdrs) \<Rightarrow>
         if nodesize > maxsize \<and> x_op xdrs \<noteq> XDR_FREE then (False, (sp, nodesize), xdrs)
         else
           case x_op xdrs of
             XDR_DECODE \<Rightarrow>
               (case xdr_opaque_decode ops xdrs sp nodesize of
                  (b, sp, xdrs) \<Rightarrow> (b, (sp, nodesize), xdrs))
           | XDR_ENCODE \<Rightarrow> keep (sp, nodesize) (xdr_opaque_encode ops xdrs sp nodesize)
           | XDR_FREE \<Rightarrow> (True, (sp, nodesize), xdrs))"

definition xdr_bytes_decode ::
    "'a ops \<Rightarrow> u32 \<Rightarrow> ('a rpc_xdr_scheme, bytes option \<times> u32) xdrproc" where
  "xdr_bytes_decode ops maxsize xdrs = (\<lambda>(cpp, sizep).
     case xdr_getuint32 ops xdrs 0 of
       (False, sz, xdrs) \<Rightarrow> (False, (cpp, sizep), xdrs)
     | (True, sz, xdrs) \<Rightarrow>
         if sz > maxsize then (False, (cpp, sizep), xdrs)
         else if sz = 0 then (True, (cpp, sz), xdrs)
         else
           case (case cpp of None \<Rightarrow> mem_alloc sz xdrs | Some sp \<Rightarrow> (sp, xdrs)) of
             (sp, xdrs) \<Rightarrow>
               (case xdr_opaque_decode ops xdrs sp sz of
                  (False, sp, xdrs) \<Rightarrow>
                    if cpp = None then (False, (None, sz), mem_free (unat sz) xdrs)
                    else (False, (Some sp, sz), xdrs)
                | (True, sp, xdrs) \<Rightarrow> (True, (Some sp, sz), xdrs)))"

definition xdr_bytes_encode ::
    "'a ops \<Rightarrow> u32 \<Rightarrow> ('a rpc_xdr_scheme, bytes option \<times> u32) xdrproc" where
  "xdr_bytes_encode ops maxsize xdrs = (\<lambda>(cpp, sizep).
     if sizep > maxsize then (False, (cpp, sizep), xdrs)
     else
       case xdr_putuint32 ops xdrs sizep of
         (False, xdrs) \<Rightarrow> (False, (cpp, sizep), xdrs)
       | (True, xdrs) \<Rightarrow>
           keep (cpp, sizep)
             (xdr_opaque_encode ops xdrs (case cpp of None \<Rightarrow> [] | Some sp \<Rightarrow> sp) sizep))"

definition xdr_bytes_free ::
    "'a rpc_xdr_scheme \<Rightarrow> bytes option \<Rightarrow> u32 \<Rightarrow> bool \<times> bytes option \<times> 'a rpc_xdr_scheme" where
  "xdr_bytes_free xdrs cpp sz =
     (case cpp of
        Some sp \<Rightarrow> (True, None, mem_free (unat sz) xdrs)
      | None \<Rightarrow> (True, None, xdrs))"

definition xdr_bytes ::
    "'a ops \<Rightarrow> u32 \<Rightarrow> ('a rpc_xdr_scheme, bytes option \<times> u32) xdrproc" where
  "xdr_bytes ops maxsize xdrs p =
     (case x_op xdrs of
        XDR_DECODE \<Rightarrow> xdr_bytes_decode ops maxsize xdrs p
      | XDR_ENCODE \<Rightarrow> xdr_bytes_encode ops maxsize xdrs p
      | XDR_FREE \<Rightarrow>
          (case xdr_bytes_free xdrs (fst p) (snd p) of (b, cpp, xdrs) \<Rightarrow> (b, (cpp, snd p), xdrs)))"

text \<open>A string is a block that holds a terminator.\<close>

definition strlen :: "bytes \<Rightarrow> nat" where
  "strlen sp = length (takeWhile (\<lambda>c. c \<noteq> 0) sp)"

definition xdr_string_decode ::
    "'a ops \<Rightarrow> u32 \<Rightarrow> ('a rpc_xdr_scheme, bytes option) xdrproc" where
  "xdr_string_decode ops maxsize xdrs cpp =
     (case xdr_getuint32 ops xdrs 0 of
        (False, sz, xdrs) \<Rightarrow> (False, cpp, xdrs)
      | (True, sz, xdrs) \<Rightarrow>
          if sz > maxsize then (False, cpp, xdrs)
          else if sz = 0xFFFFFFFF then (False, cpp, xdrs)
          else
            let nodesize = sz + 1 in
            case (case cpp of None \<Rightarrow> mem_alloc nodesize xdrs | Some sp \<Rightarrow> (sp, xdrs)) of
              (sp, xdrs) \<Rightarrow>
                (case xdr_opaque_decode ops xdrs sp sz of
                   (False, sp, xdrs) \<Rightarrow>
                     (False, if cpp = None then None else Some sp, mem_free (unat nodesize) xdrs)
                 | (True, sp, xdrs) \<Rightarrow>
                     (True, Some (overlay (take (unat sz) sp @ [0]) sp), xdrs)))"

definition xdr_string_encode ::
    "'a ops \<Rightarrow> u32 \<Rightarrow> ('a rpc_xdr_scheme, bytes option) xdrproc" where
  "xdr_string_encode ops maxsize xdrs cpp =
     (case cpp of
        None \<Rightarrow> (False, cpp, xdrs)
      | Some sp \<Rightarrow>
          let sz = strlen sp in
          if sz > unat maxsize then (False, cpp, xdrs)
          else
            let nodesize = of_nat (sz + 1) :: u32 in
            if unat nodesize < sz + 1 then (False, cpp, xdrs)
            else
              case xdr_putuint32 ops xdrs (of_nat sz) of
                (False, xdrs) \<Rightarrow> (False, cpp, xdrs)
              | (True, xdrs) \<Rightarrow> keep cpp (xdr_opaque_encode ops xdrs sp (of_nat sz)))"

definition xdr_string_free ::
    "'a rpc_xdr_scheme \<Rightarrow> bytes option \<Rightarrow> bool \<times> bytes option \<times> 'a rpc_xdr_scheme" where
  "xdr_string_free xdrs cpp =
     (case cpp of
        Some sp \<Rightarrow> (True, None, mem_free (strlen sp + 1) xdrs)
      | None \<Rightarrow> (True, None, xdrs))"

definition xdr_string ::
    "'a ops \<Rightarrow> u32 \<Rightarrow> ('a rpc_xdr_scheme, bytes option) xdrproc" where
  "xdr_string ops maxsize xdrs cpp =
     (case x_op xdrs of
        XDR_DECODE \<Rightarrow> xdr_string_decode ops maxsize xdrs cpp
      | XDR_ENCODE \<Rightarrow> xdr_string_encode ops maxsize xdrs cpp
      | XDR_FREE \<Rightarrow> xdr_string_free xdrs cpp)"

text \<open>The wrappers: \<^verbatim>\<open>MAX_NETOBJ_SZ\<close> is 1024 and \<^verbatim>\<open>RPC_MAXDATASIZE\<close> is 9000.\<close>

definition xdr_netobj :: "'a ops \<Rightarrow> ('a rpc_xdr_scheme, bytes option \<times> u32) xdrproc" where
  "xdr_netobj ops xdrs np = xdr_bytes ops 1024 xdrs np"

definition xdr_wrapstring :: "'a ops \<Rightarrow> ('a rpc_xdr_scheme, bytes option) xdrproc" where
  "xdr_wrapstring ops xdrs cpp = xdr_string ops 9000 xdrs cpp"

section \<open>Wire format\<close>

text \<open>Opaque data is followed by zeros up to a multiple of four bytes; counted data by its length first.\<close>

definition padlen :: "nat \<Rightarrow> nat" where
  "padlen n = (4 - n mod 4) mod 4"

definition enc_opaque :: "bytes \<Rightarrow> bytes" where
  "enc_opaque bs = bs @ replicate (padlen (length bs)) 0"

definition enc_bytes :: "bytes \<Rightarrow> bytes" where
  "enc_bytes bs = be32 (of_nat (length bs)) @ enc_opaque bs"

lemma padlen_0 [simp]: "padlen 0 = 0"
  by (simp add: padlen_def)

lemma padlen_less: "padlen n < 4"
  by (simp add: padlen_def)

lemma padlen_aligned: "(n + padlen n) mod 4 = 0"
proof -
  have "(n mod 4 + padlen n) mod 4 = 0"
    by (cases "n mod 4 = 0") (simp_all add: padlen_def)
  then show ?thesis by (simp only: mod_add_left_eq)
qed

lemma length_enc_opaque [simp]: "length (enc_opaque bs) = length bs + padlen (length bs)"
  by (simp add: enc_opaque_def)

lemma length_enc_bytes [simp]: "length (enc_bytes bs) = 4 + (length bs + padlen (length bs))"
  by (simp add: enc_bytes_def)

lemma unat_Suc_u32: "n \<noteq> 0xFFFFFFFF \<Longrightarrow> unat (n + 1 :: u32) = unat n + 1"
proof -
  assume "n \<noteq> 0xFFFFFFFF"
  then have "unat n \<noteq> 4294967295"
    using word_unat_eq_iff [of n "0xFFFFFFFF"] by simp
  moreover have "unat n < 2 ^ LENGTH(32)" by (rule unsigned_less)
  ultimately show ?thesis by (simp add: unat_word_ariths)
qed

lemma unat_of_nat_le: "n \<le> unat (m :: u32) \<Longrightarrow> unat (of_nat n :: u32) = n"
  using unsigned_less [of m, where ?'a = nat] by (intro unat_of_nat_small) simp

lemma unat_and_3: "unat (n AND 3 :: u32) = unat n mod 4"
proof -
  have "n AND 3 = n mod 4"
    using take_bit_eq_mask [of 2 n] take_bit_eq_mod [of 2 n] by (simp add: mask_eq_exp_minus_1)
  then show ?thesis by (simp add: unat_mod)
qed

lemma and_3_pos: "0 < (n AND 3 :: u32) \<longleftrightarrow> unat n mod 4 \<noteq> 0"
  using unat_and_3 [of n] by (metis neq0_conv unat_0 word_gt_0 word_unat_eq_iff)

lemma unat_4_sub: "0 < (n AND 3 :: u32) \<Longrightarrow> unat (4 - (n AND 3)) = padlen (unat n)"
proof -
  assume n: "0 < n AND 3"
  have "n AND 3 \<le> 4"
    using unat_and_3 [of n] by (simp add: word_le_nat_alt)
  then have "unat (4 - (n AND 3)) = 4 - unat n mod 4"
    by (simp add: unat_sub unat_and_3)
  with n show ?thesis by (simp add: padlen_def and_3_pos)
qed

lemma padlen_and_3: "\<not> 0 < (n AND 3 :: u32) \<Longrightarrow> padlen (unat n) = 0"
  by (simp only: and_3_pos) (simp add: padlen_def)

section \<open>Decoding\<close>

context xdr_reader
begin

lemma ready_mlog [simp]: "ready x \<Longrightarrow> ready (x\<lparr>mlog := l\<rparr>)"
  by (simp add: ready_def rinv_mlog phase_mlog)

lemma opaque_decode_ok:
  assumes "ready x" "rd x = bs @ p @ rest" "length bs = unat cnt" "length p = padlen (unat cnt)"
  shows "\<exists>x'. xdr_opaque_decode ops x cp cnt = (True, overlay bs cp, x') \<and> ready x' \<and> rd x' = rest \<and>
    mlog x' = mlog x"
proof (cases "cnt = 0")
  case True
  with assms show ?thesis by (simp add: xdr_opaque_decode_def)
next
  case False
  obtain x1 where x1: "x_getbytes ops x cnt = (True, bs, x1)" "rinv x1" "rd x1 = p @ rest"
      "phase x1 = unat cnt mod 4" "x_op x1 = XDR_DECODE" "mlog x1 = mlog x"
    using getbytes_ok [of x cnt] assms by (auto simp: ready_def)
  show ?thesis
  proof (cases "0 < cnt AND 3")
    case True
    then have l: "unat (4 - (cnt AND 3)) = length p"
      using assms(4) unat_4_sub by simp
    then obtain x2 where "x_getbytes ops x1 (4 - (cnt AND 3)) = (True, p, x2)" "rinv x2" "rd x2 = rest"
        "phase x2 = (unat cnt mod 4 + length p) mod 4" "x_op x2 = XDR_DECODE" "mlog x2 = mlog x"
      using getbytes_ok [of x1 "4 - (cnt AND 3)"] x1 by auto
    moreover have "(unat cnt mod 4 + length p) mod 4 = 0"
      unfolding assms(4) using padlen_aligned [of "unat cnt"] by (simp add: mod_add_left_eq)
    ultimately show ?thesis
      using False True x1 by (simp add: xdr_opaque_decode_def ready_def)
  next
    case no: False
    then have "unat cnt mod 4 = 0" "p = []"
      using and_3_pos padlen_and_3 assms(4) by auto
    with False no x1 show ?thesis
      by (simp add: xdr_opaque_decode_def ready_def)
  qed
qed

lemma decodes_opaque_decode:
  assumes "length bs = unat cnt" "length p = padlen (unat cnt)"
  shows "decodes (\<lambda>x. xdr_opaque_decode ops x cp cnt) (bs @ p) (overlay bs cp)"
proof (rule decodesI)
  fix x rest assume "ready x" "rd x = (bs @ p) @ rest"
  with opaque_decode_ok [OF _ _ assms, of x rest cp]
  show "\<exists>x'. xdr_opaque_decode ops x cp cnt = (True, overlay bs cp, x') \<and> ready x' \<and> rd x' = rest"
    by auto
qed

lemma opaque_decode_short:
  assumes "ready x" "length (rd x) < unat cnt + padlen (unat cnt)"
  shows "\<exists>cp' x'. xdr_opaque_decode ops x cp cnt = (False, cp', x') \<and> mlog x' = mlog x"
proof (cases "length (rd x) < unat cnt")
  case True
  then have "cnt \<noteq> 0" by auto
  with True getbytes_short [of x cnt] assms(1) show ?thesis
    by (auto simp: xdr_opaque_decode_def ready_def)
next
  case False
  with assms have p: "0 < cnt AND 3" "cnt \<noteq> 0"
    using padlen_and_3 by (force, force)
  obtain x1 where x1: "x_getbytes ops x cnt = (True, take (unat cnt) (rd x), x1)" "rinv x1"
      "rd x1 = drop (unat cnt) (rd x)" "mlog x1 = mlog x"
    using getbytes_ok [of x cnt] assms False by (auto simp: ready_def)
  have "length (rd x1) < unat (4 - (cnt AND 3))"
    using assms(2) False x1(3) unat_4_sub [OF p(1)] by simp
  with getbytes_short [of x1 "4 - (cnt AND 3)"] x1 p show ?thesis
    by (auto simp: xdr_opaque_decode_def)
qed

lemma opaque_decode_cases:
  assumes "ready x"
  obtains (ok) x' where "unat cnt + padlen (unat cnt) \<le> length (rd x)"
      "xdr_opaque_decode ops x cp cnt = (True, overlay (take (unat cnt) (rd x)) cp, x')" "ready x'"
      "rd x' = drop (unat cnt + padlen (unat cnt)) (rd x)" "mlog x' = mlog x"
    | (short) cp' x' where "length (rd x) < unat cnt + padlen (unat cnt)"
      "xdr_opaque_decode ops x cp cnt = (False, cp', x')" "mlog x' = mlog x"
proof (cases "unat cnt + padlen (unat cnt) \<le> length (rd x)")
  case True
  let ?n = "unat cnt"
  have "rd x = take ?n (rd x) @ take (padlen ?n) (drop ?n (rd x)) @ drop (?n + padlen ?n) (rd x)"
    by (metis append_assoc append_take_drop_id take_add)
  then have "\<exists>x'. xdr_opaque_decode ops x cp cnt = (True, overlay (take ?n (rd x)) cp, x') \<and> ready x' \<and>
      rd x' = drop (?n + padlen ?n) (rd x) \<and> mlog x' = mlog x"
    by (rule opaque_decode_ok [OF assms]) (use True in simp_all)
  with ok [OF True] show ?thesis by blast
next
  case False
  then have "length (rd x) < unat cnt + padlen (unat cnt)" by simp
  from this opaque_decode_short [OF assms this] short show ?thesis by blast
qed

lemma getuint32_cases:
  assumes "ready x"
  obtains (ok) x' where "4 \<le> length (rd x)" "xdr_getuint32 ops x ip = (True, of_be32 (take 4 (rd x)), x')"
      "ready x'" "rd x' = drop 4 (rd x)" "mlog x' = mlog x"
    | (short) u x' where "length (rd x) < 4" "xdr_getuint32 ops x ip = (False, u, x')" "mlog x' = mlog x"
proof (cases "x_data x + 4 \<le> vio_tail (x_v x)")
  case True
  with assms inline_rd [of x 4] inline_rinv [of x 4] inline_phase [of x 4] show ?thesis
    by (intro ok [of "x\<lparr>x_data := x_data x + 4\<rparr>"]) (auto simp: xdr_getuint32_def ready_def)
next
  case False
  then have e: "xdr_getuint32 ops x ip = x_getunit ops x ip" "vio_tail (x_v x) < x_data x + 4"
    by (simp_all add: xdr_getuint32_def)
  show ?thesis
  proof (cases "4 \<le> length (rd x)")
    case True
    with getunit_ok [of x ip] assms e obtain x' where
      "x_getunit ops x ip = (True, of_be32 (take 4 (rd x)), x')" "rinv x'" "rd x' = drop 4 (rd x)"
      "phase x' = 0" "x_op x' = x_op x" "mlog x' = mlog x"
      by (auto simp: ready_def)
    with True assms ok [of x'] show ?thesis by (simp add: e ready_def)
  next
    case False
    with getunit_short [of x ip] assms e obtain u x' where
      "x_getunit ops x ip = (False, u, x')" "mlog x' = mlog x"
      by (auto simp: ready_def)
    with False short [of u x'] show ?thesis by (simp add: e)
  qed
qed

end

text \<open>
  What counted bytes leave in the caller's pointer: nothing changes for an empty sequence; otherwise
  a new block, or the caller's block with its first bytes overwritten.
\<close>

definition bytes_into :: "bytes \<Rightarrow> bytes option \<Rightarrow> bytes option" where
  "bytes_into bs cpp =
     (if bs = [] then cpp else Some (case cpp of None \<Rightarrow> bs | Some sp \<Rightarrow> overlay bs sp))"

lemma fresh_overlay [simp]:
  "length bs = unat n \<Longrightarrow> overlay bs (map f [0..<unat n]) = bs"
  by simp

context xdr_reader
begin

text \<open>Counted bytes: the complete behaviour on a readable stream.\<close>

lemma bytes_decode_spec:
  assumes x: "ready x"
  defines "n \<equiv> of_be32 (take 4 (rd x))"
  shows "case xdr_bytes_decode ops maxsize x (cpp, n0) of (b, (cpp', n'), x') \<Rightarrow>
    (b \<longleftrightarrow> 4 \<le> length (rd x) \<and> n \<le> maxsize \<and> 4 + (unat n + padlen (unat n)) \<le> length (rd x)) \<and>
    (b \<longrightarrow> n' = n \<and> cpp' = bytes_into (take (unat n) (drop 4 (rd x))) cpp \<and> ready x' \<and>
      rd x' = drop (4 + (unat n + padlen (unat n))) (rd x)) \<and>
    (\<not> b \<longrightarrow> (cpp' = None \<longleftrightarrow> cpp = None)) \<and>
    mem_live (mlog x') = mem_live (mlog x) + (if b \<and> cpp = None then int (unat n) else 0)"
  using x
proof (cases rule: getuint32_cases [where ip = 0])
  case short
  then show ?thesis by (simp add: xdr_bytes_decode_def)
next
  case (ok x1)
  then have e: "xdr_getuint32 ops x 0 = (True, n, x1)" by (simp add: n_def)
  consider "n > maxsize" | "n \<le> maxsize" "n = 0" | "n \<le> maxsize" "n \<noteq> 0" by force
  then show ?thesis
  proof cases
    case 1
    with e ok show ?thesis by (auto simp: xdr_bytes_decode_def not_le)
  next
    case 2
    with e ok show ?thesis by (simp add: xdr_bytes_decode_def bytes_into_def)
  next
    case 3
    define r where "r = (case cpp of None \<Rightarrow> mem_alloc n x1 | Some sp \<Rightarrow> (sp, x1))"
    obtain sp x2 where r2: "r = (sp, x2)" by (cases r)
    have x2: "ready x2" "rd x2 = drop 4 (rd x)"
        "mem_live (mlog x2) = mem_live (mlog x) + (if cpp = None then int (unat n) else 0)"
      using r2 ok rd_mlog
      by (auto simp: r_def mem_alloc_def ready_def rinv_mlog phase_mlog split: option.splits)
    have sp: "overlay bs sp = (case cpp of None \<Rightarrow> bs | Some sp \<Rightarrow> overlay bs sp)"
      if "length bs = unat n" for bs
      using that r2 by (auto simp: r_def mem_alloc_def split: option.splits)
    note d = xdr_bytes_decode_def e r_def [symmetric] r2
    from x2(1) show ?thesis
    proof (cases rule: opaque_decode_cases [where cnt = n and cp = sp])
      case o: (ok x')
      have l: "4 + (unat n + padlen (unat n)) \<le> length (rd x)" "\<not> maxsize < n"
        using o(1) x2(2) ok(1) 3 by auto
      have "0 < unat n" using 3 unat_eq_zero [of n] by simp
      then have "take (unat n) (drop 4 (rd x)) \<noteq> []"
        using o(1) x2(2) by auto
      with 3 l o x2 ok(1) sp [of "take (unat n) (drop 4 (rd x))"] show ?thesis
        by (simp add: d bytes_into_def add.commute add.left_commute)
    next
      case (short cp' x')
      with 3 x2 show ?thesis by (auto simp: d mem_free_def)
    qed
  qed
qed

text \<open>
  Strings: the complete behaviour on a readable stream.  When the data is missing the block is
  freed, also when it is the caller's and the caller's pointer keeps its value.
\<close>

lemma string_decode_spec:
  assumes x: "ready x"
  defines "n \<equiv> of_be32 (take 4 (rd x))"
  shows "case xdr_string_decode ops maxsize x cpp of (b, cpp', x') \<Rightarrow>
    (b \<longleftrightarrow> 4 \<le> length (rd x) \<and> n \<le> maxsize \<and> n \<noteq> 0xFFFFFFFF \<and>
      4 + (unat n + padlen (unat n)) \<le> length (rd x)) \<and>
    (b \<longrightarrow> cpp' = Some (overlay (take (unat n) (drop 4 (rd x)) @ [0]) (case cpp of None \<Rightarrow> [] | Some sp \<Rightarrow> sp)) \<and>
      ready x' \<and> rd x' = drop (4 + (unat n + padlen (unat n))) (rd x)) \<and>
    (\<not> b \<longrightarrow> (cpp' = None \<longleftrightarrow> cpp = None)) \<and>
    mem_live (mlog x') = mem_live (mlog x) +
      (if b then if cpp = None then int (unat n) + 1 else 0
       else if cpp \<noteq> None \<and> 4 \<le> length (rd x) \<and> n \<le> maxsize \<and> n \<noteq> 0xFFFFFFFF
       then - (int (unat n) + 1) else 0)"
  using x
proof (cases rule: getuint32_cases [where ip = 0])
  case short
  then show ?thesis by (simp add: xdr_string_decode_def)
next
  case (ok x1)
  then have e: "xdr_getuint32 ops x 0 = (True, n, x1)" by (simp add: n_def)
  consider "n > maxsize" | "n = 0xFFFFFFFF" | "n \<le> maxsize" "n \<noteq> 0xFFFFFFFF" by force
  then show ?thesis
  proof cases
    case 1
    with e ok show ?thesis by (auto simp: xdr_string_decode_def not_le)
  next
    case 2
    with e ok show ?thesis by (auto simp: xdr_string_decode_def)
  next
    case 3
    have n1: "unat (n + 1) = unat n + 1"
      using 3(2) by (rule unat_Suc_u32)
    define r where "r = (case cpp of None \<Rightarrow> mem_alloc (n + 1) x1 | Some sp \<Rightarrow> (sp, x1))"
    obtain sp x2 where r2: "r = (sp, x2)" by (cases r)
    have x2: "ready x2" "rd x2 = drop 4 (rd x)"
        "mem_live (mlog x2) = mem_live (mlog x) + (if cpp = None then int (unat n) + 1 else 0)"
      using r2 ok rd_mlog
      by (auto simp: r_def mem_alloc_def ready_def rinv_mlog phase_mlog n1 split: option.splits)
    have sp: "overlay (bs @ [0]) (overlay bs sp) = overlay (bs @ [0]) (case cpp of None \<Rightarrow> [] | Some sp \<Rightarrow> sp)"
      if "length bs = unat n" for bs
      using that r2 by (auto simp: r_def mem_alloc_def overlay_def n1 split: option.splits)
    note d = xdr_string_decode_def e r_def [symmetric] r2
    from x2(1) show ?thesis
    proof (cases rule: opaque_decode_cases [where cnt = n and cp = sp])
      case o: (ok x')
      have "4 + (unat n + padlen (unat n)) \<le> length (rd x)" "\<not> maxsize < n"
        using o(1) x2(2) ok(1) 3 by auto
      moreover have "rd x' = drop (4 + (unat n + padlen (unat n))) (rd x)"
        using o(4) x2(2) by (simp add: ac_simps)
      ultimately show ?thesis
        using 3 o x2 ok(1) sp [of "take (unat n) (drop 4 (rd x))"] by (simp add: d)
    next
      case (short cp' x')
      with 3 x2 ok(1) show ?thesis by (auto simp: d mem_free_def n1)
    qed
  qed
qed

lemma decodes_bytes:
  assumes "length bs \<le> unat maxsize" "length p = padlen (length bs)"
  shows "decodes (\<lambda>x. xdr_bytes ops maxsize x (cpp, n0)) (be32 (of_nat (length bs)) @ bs @ p)
    (bytes_into bs cpp, of_nat (length bs))"
proof (rule decodesI)
  fix x rest assume x: "ready x" "rd x = (be32 (of_nat (length bs)) @ bs @ p) @ rest"
  note n = unat_of_nat_le [OF assms(1)]
  from x(2) have "of_be32 (take 4 (rd x)) = of_nat (length bs)" "drop 4 (rd x) = bs @ p @ rest"
      "length (rd x) = 4 + (length bs + padlen (length bs)) + length rest"
      "drop (4 + (length bs + padlen (length bs))) (rd x) = rest"
    using assms(2) by simp_all
  with bytes_decode_spec [OF x(1), of maxsize cpp n0] n assms x(1)
  show "\<exists>x'. xdr_bytes ops maxsize x (cpp, n0) = (True, (bytes_into bs cpp, of_nat (length bs)), x') \<and>
      ready x' \<and> rd x' = rest"
    by (simp add: xdr_bytes_def ready_def word_le_nat_alt split: prod.splits)
qed

lemma decodes_string:
  assumes "length s \<le> unat maxsize" "length s < 0xFFFFFFFF" "length p = padlen (length s)"
  shows "decodes (\<lambda>x. xdr_string ops maxsize x cpp) (be32 (of_nat (length s)) @ s @ p)
    (Some (overlay (s @ [0]) (case cpp of None \<Rightarrow> [] | Some sp \<Rightarrow> sp)))"
proof (rule decodesI)
  fix x rest assume x: "ready x" "rd x = (be32 (of_nat (length s)) @ s @ p) @ rest"
  note n = unat_of_nat_le [OF assms(1)]
  from n assms(2) have m: "of_nat (length s) \<noteq> (0xFFFFFFFF :: u32)" by auto
  from x(2) have "of_be32 (take 4 (rd x)) = of_nat (length s)" "drop 4 (rd x) = s @ p @ rest"
      "length (rd x) = 4 + (length s + padlen (length s)) + length rest"
      "drop (4 + (length s + padlen (length s))) (rd x) = rest"
    using assms(3) by simp_all
  with string_decode_spec [OF x(1), of maxsize cpp] n m assms x(1)
  show "\<exists>x'. xdr_string ops maxsize x cpp =
      (True, Some (overlay (s @ [0]) (case cpp of None \<Rightarrow> [] | Some sp \<Rightarrow> sp)), x') \<and>
      ready x' \<and> rd x' = rest"
    by (simp add: xdr_string_def ready_def word_le_nat_alt split: prod.splits)
qed

lemma decodes_opaque:
  assumes "length bs = unat cnt" "length p = padlen (unat cnt)"
  shows "decodes (\<lambda>x. xdr_opaque ops x cp cnt) (bs @ p) (overlay bs cp)"
  by (rule decodes_map [OF decodes_opaque_decode [OF assms, of cp]]) (simp add: xdr_opaque_def ready_def)

end

section \<open>Encoding\<close>

lemma strlen_full_iff: "strlen (s @ [0]) = length s \<longleftrightarrow> 0 \<notin> set s"
proof -
  have "strlen (s @ [0]) \<le> length s \<and> (strlen (s @ [0]) = length s \<longleftrightarrow> 0 \<notin> set s)"
    by (induction s) (auto simp: strlen_def)
  then show ?thesis by blast
qed

lemma strlen_terminated: "0 \<notin> set s \<Longrightarrow> strlen (s @ 0 # junk) = length s"
  by (induction s) (auto simp: strlen_def)

context xdr_writer
begin

lemma emits_putbytes:
  "length bs < 2 ^ 32 \<Longrightarrow> length bs mod 4 = 0 \<Longrightarrow> emits (\<lambda>x. x_putbytes ops x bs) bs"
  by (rule emitsI) (use putbytes_ok in \<open>fastforce simp: writable_def\<close>)

text \<open>Bytes and then their padding, which together are whole units.\<close>

lemma emits_putbytes_pad:
  assumes "length bs < 2 ^ 32" "length cs < 2 ^ 32" "(length bs + length cs) mod 4 = 0"
    and h: "\<And>x x'. x_putbytes ops x bs = (True, x') \<Longrightarrow> h x = x_putbytes ops x' cs"
  shows "emits h (bs @ cs)"
proof (rule emitsI)
  fix x k assume x: "writable x" "fits x (length (bs @ cs) + k)"
  then obtain x1 where x1: "x_putbytes ops x bs = (True, x1)" "winv x1" "wr x1 = wr x @ bs"
      "fits x1 (length cs + k)" "x_op x1 = x_op x" "anchor x1 = anchor x" "wphase x1 = (wphase x + length bs) mod 4"
    using putbytes_ok [of x bs "length cs + k"] assms(1) by (auto simp: writable_def add.assoc)
  from putbytes_ok [OF x1(2,4) assms(2)] obtain x2 where
    "x_putbytes ops x1 cs = (True, x2)" "winv x2" "wr x2 = wr x1 @ cs" "fits x2 k" "x_op x2 = x_op x1"
    "anchor x2 = anchor x1" "wphase x2 = (wphase x1 + length cs) mod 4"
    by blast
  with x1 x assms(3) h [OF x1(1)]
  show "\<exists>x'. h x = (True, x') \<and> writable x' \<and> wr x' = wr x @ bs @ cs \<and> fits x' k \<and> anchor x' = anchor x"
    by (simp add: writable_def mod_add_left_eq)
qed

lemma emits_opaque_encode:
  assumes "unat cnt \<le> length cp"
  shows "emits (\<lambda>x. xdr_opaque_encode ops x cp cnt) (enc_opaque (take (unat cnt) cp))"
proof (cases "cnt = 0")
  case True
  then show ?thesis using emits_return by (simp add: xdr_opaque_encode_def enc_opaque_def)
next
  case False
  let ?bs = "take (unat cnt) cp"
  have l: "length ?bs = unat cnt" using assms by simp
  then have p: "length ?bs < 2 ^ 32" using unsigned_less [of cnt, where ?'a = nat] by simp
  show ?thesis
  proof (cases "0 < cnt AND 3")
    case True
    let ?z = "replicate (unat (4 - (cnt AND 3))) (0 :: u8)"
    have z: "length ?z = padlen (unat cnt)" by (simp add: unat_4_sub [OF True])
    have "emits (\<lambda>x. xdr_opaque_encode ops x cp cnt) (?bs @ ?z)"
      by (rule emits_putbytes_pad)
        (use False True p l z padlen_less [of "unat cnt"] padlen_aligned [of "unat cnt"] in
          \<open>simp_all add: xdr_opaque_encode_def split: prod.split bool.split\<close>)
    then show ?thesis unfolding enc_opaque_def l by (simp only: unat_4_sub [OF True])
  next
    case False2: False
    have "emits (\<lambda>x. x_putbytes ops x ?bs) ?bs"
      using p l padlen_aligned [of "unat cnt"] by (intro emits_putbytes) (simp_all add: padlen_and_3 [OF False2])
    from emits_bind [OF this emits_return] have "emits (\<lambda>x. xdr_opaque_encode ops x cp cnt) (?bs @ [])"
      using False False2 by (simp add: xdr_opaque_encode_def)
    then show ?thesis unfolding enc_opaque_def l by (simp add: padlen_and_3 [OF False2])
  qed
qed

lemma encodes_opaque:
  assumes "unat cnt \<le> length cp"
  shows "encodes (\<lambda>x. xdr_opaque ops x cp cnt) (enc_opaque (take (unat cnt) cp)) cp"
  by (rule encodes_emits [OF emits_opaque_encode [OF assms]]) (simp add: xdr_opaque_def writable_def)

lemma emits_counted:
  assumes "unat cnt \<le> length cp"
  shows "emits (\<lambda>x. case xdr_putuint32 ops x cnt of (False, x) \<Rightarrow> (False, x)
      | (True, x) \<Rightarrow> xdr_opaque_encode ops x cp cnt) (enc_bytes (take (unat cnt) cp))"
proof -
  have "be32 (of_nat (length (take (unat cnt) cp))) = be32 cnt" using assms by simp
  then show ?thesis
    unfolding enc_bytes_def
    by (simp only:) (rule emits_bind [OF emits_putuint32 emits_opaque_encode [OF assms]], simp)
qed

lemma encodes_bytes:
  assumes "sz \<le> maxsize" "unat sz \<le> length (case cpp of None \<Rightarrow> [] | Some sp \<Rightarrow> sp)"
  shows "encodes (\<lambda>x. xdr_bytes ops maxsize x (cpp, sz))
    (enc_bytes (take (unat sz) (case cpp of None \<Rightarrow> [] | Some sp \<Rightarrow> sp))) (cpp, sz)"
  by (rule encodes_emits [OF emits_counted [OF assms(2)]])
    (use assms(1) in \<open>auto simp: xdr_bytes_def xdr_bytes_encode_def writable_def not_le
      split: prod.splits bool.splits\<close>)

lemma encodes_string:
  assumes "0 \<notin> set s" "length s \<le> unat maxsize" "length s < 0xFFFFFFFF"
  shows "encodes (\<lambda>x. xdr_string ops maxsize x (Some (s @ 0 # junk))) (enc_bytes s) (Some (s @ 0 # junk))"
proof -
  note n = unat_of_nat_le [OF assms(2)]
  have m: "unat (1 + of_nat (length s) :: u32) = Suc (length s)"
    using assms(3) unat_of_nat_small [of "length s + 1", where ?'a = 32] by simp
  have "emits (\<lambda>x. case xdr_putuint32 ops x (of_nat (length s)) of (False, x) \<Rightarrow> (False, x)
      | (True, x) \<Rightarrow> xdr_opaque_encode ops x (s @ 0 # junk) (of_nat (length s))) (enc_bytes s)"
    using emits_counted [of "of_nat (length s)" "s @ 0 # junk"] n by simp
  then show ?thesis
    by (rule encodes_emits) (use assms(2) n m in \<open>auto simp: xdr_string_def xdr_string_encode_def
        writable_def strlen_terminated [OF assms(1)] split: prod.splits bool.splits\<close>)
qed

end

section \<open>Properties\<close>



text \<open>
  C12: Counted bytes of any length up to \<^verbatim>\<open>maxsize\<close>, whatever their values, round-trip through a memory stream of sufficient
  size into a null pointer: the same bytes come back, and for no bytes the pointer stays null.  Strings, which
  have no zero byte before their terminator, of any length up to \<^verbatim>\<open>maxsize\<close> and below \<^verbatim>\<open>UINT32_MAX\<close>, round-trip with their
  terminator, the empty one included.
\<close>

theorem xdr_bytes_string_roundtrip:
  assumes "a \<noteq> NULL" "a mod 4 = 0" "length (enc_bytes s) \<le> unat sz" "length s \<le> unat maxsize"
  shows "mem_transfer a sz (\<lambda>x. xdr_bytes xdrmem_ops_aligned maxsize x (Some s, of_nat (length s)))
      (\<lambda>x. xdr_bytes xdrmem_ops_aligned maxsize x (None, n0)) xdrs =
        Some (if s = [] then None else Some s, of_nat (length s)) \<and>
    (0 \<notin> set s \<and> length s < 0xFFFFFFFF \<longrightarrow>
      mem_transfer a sz (\<lambda>x. xdr_string xdrmem_ops_aligned maxsize x (Some (s @ [0])))
        (\<lambda>x. xdr_string xdrmem_ops_aligned maxsize x None) xdrs = Some (Some (s @ [0])))"
proof (intro conjI impI)
  note n = unat_of_nat_le [OF assms(4)]
  have e: "enc_bytes s = be32 (of_nat (length s)) @ s @ replicate (padlen (length s)) 0"
    by (simp add: enc_bytes_def enc_opaque_def)
  have "mem_w.encodes (\<lambda>x. xdr_bytes xdrmem_ops_aligned maxsize x (Some s, of_nat (length s)))
      (enc_bytes s) (Some s, of_nat (length s))"
    using mem_w.encodes_bytes [of "of_nat (length s)" maxsize "Some s"] n assms(4)
    by (simp add: word_le_nat_alt)
  moreover have "mem_r.decodes (\<lambda>x. xdr_bytes xdrmem_ops_aligned maxsize x (None, n0)) (enc_bytes s)
      (if s = [] then None else Some s, of_nat (length s))"
    using mem_r.decodes_bytes [OF assms(4), of "replicate (padlen (length s)) 0" None n0]
    unfolding e by (cases "s = []") (simp_all add: bytes_into_def padlen_def)
  ultimately show "mem_transfer a sz (\<lambda>x. xdr_bytes xdrmem_ops_aligned maxsize x (Some s, of_nat (length s)))
      (\<lambda>x. xdr_bytes xdrmem_ops_aligned maxsize x (None, n0)) xdrs = Some (if s = [] then None else Some s, of_nat (length s))"
    by (rule mem_transfer_ok) (use assms in simp_all)
  assume s: "0 \<notin> set s \<and> length s < 0xFFFFFFFF"
  then have "mem_w.encodes (\<lambda>x. xdr_string xdrmem_ops_aligned maxsize x (Some (s @ [0]))) (enc_bytes s) (Some (s @ [0]))"
    using assms by (intro mem_w.encodes_string) simp_all
  moreover have "mem_r.decodes (\<lambda>x. xdr_string xdrmem_ops_aligned maxsize x None) (enc_bytes s) (Some (s @ [0]))"
    using mem_r.decodes_string [OF assms(4), of "replicate (padlen (length s)) 0" None] s by (simp add: e)
  ultimately show "mem_transfer a sz (\<lambda>x. xdr_string xdrmem_ops_aligned maxsize x (Some (s @ [0])))
      (\<lambda>x. xdr_string xdrmem_ops_aligned maxsize x None) xdrs = Some (Some (s @ [0]))"
    by (rule mem_transfer_ok) (use assms in simp_all)
qed

theorem xdr_bytes_string_roundtrip_witness:
  "mem_transfer 8 16 (\<lambda>x. xdr_string xdrmem_ops_aligned 255 x (Some [104, 105, 0]))
      (\<lambda>x. xdr_string xdrmem_ops_aligned 255 x None) xdr_blank = Some (Some [104, 105, 0]) \<and>
   mem_transfer 8 16 (\<lambda>x. xdr_bytes xdrmem_ops_aligned 255 x (Some [7, 0, 9], 3))
      (\<lambda>x. xdr_bytes xdrmem_ops_aligned 255 x (None, 0)) xdr_blank = Some (Some [7, 0, 9], 3)"
  using xdr_bytes_string_roundtrip [of 8 "[104, 105]" 16 255 0 xdr_blank] xdr_bytes_string_roundtrip [of 8 "[7, 0, 9]" 16 255 0 xdr_blank]
  by (simp add: padlen_def)

text \<open>
  C13: When the data of a string is cut short, \<^verbatim>\<open>xdr_string_decode\<close> frees the block that the caller
  provided and leaves the caller's pointer to it in place; \<^verbatim>\<open>xdr_bytes_decode\<close> on the same stream
  frees nothing.
\<close>

theorem xdr_string_decode_frees_caller_block:
  assumes "mem_r.ready x" "4 \<le> length (mem_rd x)" "n = of_be32 (take 4 (mem_rd x))"
    and "n \<le> maxsize" "n \<noteq> 0xFFFFFFFF" "length (mem_rd x) < 4 + (unat n + padlen (unat n))"
  shows "(\<exists>sp' x'. xdr_string_decode xdrmem_ops_aligned maxsize x (Some sp) = (False, Some sp', x') \<and>
      mem_live (mlog x') = mem_live (mlog x) - (int (unat n) + 1)) \<and>
    (\<exists>sp' n' x'. xdr_bytes_decode xdrmem_ops_aligned maxsize x (Some sp, n0) = (False, (Some sp', n'), x') \<and>
      mem_live (mlog x') = mem_live (mlog x))"
  using mem_r.string_decode_spec [OF assms(1), of maxsize "Some sp"]
    mem_r.bytes_decode_spec [OF assms(1), of maxsize "Some sp" n0] assms(2-)
  by (auto split: prod.splits)

theorem xdr_string_decode_frees_caller_block_witness:
  "\<exists>sp' x'. xdr_string_decode xdrmem_ops_aligned 255 (xdr_demo_read (be32 3)) (Some [0, 0, 0, 0]) = (False, Some sp', x') \<and>
     mem_live (mlog x') = - 4"
proof -
  have d: "mem_r.ready (xdr_demo_read (be32 3))" "mem_rd (xdr_demo_read (be32 3)) = be32 3"
      "mlog (xdr_demo_read (be32 3)) = []"
    by (simp_all add: xdr_demo_read_ready)
  show ?thesis
    using xdr_string_decode_frees_caller_block [OF d(1), of 3 255 "[0, 0, 0, 0]" 0] by (simp add: d padlen_def)
qed

text \<open>
  C14: Decoding counted bytes into a null pointer and then freeing the result, whether decoding
  succeeded or failed, leaves the memory in use as it was and the pointer null.  For a string this
  holds exactly when the bytes on the wire contain no terminator: \<^verbatim>\<open>xdr_string_free\<close> tells the allocator
  the length up to the first terminator, not the size that was allocated.
\<close>

theorem xdr_decode_free_balanced:
  assumes "mem_r.ready x"
  shows "(case xdr_bytes_decode xdrmem_ops_aligned maxsize x (None, n0) of (b, p, x') \<Rightarrow>
      case xdr_bytes xdrmem_ops_aligned maxsize (x'\<lparr>x_op := XDR_FREE\<rparr>) p of (b', p', y) \<Rightarrow>
        b' \<and> fst p' = None \<and> mem_live (mlog y) = mem_live (mlog x)) \<and>
    (case xdr_string_decode xdrmem_ops_aligned maxsize x None of (b, p, x') \<Rightarrow>
      case xdr_string xdrmem_ops_aligned maxsize (x'\<lparr>x_op := XDR_FREE\<rparr>) p of (b', p', y) \<Rightarrow>
        b' \<and> p' = None \<and> (mem_live (mlog y) = mem_live (mlog x) \<longleftrightarrow>
          (b \<longrightarrow> 0 \<notin> set (take (unat (of_be32 (take 4 (mem_rd x)))) (drop 4 (mem_rd x))))))"
proof
  show "case xdr_bytes_decode xdrmem_ops_aligned maxsize x (None, n0) of (b, p, x') \<Rightarrow>
      case xdr_bytes xdrmem_ops_aligned maxsize (x'\<lparr>x_op := XDR_FREE\<rparr>) p of (b', p', y) \<Rightarrow>
        b' \<and> fst p' = None \<and> mem_live (mlog y) = mem_live (mlog x)"
  proof -
    let ?n = "of_be32 (take 4 (mem_rd x))"
    obtain b cpp n x' where d: "xdr_bytes_decode xdrmem_ops_aligned maxsize x (None, n0) = (b, (cpp, n), x')"
      by (metis prod.collapse)
    note spec = mem_r.bytes_decode_spec [OF assms, of maxsize None n0, unfolded d prod.case]
    then have "mem_live (mlog x') = mem_live (mlog x) + (if cpp = None then 0 else int (unat n))"
    proof (cases "b \<and> cpp \<noteq> None")
      case False
      then have "b \<longrightarrow> take (unat ?n) (drop 4 (mem_rd x)) = []" "\<not> b \<longrightarrow> cpp = None"
        using spec by (auto simp: bytes_into_def split: if_splits)
      moreover have "b \<longrightarrow> unat ?n \<le> length (drop 4 (mem_rd x))"
        using spec by auto
      ultimately have "b \<longrightarrow> unat ?n = 0"
        by (metis length_0_conv length_take min.absorb2)
      with spec False show ?thesis by (cases b) simp_all
    qed auto
    then show ?thesis
      by (cases cpp) (simp_all add: d xdr_bytes_def xdr_bytes_free_def mem_free_def)
  qed
next
  show "case xdr_string_decode xdrmem_ops_aligned maxsize x None of (b, p, x') \<Rightarrow>
      case xdr_string xdrmem_ops_aligned maxsize (x'\<lparr>x_op := XDR_FREE\<rparr>) p of (b', p', y) \<Rightarrow>
        b' \<and> p' = None \<and> (mem_live (mlog y) = mem_live (mlog x) \<longleftrightarrow>
          (b \<longrightarrow> 0 \<notin> set (take (unat (of_be32 (take 4 (mem_rd x)))) (drop 4 (mem_rd x)))))"
  proof -
    let ?n = "of_be32 (take 4 (mem_rd x))"
    let ?s = "take (unat ?n) (drop 4 (mem_rd x))"
    obtain b cpp x' where d: "xdr_string_decode xdrmem_ops_aligned maxsize x None = (b, cpp, x')"
      by (metis prod.collapse)
    note spec = mem_r.string_decode_spec [OF assms, of maxsize None, unfolded d prod.case]
    show ?thesis
    proof (cases b)
      case True
      with spec have l: "length ?s = unat ?n" and c: "cpp = Some (?s @ [0])"
        by auto
      from True spec have "mem_live (mlog x') = mem_live (mlog x) + (int (length ?s) + 1)"
        unfolding l by simp
      with True c strlen_full_iff [of ?s] show ?thesis
        by (simp add: d xdr_string_def xdr_string_free_def mem_free_def del: length_take) linarith
    next
      case False
      with spec show ?thesis by (auto simp: d xdr_string_def xdr_string_free_def)
    qed
  qed
qed

theorem xdr_decode_free_balanced_witness:
  "case xdr_string_decode xdrmem_ops_aligned 255 (xdr_demo_read (be32 2 @ [104, 0, 0, 0])) None of (b, p, x') \<Rightarrow>
     case xdr_string xdrmem_ops_aligned 255 (x'\<lparr>x_op := XDR_FREE\<rparr>) p of (b', p', y) \<Rightarrow>
       b \<and> p' = None \<and> mem_live (mlog y) \<noteq> 0"
proof -
  let ?x = "xdr_demo_read (be32 2 @ [104, 0, 0, 0])"
  have d: "mem_r.ready ?x" "mem_rd ?x = be32 2 @ [104, 0, 0, 0]" "mlog ?x = []"
    by (simp_all add: xdr_demo_read_ready)
  obtain b p x' where e: "xdr_string_decode xdrmem_ops_aligned 255 ?x None = (b, p, x')"
    by (metis prod.collapse)
  have b
    using mem_r.string_decode_spec [OF d(1), of 255 None] by (simp add: e d padlen_def)
  then show ?thesis
    using xdr_decode_free_balanced [OF d(1), of 255 0] by (simp add: e d split: prod.splits)
qed

end
