(* ===== verification/Xdr_Compound.thy ===== *)
theory Xdr_Compound
  imports Xdr_Opaque
begin

text \<open>
  The filters that are built from other filters: discriminated unions, vectors and counted arrays of
  \<^verbatim>\<open>ntirpc/rpc/xdr_inline.h\<close>, references and pointers of \<^verbatim>\<open>src/xdr_reference.c\<close>, and \<^verbatim>\<open>xdr_nfree\<close>.  A
  filter passed as \<^verbatim>\<open>xdrproc_t\<close> is a function argument.  An array is the list of its elements, and a
  pointer to an object is \<open>None\<close> for \<^verbatim>\<open>NULL\<close>; \<open>zero\<close> is the element that a block of zero bytes holds.
\<close>

section \<open>Filters\<close>

text \<open>
  \<^verbatim>\<open>choices\<close> is the array of \<^verbatim>\<open>struct xdr_discrim\<close> up to its null entry; the first entry with the
  value of the discriminant is used.
\<close>

definition xdr_union ::
    "'a ops \<Rightarrow> (u32 \<times> ('a rpc_xdr_scheme, 'u) xdrproc) list \<Rightarrow> ('a rpc_xdr_scheme, 'u) xdrproc option \<Rightarrow>
     ('a rpc_xdr_scheme, u32 \<times> 'u) xdrproc" where
  "xdr_union ops choices dfault xdrs = (\<lambda>(dscmp, unp).
     case xdr_enum ops xdrs dscmp of
       (False, dscm, xdrs) \<Rightarrow> (False, (dscm, unp), xdrs)
     | (True, dscm, xdrs) \<Rightarrow>
         (case map_of choices dscm of
            Some proc \<Rightarrow> (case proc xdrs unp of (b, unp, xdrs) \<Rightarrow> (b, (dscm, unp), xdrs))
          | None \<Rightarrow>
              (case dfault of
                 None \<Rightarrow> (False, (dscm, unp), xdrs)
               | Some proc \<Rightarrow> (case proc xdrs unp of (b, unp, xdrs) \<Rightarrow> (b, (dscm, unp), xdrs)))))"

text \<open>
  The loop over \<^verbatim>\<open>nelem\<close> elements that \<^verbatim>\<open>xdr_vector\<close> and the three array routines share.  It stops at
  the first element that fails.  A caller whose array has fewer elements than it says is in error;
  the model then fails at the end of the list.
\<close>

fun xdr_elems ::
    "('x, 'v) xdrproc \<Rightarrow> 'x \<Rightarrow> 'v list \<Rightarrow> nat \<Rightarrow> bool \<times> 'v list \<times> 'x" where
  "xdr_elems xdr_elem xdrs target 0 = (True, target, xdrs)"
| "xdr_elems xdr_elem xdrs [] (Suc n) = (False, [], xdrs)"
| "xdr_elems xdr_elem xdrs (v # target) (Suc n) =
     (case xdr_elem xdrs v of
        (False, v, xdrs) \<Rightarrow> (False, v # target, xdrs)
      | (True, v, xdrs) \<Rightarrow>
          (case xdr_elems xdr_elem xdrs target n of (b, target, xdrs) \<Rightarrow> (b, v # target, xdrs)))"

definition xdr_vector ::
    "('x, 'v) xdrproc \<Rightarrow> 'x \<Rightarrow> 'v list \<Rightarrow> u32 \<Rightarrow> bool \<times> 'v list \<times> 'x" where
  "xdr_vector xdr_elem xdrs basep nelem = xdr_elems xdr_elem xdrs basep (unat nelem)"

text \<open>
  The counted arrays.  With an element size of 0 the check of \<^verbatim>\<open>maxsize\<close> divides by zero in the source; here the
  quotient is then 0.  No filter of the library passes that size, and the properties exclude it.
\<close>

definition xdr_array_decode ::
    "'a ops \<Rightarrow> u32 \<Rightarrow> u32 \<Rightarrow> 'v \<Rightarrow> ('a rpc_xdr_scheme, 'v) xdrproc \<Rightarrow>
     ('a rpc_xdr_scheme, 'v list option \<times> u32) xdrproc" where
  "xdr_array_decode ops maxsize selem zero xdr_elem xdrs = (\<lambda>(cpp, sizep).
     if maxsize > 0xFFFFFFFF div selem then (False, (cpp, sizep), xdrs)
     else
       case xdr_getuint32 ops xdrs 0 of
         (False, sz, xdrs) \<Rightarrow> (False, (cpp, sizep), xdrs)
       | (True, sz, xdrs) \<Rightarrow>
           if sz > maxsize then (False, (cpp, sizep), xdrs)
           else if sz = 0 then (True, (cpp, sz), xdrs)
           else
             case (case cpp of
                     None \<Rightarrow> (replicate (unat sz) zero, mem_zalloc (sz * selem) xdrs)
                   | Some target \<Rightarrow> (target, xdrs)) of
               (target, xdrs) \<Rightarrow>
                 (case xdr_elems xdr_elem xdrs target (unat sz) of
                    (stat, target, xdrs) \<Rightarrow> (stat, (Some target, sz), xdrs)))"

definition xdr_array_encode ::
    "'a ops \<Rightarrow> u32 \<Rightarrow> ('a rpc_xdr_scheme, 'v) xdrproc \<Rightarrow>
     ('a rpc_xdr_scheme, 'v list option \<times> u32) xdrproc" where
  "xdr_array_encode ops maxsize xdr_elem xdrs = (\<lambda>(cpp, sizep).
     if sizep > maxsize then (False, (cpp, sizep), xdrs)
     else
       case xdr_putuint32 ops xdrs sizep of
         (False, xdrs) \<Rightarrow> (False, (cpp, sizep), xdrs)
       | (True, xdrs) \<Rightarrow>
           (case xdr_elems xdr_elem xdrs (case cpp of None \<Rightarrow> [] | Some target \<Rightarrow> target) (unat sizep) of
              (stat, target, xdrs) \<Rightarrow> (stat, (map_option (\<lambda>_. target) cpp, sizep), xdrs)))"

definition xdr_array_free ::
    "u32 \<Rightarrow> ('a rpc_xdr_scheme, 'v) xdrproc \<Rightarrow>
     ('a rpc_xdr_scheme, 'v list option \<times> u32) xdrproc" where
  "xdr_array_free selem xdr_elem xdrs = (\<lambda>(cpp, sizep).
     case cpp of
       None \<Rightarrow> (True, (cpp, sizep), xdrs)
     | Some target \<Rightarrow>
         (case xdr_elems xdr_elem xdrs target (unat sizep) of
            (stat, target, xdrs) \<Rightarrow> (stat, (None, sizep), mem_free (unat (sizep * selem)) xdrs)))"

definition xdr_array ::
    "'a ops \<Rightarrow> u32 \<Rightarrow> u32 \<Rightarrow> 'v \<Rightarrow> ('a rpc_xdr_scheme, 'v) xdrproc \<Rightarrow>
     ('a rpc_xdr_scheme, 'v list option \<times> u32) xdrproc" where
  "xdr_array ops maxsize selem zero xdr_elem xdrs p =
     (case x_op xdrs of
        XDR_DECODE \<Rightarrow> xdr_array_decode ops maxsize selem zero xdr_elem xdrs p
      | XDR_ENCODE \<Rightarrow> xdr_array_encode ops maxsize xdr_elem xdrs p
      | XDR_FREE \<Rightarrow> xdr_array_free selem xdr_elem xdrs p)"

text \<open>
  \<^verbatim>\<open>xdr_reference\<close>.  Encoding through a null pointer hands \<^verbatim>\<open>NULL\<close> to \<^verbatim>\<open>proc\<close>, an error of the caller that
  the model reports as failure.
\<close>

definition xdr_reference ::
    "u32 \<Rightarrow> 'v \<Rightarrow> ('a rpc_xdr_scheme, 'v) xdrproc \<Rightarrow> ('a rpc_xdr_scheme, 'v option) xdrproc" where
  "xdr_reference sz zero proc xdrs pp =
     (case (case pp of
              Some loc \<Rightarrow> Some (loc, xdrs)
            | None \<Rightarrow> (case x_op xdrs of
                XDR_DECODE \<Rightarrow> Some (zero, mem_zalloc sz xdrs)
              | _ \<Rightarrow> None)) of
        None \<Rightarrow> (x_op xdrs = XDR_FREE, None, xdrs)
      | Some (loc, xdrs) \<Rightarrow>
          (case proc xdrs loc of
             (stat, loc, xdrs) \<Rightarrow>
               if x_op xdrs = XDR_FREE then (stat, None, mem_free (unat sz) xdrs)
               else (stat, Some loc, xdrs)))"

definition xdr_pointer ::
    "'a ops \<Rightarrow> u32 \<Rightarrow> 'v \<Rightarrow> ('a rpc_xdr_scheme, 'v) xdrproc \<Rightarrow>
     ('a rpc_xdr_scheme, 'v option) xdrproc" where
  "xdr_pointer ops obj_size zero xdr_obj xdrs objpp =
     (case xdr_bool ops xdrs (if objpp \<noteq> None then 1 else 0) of
        (False, more_data, xdrs) \<Rightarrow> (False, objpp, xdrs)
      | (True, more_data, xdrs) \<Rightarrow>
          if more_data = 0 then (True, None, xdrs)
          else xdr_reference obj_size zero xdr_obj xdrs objpp)"

text \<open>
  The filters of structures and messages are written in C as \<^verbatim>\<open>if (!xdr_a(xdrs, &p->a)) return false;\<close>
  for one member after the other.  \<open>xdr_field\<close> applies a filter to a member, \<open>xdr_then\<close> goes on to
  the next if it succeeded; \<open>on_ok\<close> is the same sequence for putters.
\<close>

definition xdr_field :: "('x, 'v) xdrproc \<Rightarrow> ('o \<Rightarrow> 'v) \<Rightarrow> ('v \<Rightarrow> 'o \<Rightarrow> 'o) \<Rightarrow> ('x, 'o) xdrproc" where
  "xdr_field f get put xdrs objp = (case f xdrs (get objp) of (b, v, xdrs) \<Rightarrow> (b, put v objp, xdrs))"

definition xdr_then :: "('x, 'o) xdrproc \<Rightarrow> ('x, 'o) xdrproc \<Rightarrow> ('x, 'o) xdrproc" where
  "xdr_then f g xdrs objp =
     (case f xdrs objp of
        (False, objp, xdrs) \<Rightarrow> (False, objp, xdrs)
      | (True, objp, xdrs) \<Rightarrow> g xdrs objp)"

definition on_ok :: "bool \<times> 'x \<Rightarrow> ('x \<Rightarrow> bool \<times> 'x) \<Rightarrow> bool \<times> 'x" where
  "on_ok r f = (case r of (False, xdrs) \<Rightarrow> (False, xdrs) | (True, xdrs) \<Rightarrow> f xdrs)"

lemma on_ok_simps [simp]: "on_ok (False, x) f = (False, x)" "on_ok (True, x) f = f x"
  by (simp_all add: on_ok_def)

text \<open>
  \<^verbatim>\<open>xdr_free_null_stream\<close> is a handle on no buffer that only frees; the model takes the process state
  from the handle it is given.
\<close>

definition xdr_free_null_stream :: "'a rpc_xdr_scheme \<Rightarrow> 'a rpc_xdr_scheme" where
  "xdr_free_null_stream xdrs = xdrs\<lparr>x_op := XDR_FREE, x_data := NULL, x_base := VioNull,
     x_v := \<lparr>vio_base = NULL, vio_head = NULL, vio_tail = NULL, vio_wrap = NULL, vio_length = 0,
       vio_type = VIO_HEADER\<rparr>\<rparr>"

definition xdr_nfree :: "('a rpc_xdr_scheme, 'v) xdrproc \<Rightarrow> ('a rpc_xdr_scheme, 'v) xdrproc" where
  "xdr_nfree proc xdrs objp = proc (xdr_free_null_stream xdrs) objp"

section \<open>Decoding and encoding\<close>

context xdr_reader
begin

lemma decodes_field:
  "decodes (\<lambda>x. f x (get p)) e v \<Longrightarrow> decodes (\<lambda>x. xdr_field f get put x p) e (put v p)"
  by (erule decodes_map) (simp add: xdr_field_def)

lemma decodes_then:
  "decodes (\<lambda>x. f x p) e1 p1 \<Longrightarrow> decodes (\<lambda>x. g x p1) e2 p2 \<Longrightarrow>
   decodes (\<lambda>x. xdr_then f g x p) (e1 @ e2) p2"
  by (erule (1) decodes_bind [where g = "\<lambda>p1 x. g x p1"]) (simp add: xdr_then_def)

lemma decodes_union:
  assumes "(case map_of choices d of Some proc \<Rightarrow> Some proc | None \<Rightarrow> dfault) = Some proc"
    and "decodes (\<lambda>x. proc x u0) e u"
  shows "decodes (\<lambda>x. xdr_union ops choices dfault x (d0, u0)) (be32 d @ e) (d, u)"
proof (rule decodes_bind [OF decodes_enum [of d0]])
  show "decodes (\<lambda>x. case proc x u0 of (b, u, x) \<Rightarrow> (b, (d, u), x)) e (d, u)"
    by (rule decodes_map [OF assms(2)]) simp
qed (use assms(1) in \<open>auto simp: xdr_union_def split: option.splits\<close>)

lemma decodes_union_bad:
  assumes "map_of choices d = None" "ready x" "rd x = be32 d @ rest"
  shows "fst (xdr_union ops choices None x (d0, u0)) = False"
  by (rule decodesE [OF decodes_enum assms(2,3), of d0]) (use assms(1) in \<open>simp add: xdr_union_def\<close>)

lemma decodes_elems:
  assumes "list_all2 (\<lambda>(v0, v) e. decodes (\<lambda>x. f x v0) e v) (zip vs0 vs) es" "length vs0 = length vs"
  shows "decodes (\<lambda>x. xdr_elems f x vs0 (length vs)) (concat es) vs"
  using assms
proof (induction vs arbitrary: vs0 es)
  case Nil
  then show ?case using decodes_return by simp
next
  case (Cons v vs)
  then obtain v0 vs0' where vs0: "vs0 = v0 # vs0'" by (cases vs0) auto
  with Cons.prems obtain e es' where es: "es = e # es'" "decodes (\<lambda>x. f x v0) e v"
      "list_all2 (\<lambda>(v0, v) e. decodes (\<lambda>x. f x v0) e v) (zip vs0' vs) es'"
    by (auto simp: list_all2_Cons1)
  have "decodes (\<lambda>x. case xdr_elems f x vs0' (length vs) of (b, t, x) \<Rightarrow> (b, v # t, x)) (concat es') (v # vs)"
    by (rule decodes_map [OF Cons.IH [OF es(3)]]) (use Cons.prems vs0 in simp_all)
  then have "decodes (\<lambda>x. xdr_elems f x vs0 (length (v # vs))) (e @ concat es') (v # vs)"
    by (rule decodes_bind [OF es(2)]) (simp add: vs0)
  with es(1) show ?case by simp
qed

lemma decodes_zalloc:
  assumes "decodes f e v"
  shows "decodes (\<lambda>x. f (mem_zalloc n x)) e v"
proof (rule decodesI)
  fix x rest assume "ready x" "rd x = e @ rest"
  then have "ready (mem_zalloc n x)" "rd (mem_zalloc n x) = e @ rest"
    by (simp_all add: mem_zalloc_def rd_mlog ready_def rinv_mlog phase_mlog)
  then show "\<exists>x'. f (mem_zalloc n x) = (True, v, x') \<and> ready x' \<and> rd x' = rest"
    by (rule decodesE [OF assms]) blast
qed

lemma decodes_array:
  assumes "maxsize \<le> 0xFFFFFFFF div selem" "length vs \<le> unat maxsize"
    and "list_all2 (\<lambda>v e. decodes (\<lambda>x. f x zero) e v) vs es"
  shows "decodes (\<lambda>x. xdr_array ops maxsize selem zero f x (None, n0))
    (be32 (of_nat (length vs)) @ concat es) (if vs = [] then None else Some vs, of_nat (length vs))"
proof (rule decodesI)
  let ?n = "of_nat (length vs) :: u32"
  fix x rest assume x: "ready x" "rd x = (be32 ?n @ concat es) @ rest"
  obtain x1 where x1: "xdr_getuint32 ops x 0 = (True, ?n, x1)" "ready x1" "rd x1 = concat es @ rest"
    using decodesE [OF decodes_getuint32 x(1), of ?n "concat es @ rest" 0] x(2) by auto
  have n: "unat ?n = length vs" "\<not> maxsize < ?n" "\<not> 0xFFFFFFFF div selem < maxsize"
    using unat_of_nat_le [OF assms(2)] assms(1,2) by (auto simp: word_le_nat_alt not_less)
  note d = xdr_array_def xdr_array_decode_def x1(1) n
  show "\<exists>x'. xdr_array ops maxsize selem zero f x (None, n0) =
      (True, (if vs = [] then None else Some vs, ?n), x') \<and> ready x' \<and> rd x' = rest"
  proof (cases "vs = []")
    case True
    with x x1 assms(3) n show ?thesis by (simp add: d ready_def)
  next
    case False
    with n have nz: "?n \<noteq> 0" by (metis length_0_conv unat_0)
    have "list_all2 (\<lambda>(v0, v) e. decodes (\<lambda>x. f x v0) e v) (zip (replicate (length vs) zero) vs) es"
      using assms(3) by (simp add: list_all2_conv_all_nth)
    then have "decodes (\<lambda>x. xdr_elems f x (replicate (length vs) zero) (length vs)) (concat es) vs"
      by (rule decodes_elems) simp
    from decodesE [OF decodes_zalloc [OF this, of "?n * selem"] x1(2,3)]
    obtain x2 where "xdr_elems f (mem_zalloc (?n * selem) x1) (replicate (length vs) zero) (length vs) = (True, vs, x2)"
        "ready x2" "rd x2 = rest" by blast
    with False nz x(1) show ?thesis by (simp add: d ready_def)
  qed
qed

lemma decodes_reference:
  assumes "decodes (\<lambda>x. f x zero) e v"
  shows "decodes (\<lambda>x. xdr_reference sz zero f x None) e (Some v)"
proof (rule decodesI)
  fix x rest assume x: "ready x" "rd x = e @ rest"
  then obtain x1 where x1: "f (mem_zalloc sz x) zero = (True, v, x1)" "ready x1" "rd x1 = rest"
    by (rule decodesE [OF decodes_zalloc [OF assms]])
  with x(1) show "\<exists>x'. xdr_reference sz zero f x None = (True, Some v, x') \<and> ready x' \<and> rd x' = rest"
    by (simp add: xdr_reference_def ready_def)
qed

lemma decodes_pointer_Some:
  assumes "decodes (\<lambda>x. f x zero) e v"
  shows "decodes (\<lambda>x. xdr_pointer ops sz zero f x None) (be32 1 @ e) (Some v)"
  by (rule decodes_bind [OF decodes_bool [of 0] decodes_reference [where f = f and zero = zero, OF assms]]) (simp add: xdr_pointer_def)

lemma decodes_pointer_None: "decodes (\<lambda>x. xdr_pointer ops sz zero f x p) (be32 0) None"
  by (rule decodes_map [OF decodes_bool [of "if p \<noteq> None then 1 else 0"]]) (simp add: xdr_pointer_def)

end

context xdr_writer
begin

lemma encodes_field:
  "encodes (\<lambda>x. f x (get p)) e v \<Longrightarrow> encodes (\<lambda>x. xdr_field f get put x p) e (put v p)"
  by (erule encodes_map) (simp add: xdr_field_def)

lemma encodes_then:
  "encodes (\<lambda>x. f x p) e1 p1 \<Longrightarrow> encodes (\<lambda>x. g x p1) e2 p2 \<Longrightarrow>
   encodes (\<lambda>x. xdr_then f g x p) (e1 @ e2) p2"
  by (erule (1) encodes_bind [where g = "\<lambda>p1 x. g x p1"]) (simp add: xdr_then_def)

lemma emits_then: "emits f e1 \<Longrightarrow> emits g e2 \<Longrightarrow> emits (\<lambda>x. on_ok (f x) g) (e1 @ e2)"
  by (erule (1) emits_bind) simp

lemma encodes_union:
  assumes "(case map_of choices d of Some proc \<Rightarrow> Some proc | None \<Rightarrow> dfault) = Some proc"
    and "encodes (\<lambda>x. proc x u) e u'"
  shows "encodes (\<lambda>x. xdr_union ops choices dfault x (d, u)) (be32 d @ e) (d, u')"
proof (rule encodes_bind [OF encodes_enum])
  show "encodes (\<lambda>x. case proc x u of (b, u, x) \<Rightarrow> (b, (d, u), x)) e (d, u')"
    by (rule encodes_map [OF assms(2)]) simp
qed (use assms(1) in \<open>auto simp: xdr_union_def split: option.splits\<close>)

lemma encodes_elems:
  assumes "list_all2 (\<lambda>v e. encodes (\<lambda>x. f x v) e v) vs es"
  shows "encodes (\<lambda>x. xdr_elems f x vs (length vs)) (concat es) vs"
  using assms
proof (induction vs arbitrary: es)
  case Nil
  then show ?case using encodes_return by simp
next
  case (Cons v vs)
  then obtain e es' where es: "es = e # es'" "encodes (\<lambda>x. f x v) e v"
      "list_all2 (\<lambda>v e. encodes (\<lambda>x. f x v) e v) vs es'"
    by (auto simp: list_all2_Cons1)
  have "encodes (\<lambda>x. case xdr_elems f x vs (length vs) of (b, t, x) \<Rightarrow> (b, v # t, x)) (concat es') (v # vs)"
    by (rule encodes_map [OF Cons.IH [OF es(3)]]) simp
  then have "encodes (\<lambda>x. xdr_elems f x (v # vs) (length (v # vs))) (e @ concat es') (v # vs)"
    by (rule encodes_bind [OF es(2)]) simp
  with es(1) show ?case by simp
qed

lemma encodes_array:
  assumes "length vs \<le> unat maxsize" "list_all2 (\<lambda>v e. encodes (\<lambda>x. f x v) e v) vs es"
  shows "encodes (\<lambda>x. xdr_array ops maxsize selem zero f x (Some vs, of_nat (length vs)))
    (be32 (of_nat (length vs)) @ concat es) (Some vs, of_nat (length vs))"
proof -
  let ?n = "of_nat (length vs) :: u32"
  have n: "unat ?n = length vs" "\<not> maxsize < ?n"
    using unat_of_nat_le [OF assms(1)] assms(1) by (auto simp: word_le_nat_alt not_less)
  have "encodes (\<lambda>x. keep () (xdr_putuint32 ops x ?n)) (be32 ?n) ()"
    by (rule encodes_emits [OF emits_putuint32]) simp
  moreover have "encodes (\<lambda>x. case xdr_elems f x vs (length vs) of (b, t, x) \<Rightarrow> (b, (Some t, ?n), x))
      (concat es) (Some vs, ?n)"
    by (rule encodes_map [OF encodes_elems [OF assms(2)]]) simp
  ultimately have "encodes (\<lambda>x. xdr_array_encode ops maxsize f x (Some vs, ?n)) (be32 ?n @ concat es) (Some vs, ?n)"
    by (rule encodes_bind) (auto simp: xdr_array_encode_def n keep_def split: prod.splits)
  then show ?thesis
    by (rule encodes_map) (simp add: xdr_array_def writable_def)
qed

lemma encodes_reference:
  assumes "encodes (\<lambda>x. f x v) e v"
  shows "encodes (\<lambda>x. xdr_reference sz zero f x (Some v)) e (Some v)"
proof (rule encodesI)
  fix x k assume "writable x" "fits x (length e + k)"
  with encodesE [OF assms this] obtain x' where "f x v = (True, v, x')" "writable x'" "wr x' = wr x @ e"
      "fits x' k" "anchor x' = anchor x" by blast
  then show "\<exists>x'. xdr_reference sz zero f x (Some v) = (True, Some v, x') \<and> writable x' \<and>
      wr x' = wr x @ e \<and> fits x' k \<and> anchor x' = anchor x"
    by (simp add: xdr_reference_def writable_def)
qed

lemma encodes_pointer_Some:
  assumes "encodes (\<lambda>x. f x v) e v"
  shows "encodes (\<lambda>x. xdr_pointer ops sz zero f x (Some v)) (be32 1 @ e) (Some v)"
  by (rule encodes_bind [OF encodes_bool [of 1, simplified] encodes_reference [where f = f and v = v, OF assms]])
    (simp add: xdr_pointer_def)

lemma encodes_pointer_None: "encodes (\<lambda>x. xdr_pointer ops sz zero f x None) (be32 0) None"
  by (rule encodes_map [OF encodes_bool [of 0, simplified]]) (simp add: xdr_pointer_def)

end

section \<open>Properties\<close>

text \<open>The check of \<^verbatim>\<open>maxsize\<close> keeps the product of a length that is accepted and the element size in 32 bits.\<close>

lemma array_size_exact:
  fixes n maxsize selem :: u32
  assumes "maxsize \<le> 0xFFFFFFFF div selem" "n \<le> maxsize"
  shows "unat (n * selem) = unat n * unat selem"
proof -
  have "unat n \<le> unat (0xFFFFFFFF div selem)"
    using assms by (simp add: word_le_nat_alt)
  then have "unat n \<le> 0xFFFFFFFF div unat selem"
    by (simp add: unat_div)
  then have "unat n * unat selem \<le> 0xFFFFFFFF"
    by (metis div_times_less_eq_dividend le_trans mult_le_mono1)
  then show ?thesis
    by (simp add: unat_word_ariths)
qed

text \<open>
  C15: For every element filter that writes and reads its elements correctly on a memory stream, an
  array of them, of any length up to \<^verbatim>\<open>maxsize\<close>, round-trips through \<^verbatim>\<open>xdr_array\<close> into a null pointer,
  provided that \<^verbatim>\<open>maxsize\<close> passes the overflow check of \<^verbatim>\<open>xdr_array_decode\<close>.
\<close>

theorem xdr_array_roundtrip:
  assumes "a \<noteq> NULL" "a mod 4 = 0" "4 + length (concat es) \<le> unat sz"
    and "list_all2 (\<lambda>v e. mem_w.encodes (\<lambda>x. f x v) e v \<and> mem_r.decodes (\<lambda>x. f x zero) e v) vs es"
    and "maxsize \<le> 0xFFFFFFFF div selem" "length vs \<le> unat maxsize"
  shows "mem_transfer a sz (\<lambda>x. xdr_array xdrmem_ops_aligned maxsize selem zero f x (Some vs, of_nat (length vs)))
      (\<lambda>x. xdr_array xdrmem_ops_aligned maxsize selem zero f x (None, n0)) xdrs =
    Some (if vs = [] then None else Some vs, of_nat (length vs))"
proof -
  have "list_all2 (\<lambda>v e. mem_w.encodes (\<lambda>x. f x v) e v) vs es"
      "list_all2 (\<lambda>v e. mem_r.decodes (\<lambda>x. f x zero) e v) vs es"
    using assms(4) by (auto simp: list_all2_conv_all_nth)
  from mem_w.encodes_array [where f = f, OF assms(6) this(1)] mem_r.decodes_array [where f = f and zero = zero, OF assms(5,6) this(2)]
  show ?thesis by (rule mem_transfer_ok) (use assms in simp_all)
qed

theorem xdr_array_roundtrip_witness:
  "mem_transfer 8 32 (\<lambda>x. xdr_array xdrmem_ops_aligned 16 4 0 (xdr_int xdrmem_ops_aligned) x (Some [5, - 6], 2))
      (\<lambda>x. xdr_array xdrmem_ops_aligned 16 4 0 (xdr_int xdrmem_ops_aligned) x (None, 0)) xdr_blank =
    Some (Some [5, - 6], 2)"
proof -
  have "list_all2 (\<lambda>v e. mem_w.encodes (\<lambda>x. xdr_int xdrmem_ops_aligned x v) e v \<and>
      mem_r.decodes (\<lambda>x. xdr_int xdrmem_ops_aligned x 0) e v) [5, - 6] [be32 5, be32 (- 6)]"
    by (simp add: mem_w.encodes_int mem_r.decodes_int)
  from xdr_array_roundtrip [OF _ _ _ this, of 8 32 16 4 0 xdr_blank] show ?thesis by simp
qed

text \<open>
  C16: The block that \<^verbatim>\<open>xdr_array_decode\<close> allocates has exactly the room of the elements that are decoded into it, for every
  element size but 0 and every length word that arrives: it asks for the true product of length and element
  size, which has not wrapped around 32 bits, and decodes that many elements.  A \<^verbatim>\<open>maxsize\<close> for which the product could
  wrap, a length above \<^verbatim>\<open>maxsize\<close> and a stream without a length word are refused before anything is allocated; the
  length 0 allocates nothing.
\<close>

theorem xdr_array_size_no_wrap:
  assumes "mem_r.ready x" "selem \<noteq> 0"
  defines "n \<equiv> of_be32 (take 4 (mem_rd x))"
  shows "if maxsize > 0xFFFFFFFF div selem \<or> length (mem_rd x) < 4 \<or> n > maxsize
    then \<exists>y. xdr_array_decode xdrmem_ops_aligned maxsize selem zero f x (None, s0) = (False, (None, s0), y) \<and> mlog y = mlog x
    else if n = 0
    then \<exists>y. xdr_array_decode xdrmem_ops_aligned maxsize selem zero f x (None, s0) = (True, (None, 0), y) \<and> mlog y = mlog x
    else \<exists>y. mem_rd y = drop 4 (mem_rd x) \<and> mlog y = Mem_alloc (unat n * unat selem) # mlog x \<and>
      xdr_array_decode xdrmem_ops_aligned maxsize selem zero f x (None, s0) =
        (case xdr_elems f y (replicate (unat n) zero) (unat n) of (stat, target, z) \<Rightarrow> (stat, (Some target, n), z))"
proof (cases "maxsize > 0xFFFFFFFF div selem")
  case True
  then show ?thesis by (simp add: xdr_array_decode_def)
next
  case m: False
  from assms(1) show ?thesis
  proof (cases rule: mem_r.getuint32_cases [where ip = 0])
    case short
    with m show ?thesis by (simp add: xdr_array_decode_def)
  next
    case (ok x1)
    then have e: "xdr_getuint32 xdrmem_ops_aligned x 0 = (True, n, x1)" by (simp add: n_def)
    have w: "unat (n * selem) = unat n * unat selem" if "n \<le> maxsize" using array_size_exact [OF _ that] m by simp
    let ?y = "mem_zalloc (n * selem) x1"
    have "mem_rd ?y = mem_rd x1" "mlog ?y = Mem_alloc (unat (n * selem)) # mlog x1" by (simp_all add: mem_zalloc_def mem_rd_def)
    with m ok e w show ?thesis by (auto simp: xdr_array_decode_def not_less intro!: exI [of _ ?y])
  qed
qed

theorem xdr_array_size_no_wrap_witness:
  "(\<exists>y. mlog y = [Mem_alloc 12] \<and>
     xdr_array_decode xdrmem_ops_aligned 0x3FFFFFFF 4 () (\<lambda>x v. (True, v, x)) (xdr_demo_read (be32 3)) (None, 0) =
       (case xdr_elems (\<lambda>x v. (True, v, x)) y (replicate 3 ()) 3 of (stat, target, z) \<Rightarrow> (stat, (Some target, 3), z))) \<and>
   (\<exists>y. xdr_array_decode xdrmem_ops_aligned 0x40000000 4 () (\<lambda>x v. (True, v, x)) (xdr_demo_read (be32 3)) (None, 0) =
     (False, (None, 0), y))"
proof -
  have d: "mem_r.ready (xdr_demo_read (be32 3))" "mem_rd (xdr_demo_read (be32 3)) = be32 3" "mlog (xdr_demo_read (be32 3)) = []"
    using xdr_demo_read_ready [of "be32 3"] by simp_all
  note t = xdr_array_size_no_wrap [OF d(1), of 4, unfolded d]
  show ?thesis
    using t [of "0x3FFFFFFF" "()" "\<lambda>x v. (True, v, x)" 0] t [of "0x40000000" "()" "\<lambda>x v. (True, v, x)" 0] by auto
qed

end
