(* ===== verification/Rpc_Auth.thy ===== *)
theory Rpc_Auth
  imports Xdr_Compound
begin

text \<open>
  Authenticators as they travel in RPC messages: \<^verbatim>\<open>struct opaque_auth\<close> of \<^verbatim>\<open>ntirpc/rpc/auth.h\<close> and the
  routines of \<^verbatim>\<open>ntirpc/rpc/auth_inline.h\<close>.  The message routines reserve space for several units at
  once and fill it with the \<^verbatim>\<open>IXDR\<close> macros; the second part has the lemmas on that style of code: what
  is stored at a pointer that moves, and how loads from reserved space read the stream.
\<close>

section \<open>Authenticators\<close>

text \<open>\<^verbatim>\<open>oa_body\<close> is an array of \<^verbatim>\<open>MAX_AUTH_BYTES\<close>, 400, bytes.\<close>

record opaque_auth =
  oa_flavor :: u32
  oa_length :: u32
  oa_body :: bytes

abbreviation MAX_AUTH_BYTES :: u32 where
  "MAX_AUTH_BYTES \<equiv> 400"

definition xdr_opaque_auth_encode_it ::
    "'a ops \<Rightarrow> 'a rpc_xdr_scheme \<Rightarrow> opaque_auth \<Rightarrow> bool \<times> 'a rpc_xdr_scheme" where
  "xdr_opaque_auth_encode_it ops xdrs oa =
     (if oa_length oa > MAX_AUTH_BYTES then (False, xdrs)
      else xdr_opaque_encode ops xdrs (oa_body oa) (oa_length oa))"

definition xdr_opaque_auth_encode ::
    "'a ops \<Rightarrow> 'a rpc_xdr_scheme \<Rightarrow> opaque_auth \<Rightarrow> bool \<times> 'a rpc_xdr_scheme" where
  "xdr_opaque_auth_encode ops xdrs oa =
     (case xdr_putenum ops xdrs (oa_flavor oa) of
        (False, xdrs) \<Rightarrow> (False, xdrs)
      | (True, xdrs) \<Rightarrow>
          (case xdr_putuint32 ops xdrs (oa_length oa) of
             (False, xdrs) \<Rightarrow> (False, xdrs)
           | (True, xdrs) \<Rightarrow>
               if oa_length oa \<noteq> 0 then xdr_opaque_auth_encode_it ops xdrs oa
               else (True, xdrs)))"

definition xdr_opaque_auth_decode_it ::
    "'a ops \<Rightarrow> ('a rpc_xdr_scheme, opaque_auth) xdrproc" where
  "xdr_opaque_auth_decode_it ops xdrs oa =
     (if oa_length oa > MAX_AUTH_BYTES then (False, oa, xdrs)
      else
        case xdr_opaque_decode ops xdrs (oa_body oa) (oa_length oa) of
          (b, body, xdrs) \<Rightarrow> (b, oa\<lparr>oa_body := body\<rparr>, xdrs))"

text \<open>\<^verbatim>\<open>buf\<close> is \<^verbatim>\<open>NULL\<close> or the address of two units that have been reserved in line.\<close>

definition xdr_opaque_auth_decode ::
    "'a ops \<Rightarrow> 'a rpc_xdr_scheme \<Rightarrow> opaque_auth \<Rightarrow> addr \<Rightarrow> bool \<times> opaque_auth \<times> 'a rpc_xdr_scheme" where
  "xdr_opaque_auth_decode ops xdrs oa buf =
     (case (if buf \<noteq> NULL then
              case IXDR_GET_U_INT32 (heap xdrs) buf of
                (flavor, buf) \<Rightarrow>
                  (case IXDR_GET_U_INT32 (heap xdrs) buf of
                     (len, buf) \<Rightarrow> (True, oa\<lparr>oa_flavor := flavor, oa_length := len\<rparr>, xdrs))
            else
              case xdr_getenum ops xdrs (oa_flavor oa) of
                (False, flavor, xdrs) \<Rightarrow> (False, oa\<lparr>oa_flavor := flavor\<rparr>, xdrs)
              | (True, flavor, xdrs) \<Rightarrow>
                  (case xdr_getuint32 ops xdrs (oa_length oa) of
                     (b, len, xdrs) \<Rightarrow> (b, oa\<lparr>oa_flavor := flavor, oa_length := len\<rparr>, xdrs))) of
        (False, oa, xdrs) \<Rightarrow> (False, oa, xdrs)
      | (True, oa, xdrs) \<Rightarrow>
          if oa_length oa \<noteq> 0 then xdr_opaque_auth_decode_it ops xdrs oa
          else (True, oa, xdrs))"

definition xdr_opaque_auth :: "'a ops \<Rightarrow> ('a rpc_xdr_scheme, opaque_auth) xdrproc" where
  "xdr_opaque_auth ops xdrs oa =
     (case x_op xdrs of
        XDR_ENCODE \<Rightarrow> keep oa (xdr_opaque_auth_encode ops xdrs oa)
      | XDR_DECODE \<Rightarrow> xdr_opaque_auth_decode ops xdrs oa NULL
      | XDR_FREE \<Rightarrow> (True, oa, xdrs))"

section \<open>Wire format\<close>

text \<open>
  The bytes of an authenticator, with any padding \<open>p\<close>: flavor, length, body, padding.  Only the
  first \<^verbatim>\<open>oa_length\<close> bytes of the body travel.
\<close>

definition auth_ok :: "opaque_auth \<Rightarrow> bool" where
  "auth_ok oa \<longleftrightarrow> oa_length oa \<le> MAX_AUTH_BYTES \<and> length (oa_body oa) = 400"

definition auth_data :: "opaque_auth \<Rightarrow> bytes" where
  "auth_data oa = take (unat (oa_length oa)) (oa_body oa)"

definition auth_wire :: "opaque_auth \<Rightarrow> bytes \<Rightarrow> bool" where
  "auth_wire oa e \<longleftrightarrow> (\<exists>p. length p = padlen (unat (oa_length oa)) \<and>
     e = be32 (oa_flavor oa) @ be32 (oa_length oa) @ auth_data oa @ p)"

definition auth_size :: "opaque_auth \<Rightarrow> nat" where
  "auth_size oa = 8 + unat (RNDUP (oa_length oa))"

text \<open>The authenticator that decoding leaves in an object that held \<open>old\<close>.\<close>

definition auth_into :: "opaque_auth \<Rightarrow> opaque_auth \<Rightarrow> opaque_auth" where
  "auth_into oa old = old\<lparr>oa_flavor := oa_flavor oa, oa_length := oa_length oa,
     oa_body := overlay (auth_data oa) (oa_body old)\<rparr>"

lemma auth_ok_length: "auth_ok oa \<Longrightarrow> unat (oa_length oa) \<le> 400"
  by (simp add: auth_ok_def word_le_nat_alt)

lemma length_auth_data [simp]: "auth_ok oa \<Longrightarrow> length (auth_data oa) = unat (oa_length oa)"
  using auth_ok_length by (auto simp: auth_data_def auth_ok_def)

lemma round_up_padlen: "(n + 3) div 4 * 4 = n + padlen n"
proof -
  obtain q r where n: "n = 4 * q + r" "r < 4" by (metis mod_less_divisor mult_div_mod_eq zero_less_numeral)
  from n(2) consider "r = 0" | "r = 1" | "r = 2" | "r = 3" by linarith
  moreover have "padlen (4 * q + r) = (4 - r) mod 4" using n by (simp add: padlen_def)
  ultimately show ?thesis unfolding n(1) by cases simp_all
qed

lemma unat_RNDUP_auth: "auth_ok oa \<Longrightarrow> unat (RNDUP (oa_length oa)) = unat (oa_length oa) + padlen (unat (oa_length oa))"
  using auth_ok_length [of oa] by (simp add: unat_RNDUP round_up_padlen)

lemma auth_wire_length: "auth_ok oa \<Longrightarrow> auth_wire oa e \<Longrightarrow> length e = auth_size oa"
  by (auto simp: auth_wire_def auth_size_def unat_RNDUP_auth)

lemma auth_size_aligned: "auth_ok oa \<Longrightarrow> auth_size oa mod 4 = 0"
  using padlen_aligned [of "unat (oa_length oa)"] unfolding auth_size_def unat_RNDUP_auth
  by (metis mod_add_self1 mod_add_left_eq mod_mult_self1 mult_2 numeral_Bit0)

lemma auth_into_data [simp]: "auth_ok oa \<Longrightarrow> auth_data (auth_into oa old) = auth_data oa"
  unfolding auth_into_def by (subst auth_data_def) simp

section \<open>Filling reserved space\<close>

text \<open>
  \<open>filled m a mb e\<close>: starting from memory \<open>m\<close> with the pointer at \<open>a\<close>, the bytes \<open>e\<close> have been laid
  down, and the pointer has moved past them.  Bytes that are skipped keep their contents.
\<close>

definition filled :: "mem \<Rightarrow> addr \<Rightarrow> mem \<times> addr \<Rightarrow> bytes \<Rightarrow> bool" where
  "filled m a mb e \<longleftrightarrow> fst mb = write_bytes m a e \<and> snd mb = a + length e"

lemma filled_start: "filled m a (m, a) []"
  by (simp add: filled_def)

lemma filled_put: "filled m a mb e \<Longrightarrow> filled m a (IXDR_PUT_INT32 v mb) (e @ be32 v)"
  by (simp add: filled_def IXDR_PUT_INT32_def write_bytes_append)

lemma write_bytes_skip:
  "write_bytes m a (bs @ read_bytes m (a + length bs) n) = write_bytes m a bs"
  by (rule ext) (auto simp: write_bytes_def read_bytes_def nth_append)

lemma filled_copy:
  assumes "filled m a mb e"
  shows "filled m a (write_bytes (fst mb) (snd mb) bs, snd mb + length bs + n)
    (e @ bs @ read_bytes m (a + length e + length bs) n)"
proof -
  have "write_bytes m a ((e @ bs) @ read_bytes m (a + length (e @ bs)) n) = write_bytes m a (e @ bs)"
    by (rule write_bytes_skip)
  with assms show ?thesis by (simp add: filled_def write_bytes_append add.assoc)
qed

text \<open>
  The in-line form of an authenticator, as the message encoders write it: two units, the body, and a
  pointer moved past the rounded length; the padding is not written.
\<close>

definition ixdr_put_auth :: "opaque_auth \<Rightarrow> mem \<times> addr \<Rightarrow> mem \<times> addr" where
  "ixdr_put_auth oa mb =
     (let mb = IXDR_PUT_INT32 (oa_flavor oa) mb;
          mb = IXDR_PUT_INT32 (oa_length oa) mb in
      if oa_length oa \<noteq> 0 then
        (write_bytes (fst mb) (snd mb) (take (unat (oa_length oa)) (oa_body oa)),
         snd mb + 4 * unat (RNDUP (oa_length oa) div 4))
      else mb)"

lemma RNDUP_div_4: "auth_ok oa \<Longrightarrow>
    4 * unat (RNDUP (oa_length oa) div 4) = unat (oa_length oa) + padlen (unat (oa_length oa))"
  using padlen_aligned [of "unat (oa_length oa)"] unat_RNDUP_auth [of oa]
  by (simp add: unat_div dvd_imp_mod_0 mod_eq_0_iff_dvd)

lemma filled_auth:
  assumes oa: "auth_ok oa" and f: "filled m a mb e"
  shows "\<exists>e'. auth_wire oa e' \<and> filled m a (ixdr_put_auth oa mb) (e @ e')"
proof -
  let ?mb = "IXDR_PUT_INT32 (oa_length oa) (IXDR_PUT_INT32 (oa_flavor oa) mb)"
  let ?h = "be32 (oa_flavor oa) @ be32 (oa_length oa)"
  have h: "filled m a ?mb (e @ ?h)" using filled_put [OF filled_put [OF f]] by simp
  show ?thesis
  proof (cases "oa_length oa = 0")
    case True
    then show ?thesis
      using h by (intro exI [of _ ?h]) (simp add: auth_wire_def auth_data_def ixdr_put_auth_def)
  next
    case False
    let ?n = "padlen (unat (oa_length oa))"
    let ?p = "read_bytes m (a + length (e @ ?h) + length (auth_data oa)) ?n"
    have "filled m a (ixdr_put_auth oa mb) (e @ (?h @ auth_data oa @ ?p))"
      using filled_copy [OF h, of "auth_data oa" ?n] False oa RNDUP_div_4 [OF oa]
      by (simp add: ixdr_put_auth_def auth_data_def [symmetric] add.assoc)
    moreover have "auth_wire oa (?h @ auth_data oa @ ?p)"
      by (auto simp: auth_wire_def intro!: exI [of _ ?p])
    ultimately show ?thesis by blast
  qed
qed

section \<open>Reading reserved space\<close>

definition words :: "u32 list \<Rightarrow> bytes" where
  "words ws = concat (map be32 ws)"

lemma words_simps [simp]: "words [] = []" "words (w # ws) = be32 w @ words ws"
  by (simp_all add: words_def)

lemma length_words [simp]: "length (words ws) = 4 * length ws"
  by (induction ws) simp_all

lemma load_words:
  "read_bytes m a (4 * length ws) = words ws \<Longrightarrow> i < length ws \<Longrightarrow> load32 m (a + 4 * i) = ws ! i"
proof (induction ws arbitrary: a i)
  case (Cons w ws)
  have "read_bytes m a (4 * length (w # ws)) = read_bytes m a 4 @ read_bytes m (a + 4) (4 * length ws)"
    using read_bytes_add [of m a 4 "4 * length ws"] by simp
  with Cons.prems(1) have "read_bytes m a 4 = be32 w" "read_bytes m (a + 4) (4 * length ws) = words ws"
    by (simp_all add: append_eq_append_conv)
  with Cons.IH [of "a + 4" "i - 1"] Cons.prems(2) show ?case
    by (cases i) (simp_all add: add.assoc)
qed simp

context xdr_reader
begin

text \<open>
  Reserving the next \<open>length ws\<close> units in line either fails and changes nothing, or moves the stream
  past them and leaves their values to be loaded.
\<close>

lemma inline_decode_words:
  assumes "ready x" "rd x = words ws @ rest" "n = 4 * length ws"
  obtains (no) "xdr_inline_decode x n = (NULL, x)"
    | (yes) x' where "xdr_inline_decode x n = (x_data x, x')" "x_data x \<noteq> NULL" "ready x'" "rd x' = rest"
      "heap x' = heap x" "\<And>i. i < length ws \<Longrightarrow> load32 (heap x) (x_data x + 4 * i) = ws ! i"
proof (cases "x_data x + n \<le> vio_tail (x_v x)")
  case False
  then show ?thesis using no by (simp add: xdr_inline_decode_def)
next
  case True
  let ?x = "x\<lparr>x_data := x_data x + n\<rparr>"
  have inv: "rinv x" using assms(1) by (simp add: ready_def)
  have "words ws @ rest = read_bytes (heap x) (x_data x) n @ rd ?x"
    using inline_rd [OF inv True] assms(2) by simp
  then have e: "read_bytes (heap x) (x_data x) (4 * length ws) = words ws" "rd ?x = rest"
    using assms(3) by (simp_all add: append_eq_append_conv)
  have r: "ready ?x"
    using assms inline_rinv [OF inv True] inline_phase [OF inv True] by (simp add: ready_def)
  show ?thesis
    by (rule yes [of ?x])
      (use True e r inv rinv_data load_words [OF e(1)] in \<open>simp_all add: xdr_inline_decode_def\<close>)
qed

lemma decodes_auth_body:
  assumes oa: "auth_ok oa" and p: "length p = padlen (unat (oa_length oa))"
    and o: "o1 = old\<lparr>oa_flavor := oa_flavor oa, oa_length := oa_length oa\<rparr>"
  shows "decodes (\<lambda>x. if oa_length o1 \<noteq> 0 then xdr_opaque_auth_decode_it ops x o1 else (True, o1, x))
    (auth_data oa @ p) (auth_into oa old)"
proof (cases "oa_length oa = 0")
  case True
  then show ?thesis using p decodes_return by (simp add: o auth_data_def auth_into_def)
next
  case False
  have "decodes (\<lambda>x. xdr_opaque_decode ops x (oa_body old) (oa_length oa)) (auth_data oa @ p)
      (overlay (auth_data oa) (oa_body old))"
    by (rule decodes_opaque_decode) (use oa p in simp_all)
  then show ?thesis
    by (rule decodes_map) (use oa False in \<open>simp add: o xdr_opaque_auth_decode_it_def auth_ok_def
        auth_into_def not_less\<close>)
qed

lemma decodes_opaque_auth_decode:
  assumes oa: "auth_ok oa" and w: "auth_wire oa e"
  shows "decodes (\<lambda>x. xdr_opaque_auth_decode ops x old NULL) e (auth_into oa old)"
proof (rule decodesI)
  fix x rest assume x: "ready x" "rd x = e @ rest"
  from w obtain p where p: "length p = padlen (unat (oa_length oa))"
      "e = be32 (oa_flavor oa) @ be32 (oa_length oa) @ auth_data oa @ p"
    by (auto simp: auth_wire_def)
  obtain x1 where x1: "xdr_getenum ops x (oa_flavor old) = (True, oa_flavor oa, x1)" "ready x1"
      "rd x1 = be32 (oa_length oa) @ (auth_data oa @ p) @ rest"
    by (rule decodesE [OF decodes_getenum x(1)]) (use x(2) p in auto)
  obtain x2 where x2: "xdr_getuint32 ops x1 (oa_length old) = (True, oa_length oa, x2)" "ready x2"
      "rd x2 = (auth_data oa @ p) @ rest"
    by (rule decodesE [OF decodes_getuint32 x1(2,3)])
  show "\<exists>x'. xdr_opaque_auth_decode ops x old NULL = (True, auth_into oa old, x') \<and> ready x' \<and> rd x' = rest"
    by (rule decodesE [OF decodes_auth_body [OF oa p(1) refl, of old] x2(2,3)])
      (use x1(1) x2(1) in \<open>simp add: xdr_opaque_auth_decode_def\<close>)
qed

text \<open>The same with the first two units already reserved at \<open>buf\<close>.\<close>

lemma decodes_auth_inline:
  assumes oa: "auth_ok oa" and p: "length p = padlen (unat (oa_length oa))" and x: "ready x"
    and r: "rd x = (auth_data oa @ p) @ rest" and b: "buf \<noteq> NULL" "load32 (heap x) buf = oa_flavor oa"
      "load32 (heap x) (buf + 4) = oa_length oa"
  shows "\<exists>x'. xdr_opaque_auth_decode ops x old buf = (True, auth_into oa old, x') \<and> ready x' \<and> rd x' = rest"
  by (rule decodesE [OF decodes_auth_body [OF oa p refl, of old] x r])
    (use b in \<open>simp add: xdr_opaque_auth_decode_def IXDR_GET_U_INT32_def\<close>)

lemma opaque_auth_decode_too_long:
  assumes "ready x" "rd x = be32 f @ be32 n @ rest" "n > MAX_AUTH_BYTES"
  shows "fst (xdr_opaque_auth_decode ops x old NULL) = False"
proof -
  obtain x1 where x1: "xdr_getenum ops x (oa_flavor old) = (True, f, x1)" "ready x1" "rd x1 = be32 n @ rest"
    by (rule decodesE [OF decodes_getenum assms(1,2)])
  obtain x2 where "xdr_getuint32 ops x1 (oa_length old) = (True, n, x2)"
    by (rule decodesE [OF decodes_getuint32 x1(2,3)])
  with x1(1) assms(3) show ?thesis
    by (auto simp: xdr_opaque_auth_decode_def xdr_opaque_auth_decode_it_def)
qed

end

context xdr_writer
begin

lemma emits_opaque_auth_encode:
  assumes "auth_ok oa"
  shows "emits (\<lambda>x. xdr_opaque_auth_encode ops x oa)
    (be32 (oa_flavor oa) @ be32 (oa_length oa) @ enc_opaque (auth_data oa))"
proof (rule emits_bind [OF emits_putenum])
  let ?body = "\<lambda>x. if oa_length oa \<noteq> 0 then xdr_opaque_auth_encode_it ops x oa else (True, x)"
  have "emits ?body (enc_opaque (auth_data oa))"
  proof (cases "oa_length oa = 0")
    case True
    then show ?thesis using emits_return by (simp add: auth_data_def enc_opaque_def)
  next
    case False
    have "emits (\<lambda>x. xdr_opaque_encode ops x (oa_body oa) (oa_length oa)) (enc_opaque (auth_data oa))"
      unfolding auth_data_def using assms auth_ok_length [of oa]
      by (intro emits_opaque_encode) (simp add: auth_ok_def)
    moreover have "?body = (\<lambda>x. xdr_opaque_encode ops x (oa_body oa) (oa_length oa))"
      using False assms by (auto simp: fun_eq_iff xdr_opaque_auth_encode_it_def auth_ok_def dest: leD)
    ultimately show ?thesis by simp
  qed
  then show "emits (\<lambda>x. case xdr_putuint32 ops x (oa_length oa) of (False, x) \<Rightarrow> (False, x)
      | (True, x) \<Rightarrow> ?body x) (be32 (oa_length oa) @ enc_opaque (auth_data oa))"
    by (rule emits_bind [OF emits_putuint32]) simp
qed (simp add: xdr_opaque_auth_encode_def)

end

lemma auth_wire_zero_pad:
  "auth_ok oa \<Longrightarrow> auth_wire oa (be32 (oa_flavor oa) @ be32 (oa_length oa) @ enc_opaque (auth_data oa))"
  by (auto simp: auth_wire_def enc_opaque_def)

end
