(* ===== verification/Rpc_Msg.thy ===== *)
theory Rpc_Msg
  imports Rpc_Auth
begin

text \<open>
  RPC messages: \<^verbatim>\<open>struct rpc_msg\<close> of \<^verbatim>\<open>ntirpc/rpc/rpc_msg.h\<close>, the call messages of \<^verbatim>\<open>src/rpc_callmsg.c\<close>,
  the replies of \<^verbatim>\<open>src/rpc_prot.c\<close> and the duplex encoder and decoder of \<^verbatim>\<open>src/rpc_dplx_msg.c\<close>.  The
  enumerations are units on the wire and words here.  The members of a C union are separate members
  of a record; the discriminant says which of them is meaningful.  The members \<^verbatim>\<open>rm_xdr\<close>, \<^verbatim>\<open>rm_flags\<close> and
  \<^verbatim>\<open>rq_cred_body\<close> are not used by these routines.
\<close>

section \<open>Messages\<close>

abbreviation CALL :: u32 where "CALL \<equiv> 0"
abbreviation REPLY :: u32 where "REPLY \<equiv> 1"
abbreviation MSG_ACCEPTED :: u32 where "MSG_ACCEPTED \<equiv> 0"
abbreviation MSG_DENIED :: u32 where "MSG_DENIED \<equiv> 1"
abbreviation SUCCESS :: u32 where "SUCCESS \<equiv> 0"
abbreviation PROG_UNAVAIL :: u32 where "PROG_UNAVAIL \<equiv> 1"
abbreviation PROG_MISMATCH :: u32 where "PROG_MISMATCH \<equiv> 2"
abbreviation PROC_UNAVAIL :: u32 where "PROC_UNAVAIL \<equiv> 3"
abbreviation GARBAGE_ARGS :: u32 where "GARBAGE_ARGS \<equiv> 4"
abbreviation SYSTEM_ERR :: u32 where "SYSTEM_ERR \<equiv> 5"
abbreviation RPC_MISMATCH :: u32 where "RPC_MISMATCH \<equiv> 0"
abbreviation AUTH_ERROR :: u32 where "AUTH_ERROR \<equiv> 1"
abbreviation RPC_MSG_VERSION :: u32 where "RPC_MSG_VERSION \<equiv> 2"

record rpcversions =
  low :: u32
  high :: u32

text \<open>\<^verbatim>\<open>ar_results\<close> is a filter and the object it is applied to.\<close>

record ('x, 'r) accepted_reply =
  ar_stat :: u32
  ar_vers :: rpcversions
  ar_proc :: "('x, 'r) xdrproc"
  ar_where :: 'r
  ar_verf :: opaque_auth

record rejected_reply =
  rj_stat :: u32
  rj_vers :: rpcversions
  rj_why :: u32

record ('x, 'r) reply_body =
  rp_stat :: u32
  rp_acpt :: "('x, 'r) accepted_reply"
  rp_rjct :: rejected_reply

record ('x, 'r) rpc_msg =
  rm_xid :: u32
  rm_direction :: u32
  cb_rpcvers :: u32
  rm_reply :: "('x, 'r) reply_body"
  cb_prog :: u32
  cb_vers :: u32
  cb_proc :: u32
  cb_cred :: opaque_auth
  cb_verf :: opaque_auth

type_synonym ('a, 'r) msg = "('a rpc_xdr_scheme, 'r) rpc_msg"

section \<open>Reply bodies, \<^verbatim>\<open>src/rpc_prot.c\<close>\<close>

definition xdr_des_block :: "'a ops \<Rightarrow> ('a rpc_xdr_scheme, bytes) xdrproc" where
  "xdr_des_block ops xdrs blkp = xdr_opaque ops xdrs blkp 8"

definition xdr_versions :: "'a ops \<Rightarrow> ('a rpc_xdr_scheme, rpcversions) xdrproc" where
  "xdr_versions ops =
     xdr_then (xdr_field (xdr_u_int32_t ops) low (\<lambda>v p. p\<lparr>low := v\<rparr>))
       (xdr_field (xdr_u_int32_t ops) high (\<lambda>v p. p\<lparr>high := v\<rparr>))"

definition xdr_naccepted_reply ::
    "'a ops \<Rightarrow> ('a rpc_xdr_scheme, ('a rpc_xdr_scheme, 'r) accepted_reply) xdrproc" where
  "xdr_naccepted_reply ops =
     xdr_then (xdr_field (xdr_opaque_auth ops) ar_verf (\<lambda>v p. p\<lparr>ar_verf := v\<rparr>))
       (xdr_then (xdr_field (xdr_enum ops) ar_stat (\<lambda>v p. p\<lparr>ar_stat := v\<rparr>))
         (\<lambda>xdrs ar.
            if ar_stat ar = SUCCESS then
              xdr_field (ar_proc ar) ar_where (\<lambda>v p. p\<lparr>ar_where := v\<rparr>) xdrs ar
            else if ar_stat ar = PROG_MISMATCH then
              xdr_field (xdr_versions ops) ar_vers (\<lambda>v p. p\<lparr>ar_vers := v\<rparr>) xdrs ar
            else (True, ar, xdrs)))"

text \<open>
  A status that is neither of the two runs into \<^verbatim>\<open>assert(0)\<close>, which ends the process in a build that
  keeps assertions and returns \<^verbatim>\<open>false\<close> otherwise; the model has the latter.
\<close>

definition xdr_nrejected_reply :: "'a ops \<Rightarrow> ('a rpc_xdr_scheme, rejected_reply) xdrproc" where
  "xdr_nrejected_reply ops =
     xdr_then (xdr_field (xdr_enum ops) rj_stat (\<lambda>v p. p\<lparr>rj_stat := v\<rparr>))
       (\<lambda>xdrs rr.
          if rj_stat rr = RPC_MISMATCH then
            xdr_field (xdr_versions ops) rj_vers (\<lambda>v p. p\<lparr>rj_vers := v\<rparr>) xdrs rr
          else if rj_stat rr = AUTH_ERROR then
            xdr_field (xdr_enum ops) rj_why (\<lambda>v p. p\<lparr>rj_why := v\<rparr>) xdrs rr
          else (False, rr, xdrs))"

definition reply_dscrm ::
    "'a ops \<Rightarrow> (u32 \<times> ('a rpc_xdr_scheme, ('a rpc_xdr_scheme, 'r) reply_body) xdrproc) list" where
  "reply_dscrm ops =
     [(MSG_ACCEPTED, xdr_field (xdr_naccepted_reply ops) rp_acpt (\<lambda>v p. p\<lparr>rp_acpt := v\<rparr>)),
      (MSG_DENIED, xdr_field (xdr_nrejected_reply ops) rp_rjct (\<lambda>v p. p\<lparr>rp_rjct := v\<rparr>))]"

text \<open>The call \<^verbatim>\<open>inline_xdr_union(xdrs, &rp_stat, &ru, reply_dscrm, NULL)\<close> on the body of a reply.\<close>

definition xdr_reply_union ::
    "'a ops \<Rightarrow> ('a rpc_xdr_scheme, ('a rpc_xdr_scheme, 'r) reply_body) xdrproc" where
  "xdr_reply_union ops xdrs r =
     (case xdr_union ops (reply_dscrm ops) None xdrs (rp_stat r, r) of
        (b, (d, r), xdrs) \<Rightarrow> (b, r\<lparr>rp_stat := d\<rparr>, xdrs))"

definition xdr_nreplymsg :: "'a ops \<Rightarrow> ('a rpc_xdr_scheme, ('a, 'r) msg) xdrproc" where
  "xdr_nreplymsg ops =
     xdr_then (xdr_field (xdr_u_int32_t ops) rm_xid (\<lambda>v p. p\<lparr>rm_xid := v\<rparr>))
       (xdr_then (xdr_field (xdr_enum ops) rm_direction (\<lambda>v p. p\<lparr>rm_direction := v\<rparr>))
         (\<lambda>xdrs rmsg.
            if rm_direction rmsg = REPLY then
              xdr_field (xdr_reply_union ops) rm_reply (\<lambda>v p. p\<lparr>rm_reply := v\<rparr>) xdrs rmsg
            else (False, rmsg, xdrs)))"

definition xdr_ncallhdr :: "'a ops \<Rightarrow> ('a rpc_xdr_scheme, ('a, 'r) msg) xdrproc" where
  "xdr_ncallhdr ops xdrs cmsg =
     (let cmsg = cmsg\<lparr>rm_direction := CALL, cb_rpcvers := RPC_MSG_VERSION\<rparr> in
      if x_op xdrs = XDR_ENCODE then
        xdr_then (xdr_field (xdr_u_int32_t ops) rm_xid (\<lambda>v p. p\<lparr>rm_xid := v\<rparr>))
          (xdr_then (xdr_field (xdr_enum ops) rm_direction (\<lambda>v p. p\<lparr>rm_direction := v\<rparr>))
            (xdr_then (xdr_field (xdr_u_int32_t ops) cb_rpcvers (\<lambda>v p. p\<lparr>cb_rpcvers := v\<rparr>))
              (xdr_then (xdr_field (xdr_u_int32_t ops) cb_prog (\<lambda>v p. p\<lparr>cb_prog := v\<rparr>))
                (xdr_field (xdr_u_int32_t ops) cb_vers (\<lambda>v p. p\<lparr>cb_vers := v\<rparr>)))))
          xdrs cmsg
      else (False, cmsg, xdrs))"

section \<open>Errors of a reply, \<^verbatim>\<open>src/rpc_prot.c\<close>\<close>

abbreviation RPC_SUCCESS :: u32 where "RPC_SUCCESS \<equiv> 0"
abbreviation RPC_VERSMISMATCH :: u32 where "RPC_VERSMISMATCH \<equiv> 6"
abbreviation RPC_AUTHERROR :: u32 where "RPC_AUTHERROR \<equiv> 7"
abbreviation RPC_PROGUNAVAIL :: u32 where "RPC_PROGUNAVAIL \<equiv> 8"
abbreviation RPC_PROGVERSMISMATCH :: u32 where "RPC_PROGVERSMISMATCH \<equiv> 9"
abbreviation RPC_PROCUNAVAIL :: u32 where "RPC_PROCUNAVAIL \<equiv> 10"
abbreviation RPC_CANTDECODEARGS :: u32 where "RPC_CANTDECODEARGS \<equiv> 11"
abbreviation RPC_SYSTEMERROR :: u32 where "RPC_SYSTEMERROR \<equiv> 12"
abbreviation RPC_FAILED :: u32 where "RPC_FAILED \<equiv> 16"

record rpc_err =
  re_status :: u32
  re_errno :: u32
  re_why :: u32
  re_vers :: rpcversions
  re_lb :: "u32 \<times> u32"

definition accepted :: "u32 \<Rightarrow> rpc_err \<Rightarrow> rpc_err" where
  "accepted acpt_stat error =
     (if acpt_stat = PROG_UNAVAIL then error\<lparr>re_status := RPC_PROGUNAVAIL\<rparr>
      else if acpt_stat = PROG_MISMATCH then error\<lparr>re_status := RPC_PROGVERSMISMATCH\<rparr>
      else if acpt_stat = PROC_UNAVAIL then error\<lparr>re_status := RPC_PROCUNAVAIL\<rparr>
      else if acpt_stat = GARBAGE_ARGS then error\<lparr>re_status := RPC_CANTDECODEARGS\<rparr>
      else if acpt_stat = SYSTEM_ERR then error\<lparr>re_status := RPC_SYSTEMERROR\<rparr>
      else if acpt_stat = SUCCESS then error\<lparr>re_status := RPC_SUCCESS\<rparr>
      else error\<lparr>re_status := RPC_FAILED, re_lb := (MSG_ACCEPTED, acpt_stat)\<rparr>)"

definition rejected :: "u32 \<Rightarrow> rpc_err \<Rightarrow> rpc_err" where
  "rejected rjct_stat error =
     (if rjct_stat = RPC_MISMATCH then error\<lparr>re_status := RPC_VERSMISMATCH\<rparr>
      else if rjct_stat = AUTH_ERROR then error\<lparr>re_status := RPC_AUTHERROR\<rparr>
      else error\<lparr>re_status := RPC_FAILED, re_lb := (MSG_DENIED, rjct_stat)\<rparr>)"

definition seterr_reply :: "('x, 'r) rpc_msg \<Rightarrow> rpc_err \<Rightarrow> rpc_err" where
  "seterr_reply msg error =
     (let ack = rp_acpt (rm_reply msg); rej = rp_rjct (rm_reply msg) in
      if rp_stat (rm_reply msg) = MSG_ACCEPTED \<and> ar_stat ack = SUCCESS then
        error\<lparr>re_status := RPC_SUCCESS\<rparr>
      else
        let error =
          (if rp_stat (rm_reply msg) = MSG_ACCEPTED then accepted (ar_stat ack) error
           else if rp_stat (rm_reply msg) = MSG_DENIED then rejected (rj_stat rej) error
           else error\<lparr>re_status := RPC_FAILED, re_lb := (rp_stat (rm_reply msg), snd (re_lb error))\<rparr>) in
        if re_status error = RPC_VERSMISMATCH then error\<lparr>re_vers := rj_vers rej\<rparr>
        else if re_status error = RPC_AUTHERROR then error\<lparr>re_why := rj_why rej\<rparr>
        else if re_status error = RPC_PROGVERSMISMATCH then error\<lparr>re_vers := ar_vers ack\<rparr>
        else error)"

section \<open>Call messages, \<^verbatim>\<open>src/rpc_callmsg.c\<close>\<close>

text \<open>The branch of \<^verbatim>\<open>xdr_call_encode\<close> for a buffer without room for the whole message.\<close>

definition xdr_call_encode_slow ::
    "'a ops \<Rightarrow> 'a rpc_xdr_scheme \<Rightarrow> ('a, 'r) msg \<Rightarrow> bool \<times> 'a rpc_xdr_scheme" where
  "xdr_call_encode_slow ops xdrs cmsg =
     on_ok (xdr_putuint32 ops xdrs (rm_xid cmsg)) (\<lambda>xdrs.
     on_ok (xdr_putenum ops xdrs (rm_direction cmsg)) (\<lambda>xdrs.
     on_ok (xdr_putuint32 ops xdrs (cb_rpcvers cmsg)) (\<lambda>xdrs.
     if cb_rpcvers cmsg \<noteq> RPC_MSG_VERSION then (False, xdrs)
     else
       on_ok (xdr_putuint32 ops xdrs (cb_prog cmsg)) (\<lambda>xdrs.
       on_ok (xdr_putuint32 ops xdrs (cb_vers cmsg)) (\<lambda>xdrs.
       on_ok (xdr_putuint32 ops xdrs (cb_proc cmsg)) (\<lambda>xdrs.
       on_ok (xdr_opaque_auth_encode ops xdrs (cb_cred cmsg)) (\<lambda>xdrs.
       xdr_opaque_auth_encode ops xdrs (cb_verf cmsg))))))))"

definition xdr_call_encode ::
    "'a ops \<Rightarrow> 'a rpc_xdr_scheme \<Rightarrow> ('a, 'r) msg \<Rightarrow> bool \<times> 'a rpc_xdr_scheme" where
  "xdr_call_encode ops xdrs cmsg =
     (if oa_length (cb_cred cmsg) > MAX_AUTH_BYTES then (False, xdrs)
      else if oa_length (cb_verf cmsg) > MAX_AUTH_BYTES then (False, xdrs)
      else
        case xdr_inline_encode xdrs (unat (8 * 4 + RNDUP (oa_length (cb_cred cmsg)) + 2 * 4 +
            RNDUP (oa_length (cb_verf cmsg)))) of
          (buf, xdrs) \<Rightarrow>
            if buf \<noteq> NULL then
              let mb = IXDR_PUT_INT32 (rm_xid cmsg) (heap xdrs, buf);
                  mb = IXDR_PUT_INT32 (rm_direction cmsg) mb;
                  mb = IXDR_PUT_INT32 (cb_rpcvers cmsg) mb in
              if cb_rpcvers cmsg \<noteq> RPC_MSG_VERSION then (False, xdrs\<lparr>heap := fst mb\<rparr>)
              else
                let mb = IXDR_PUT_INT32 (cb_prog cmsg) mb;
                    mb = IXDR_PUT_INT32 (cb_vers cmsg) mb;
                    mb = IXDR_PUT_INT32 (cb_proc cmsg) mb;
                    mb = ixdr_put_auth (cb_cred cmsg) mb;
                    mb = ixdr_put_auth (cb_verf cmsg) mb in
                (True, xdrs\<lparr>heap := fst mb\<rparr>)
            else xdr_call_encode_slow ops xdrs cmsg)"

text \<open>
  Decoding the body of a call.  \<^verbatim>\<open>buf\<close> is \<^verbatim>\<open>NULL\<close> or the address of the three units that \<^verbatim>\<open>xdr_dplx_decode\<close>
  has reserved.  The parts are the program and version, and the procedure and credential.
\<close>

definition xdr_call_decode_prog ::
    "'a ops \<Rightarrow> addr \<Rightarrow> ('a rpc_xdr_scheme, ('a, 'r) msg) xdrproc" where
  "xdr_call_decode_prog ops buf xdrs cmsg =
     (if buf \<noteq> NULL then
        case IXDR_GET_U_INT32 (heap xdrs) buf of
          (prog, buf) \<Rightarrow>
            (case IXDR_GET_U_INT32 (heap xdrs) buf of
               (vers, buf) \<Rightarrow> (True, cmsg\<lparr>cb_prog := prog, cb_vers := vers\<rparr>, xdrs))
      else
        xdr_then (xdr_field (xdr_getuint32 ops) cb_prog (\<lambda>v p. p\<lparr>cb_prog := v\<rparr>))
          (xdr_field (xdr_getuint32 ops) cb_vers (\<lambda>v p. p\<lparr>cb_vers := v\<rparr>)) xdrs cmsg)"

definition xdr_call_decode_cred :: "'a ops \<Rightarrow> ('a rpc_xdr_scheme, ('a, 'r) msg) xdrproc" where
  "xdr_call_decode_cred ops xdrs cmsg =
     (case xdr_inline_decode xdrs (3 * 4) of
        (buf, xdrs) \<Rightarrow>
          if buf \<noteq> NULL then
            case IXDR_GET_U_INT32 (heap xdrs) buf of
              (prc, buf) \<Rightarrow>
                xdr_field (\<lambda>xdrs oa. xdr_opaque_auth_decode ops xdrs oa buf) cb_cred
                  (\<lambda>v p. p\<lparr>cb_cred := v\<rparr>) xdrs (cmsg\<lparr>cb_proc := prc\<rparr>)
          else
            xdr_then (xdr_field (xdr_getuint32 ops) cb_proc (\<lambda>v p. p\<lparr>cb_proc := v\<rparr>))
              (xdr_field (\<lambda>xdrs oa. xdr_opaque_auth_decode ops xdrs oa NULL) cb_cred
                (\<lambda>v p. p\<lparr>cb_cred := v\<rparr>)) xdrs cmsg)"

definition xdr_call_decode ::
    "'a ops \<Rightarrow> addr \<Rightarrow> ('a rpc_xdr_scheme, ('a, 'r) msg) xdrproc" where
  "xdr_call_decode ops buf xdrs cmsg =
     (case (if buf \<noteq> NULL then
              case IXDR_GET_U_INT32 (heap xdrs) buf of (vers, buf) \<Rightarrow> (True, vers, buf, xdrs)
            else
              case xdr_getuint32 ops xdrs (cb_rpcvers cmsg) of (b, vers, xdrs) \<Rightarrow> (b, vers, NULL, xdrs)) of
        (b, vers, buf, xdrs) \<Rightarrow>
          let cmsg = cmsg\<lparr>cb_rpcvers := vers\<rparr> in
          if \<not> b then (False, cmsg, xdrs)
          else if cb_rpcvers cmsg \<noteq> RPC_MSG_VERSION then (False, cmsg, xdrs)
          else
            xdr_then (xdr_call_decode_prog ops buf)
              (xdr_then (xdr_call_decode_cred ops)
                (xdr_field (\<lambda>xdrs oa. xdr_opaque_auth_decode ops xdrs oa NULL) cb_verf
                  (\<lambda>v p. p\<lparr>cb_verf := v\<rparr>))) xdrs cmsg)"

section \<open>Duplex messages, \<^verbatim>\<open>src/rpc_dplx_msg.c\<close>\<close>

definition xdr_reply_encode_accepted ::
    "'a ops \<Rightarrow> ('a rpc_xdr_scheme, ('a, 'r) msg) xdrproc" where
  "xdr_reply_encode_accepted ops xdrs dmsg =
     (let ar = rp_acpt (rm_reply dmsg); oa = ar_verf ar in
      if oa_length oa > MAX_AUTH_BYTES then (False, dmsg, xdrs)
      else
        case xdr_inline_encode xdrs (unat (6 * 4 + RNDUP (oa_length oa))) of
          (buf, xdrs) \<Rightarrow>
            if buf \<noteq> NULL then
              let mb = IXDR_PUT_INT32 (rm_xid dmsg) (heap xdrs, buf);
                  mb = IXDR_PUT_INT32 (rm_direction dmsg) mb;
                  mb = IXDR_PUT_INT32 (rp_stat (rm_reply dmsg)) mb;
                  mb = ixdr_put_auth oa mb;
                  mb = IXDR_PUT_INT32 (ar_stat ar) mb;
                  xdrs = xdrs\<lparr>heap := fst mb\<rparr> in
              if ar_stat ar = PROG_MISMATCH then
                case xdr_inline_encode xdrs (2 * 4) of
                  (buf, xdrs) \<Rightarrow>
                    if buf \<noteq> NULL then
                      let mb = IXDR_PUT_INT32 (low (ar_vers ar)) (heap xdrs, buf);
                          mb = IXDR_PUT_INT32 (high (ar_vers ar)) mb in
                      (True, dmsg, xdrs\<lparr>heap := fst mb\<rparr>)
                    else
                      keep dmsg (on_ok (xdr_putuint32 ops xdrs (low (ar_vers ar)))
                        (\<lambda>xdrs. xdr_putuint32 ops xdrs (high (ar_vers ar))))
              else (True, dmsg, xdrs)
            else
              case on_ok (xdr_putuint32 ops xdrs (rm_xid dmsg))
                  (\<lambda>xdrs. xdr_putenum ops xdrs (rm_direction dmsg)) of
                (False, xdrs) \<Rightarrow> (False, dmsg, xdrs)
              | (True, xdrs) \<Rightarrow>
                  xdr_field (xdr_reply_union ops) rm_reply (\<lambda>v p. p\<lparr>rm_reply := v\<rparr>) xdrs dmsg)"

definition xdr_reply_encode_denied ::
    "'a ops \<Rightarrow> 'a rpc_xdr_scheme \<Rightarrow> ('a, 'r) msg \<Rightarrow> bool \<times> 'a rpc_xdr_scheme" where
  "xdr_reply_encode_denied ops xdrs dmsg =
     (let rr = rp_rjct (rm_reply dmsg) in
      on_ok
        (case xdr_inline_encode xdrs (3 * 4) of
           (buf, xdrs) \<Rightarrow>
             if buf \<noteq> NULL then
               let mb = IXDR_PUT_INT32 (rm_xid dmsg) (heap xdrs, buf);
                   mb = IXDR_PUT_INT32 (rm_direction dmsg) mb;
                   mb = IXDR_PUT_INT32 (rp_stat (rm_reply dmsg)) mb in
               (True, xdrs\<lparr>heap := fst mb\<rparr>)
             else
               on_ok (xdr_putuint32 ops xdrs (rm_xid dmsg)) (\<lambda>xdrs.
               on_ok (xdr_putenum ops xdrs (rm_direction dmsg)) (\<lambda>xdrs.
               xdr_putenum ops xdrs (rp_stat (rm_reply dmsg)))))
        (\<lambda>xdrs.
           if rj_stat rr = RPC_MISMATCH then
             case xdr_inline_encode xdrs (3 * 4) of
               (buf, xdrs) \<Rightarrow>
                 if buf \<noteq> NULL then
                   let mb = IXDR_PUT_INT32 (rj_stat rr) (heap xdrs, buf);
                       mb = IXDR_PUT_INT32 (low (rj_vers rr)) mb;
                       mb = IXDR_PUT_INT32 (high (rj_vers rr)) mb in
                   (True, xdrs\<lparr>heap := fst mb\<rparr>)
                 else
                   on_ok (xdr_putenum ops xdrs (rj_stat rr)) (\<lambda>xdrs.
                   on_ok (xdr_putuint32 ops xdrs (low (rj_vers rr))) (\<lambda>xdrs.
                   xdr_putuint32 ops xdrs (high (rj_vers rr))))
           else if rj_stat rr = AUTH_ERROR then
             case xdr_inline_encode xdrs (2 * 4) of
               (buf, xdrs) \<Rightarrow>
                 if buf \<noteq> NULL then
                   let mb = IXDR_PUT_INT32 (rj_stat rr) (heap xdrs, buf);
                       mb = IXDR_PUT_INT32 (rj_why rr) mb in
                   (True, xdrs\<lparr>heap := fst mb\<rparr>)
                 else
                   on_ok (xdr_putenum ops xdrs (rj_stat rr)) (\<lambda>xdrs.
                   xdr_putenum ops xdrs (rj_why rr))
           else (False, xdrs)))"

definition xdr_reply_encode :: "'a ops \<Rightarrow> ('a rpc_xdr_scheme, ('a, 'r) msg) xdrproc" where
  "xdr_reply_encode ops xdrs dmsg =
     (if rp_stat (rm_reply dmsg) = MSG_ACCEPTED then xdr_reply_encode_accepted ops xdrs dmsg
      else if rp_stat (rm_reply dmsg) = MSG_DENIED then
        keep dmsg (xdr_reply_encode_denied ops xdrs dmsg)
      else (False, dmsg, xdrs))"

definition xdr_reply_decode_accepted ::
    "'a ops \<Rightarrow> addr \<Rightarrow> ('a rpc_xdr_scheme, ('a rpc_xdr_scheme, 'r) accepted_reply) xdrproc" where
  "xdr_reply_decode_accepted ops buf =
     xdr_then (xdr_field (\<lambda>xdrs oa. xdr_opaque_auth_decode ops xdrs oa buf) ar_verf
         (\<lambda>v p. p\<lparr>ar_verf := v\<rparr>))
       (xdr_then (xdr_field (xdr_getenum ops) ar_stat (\<lambda>v p. p\<lparr>ar_stat := v\<rparr>))
         (\<lambda>xdrs ar.
            if ar_stat ar = PROG_MISMATCH then
              xdr_field
                (xdr_then (xdr_field (xdr_getuint32 ops) low (\<lambda>v p. p\<lparr>low := v\<rparr>))
                  (xdr_field (xdr_getuint32 ops) high (\<lambda>v p. p\<lparr>high := v\<rparr>)))
                ar_vers (\<lambda>v p. p\<lparr>ar_vers := v\<rparr>) xdrs ar
            else (True, ar, xdrs)))"

text \<open>A unit that has been reserved at \<open>buf\<close>, or else is read by \<open>get\<close>; also the address of the next.\<close>

definition get_inline ::
    "('a rpc_xdr_scheme, u32) xdrproc \<Rightarrow> addr \<Rightarrow> 'a rpc_xdr_scheme \<Rightarrow> u32 \<Rightarrow>
     bool \<times> u32 \<times> addr \<times> 'a rpc_xdr_scheme" where
  "get_inline get buf xdrs ip =
     (if buf \<noteq> NULL then
        case IXDR_GET_U_INT32 (heap xdrs) buf of (v, buf) \<Rightarrow> (True, v, buf, xdrs)
      else case get xdrs ip of (b, v, xdrs) \<Rightarrow> (b, v, NULL, xdrs))"

definition xdr_reply_decode_denied ::
    "'a ops \<Rightarrow> addr \<Rightarrow> ('a rpc_xdr_scheme, rejected_reply) xdrproc" where
  "xdr_reply_decode_denied ops buf xdrs rr =
     (case get_inline (xdr_getenum ops) buf xdrs (rj_stat rr) of
        (False, stat, buf, xdrs) \<Rightarrow> (False, rr\<lparr>rj_stat := stat\<rparr>, xdrs)
      | (True, stat, buf, xdrs) \<Rightarrow>
          let rr = rr\<lparr>rj_stat := stat\<rparr> in
          if rj_stat rr = RPC_MISMATCH then
            case get_inline (xdr_getuint32 ops) buf xdrs (low (rj_vers rr)) of
              (False, v, buf, xdrs) \<Rightarrow> (False, rr\<lparr>rj_vers := rj_vers rr\<lparr>low := v\<rparr>\<rparr>, xdrs)
            | (True, v, buf, xdrs) \<Rightarrow>
                let rr = rr\<lparr>rj_vers := rj_vers rr\<lparr>low := v\<rparr>\<rparr> in
                xdr_field (xdr_field (xdr_getuint32 ops) high (\<lambda>v p. p\<lparr>high := v\<rparr>))
                  rj_vers (\<lambda>v p. p\<lparr>rj_vers := v\<rparr>) xdrs rr
          else if rj_stat rr = AUTH_ERROR then
            case get_inline (xdr_getenum ops) buf xdrs (rj_why rr) of
              (b, v, buf, xdrs) \<Rightarrow> (b, rr\<lparr>rj_why := v\<rparr>, xdrs)
          else (True, rr, xdrs))"

definition xdr_reply_decode ::
    "'a ops \<Rightarrow> addr \<Rightarrow> ('a rpc_xdr_scheme, ('a, 'r) msg) xdrproc" where
  "xdr_reply_decode ops buf xdrs dmsg =
     (case get_inline (xdr_getenum ops) buf xdrs (rp_stat (rm_reply dmsg)) of
        (b, stat, buf, xdrs) \<Rightarrow>
          let dmsg = dmsg\<lparr>rm_reply := rm_reply dmsg\<lparr>rp_stat := stat\<rparr>\<rparr> in
          if \<not> b then (False, dmsg, xdrs)
          else
            xdr_field
              (if stat = MSG_ACCEPTED then
                 xdr_field (xdr_reply_decode_accepted ops buf) rp_acpt (\<lambda>v p. p\<lparr>rp_acpt := v\<rparr>)
               else if stat = MSG_DENIED then
                 xdr_field (xdr_reply_decode_denied ops buf) rp_rjct (\<lambda>v p. p\<lparr>rp_rjct := v\<rparr>)
               else (\<lambda>xdrs r. (False, r, xdrs)))
              rm_reply (\<lambda>v p. p\<lparr>rm_reply := v\<rparr>) xdrs dmsg)"

definition xdr_dplx_decode :: "'a ops \<Rightarrow> ('a rpc_xdr_scheme, ('a, 'r) msg) xdrproc" where
  "xdr_dplx_decode ops xdrs dmsg =
     (case xdr_inline_decode xdrs (5 * 4) of
        (buf, xdrs) \<Rightarrow>
          (case (if buf \<noteq> NULL then
                   case IXDR_GET_U_INT32 (heap xdrs) buf of
                     (xid, buf) \<Rightarrow>
                       (case IXDR_GET_U_INT32 (heap xdrs) buf of
                          (dir, buf) \<Rightarrow> (True, dmsg\<lparr>rm_xid := xid, rm_direction := dir\<rparr>, buf, xdrs))
                 else
                   case xdr_then (xdr_field (xdr_getuint32 ops) rm_xid (\<lambda>v p. p\<lparr>rm_xid := v\<rparr>))
                       (xdr_field (xdr_getenum ops) rm_direction (\<lambda>v p. p\<lparr>rm_direction := v\<rparr>)) xdrs dmsg of
                     (b, dmsg, xdrs) \<Rightarrow> (b, dmsg, NULL, xdrs)) of
             (b, dmsg, buf, xdrs) \<Rightarrow>
               if \<not> b then (False, dmsg, xdrs)
               else if rm_direction dmsg = CALL then xdr_call_decode ops buf xdrs dmsg
               else if rm_direction dmsg = REPLY then xdr_reply_decode ops buf xdrs dmsg
               else (False, dmsg, xdrs)))"

definition xdr_dplx_msg :: "'a ops \<Rightarrow> ('a rpc_xdr_scheme, ('a, 'r) msg) xdrproc" where
  "xdr_dplx_msg ops xdrs dmsg =
     (case x_op xdrs of
        XDR_ENCODE \<Rightarrow>
          if rm_direction dmsg = CALL then keep dmsg (xdr_call_encode ops xdrs dmsg)
          else if rm_direction dmsg = REPLY then xdr_reply_encode ops xdrs dmsg
          else (False, dmsg, xdrs)
      | XDR_DECODE \<Rightarrow> xdr_dplx_decode ops xdrs dmsg
      | XDR_FREE \<Rightarrow> (True, dmsg, xdrs))"

definition xdr_ncallmsg :: "'a ops \<Rightarrow> ('a rpc_xdr_scheme, ('a, 'r) msg) xdrproc" where
  "xdr_ncallmsg ops xdrs cmsg =
     (case x_op xdrs of
        XDR_ENCODE \<Rightarrow>
          if rm_direction cmsg \<noteq> CALL then (False, cmsg, xdrs)
          else keep cmsg (xdr_call_encode ops xdrs cmsg)
      | XDR_DECODE \<Rightarrow>
          (case xdr_dplx_decode ops xdrs cmsg of
             (b, cmsg, xdrs) \<Rightarrow> (b \<and> rm_direction cmsg = CALL, cmsg, xdrs))
      | XDR_FREE \<Rightarrow> (True, cmsg, xdrs))"

section \<open>Call messages on the wire\<close>

definition call_wire :: "('x, 'r) rpc_msg \<Rightarrow> bytes \<Rightarrow> bool" where
  "call_wire m e \<longleftrightarrow> (\<exists>e1 e2. auth_wire (cb_cred m) e1 \<and> auth_wire (cb_verf m) e2 \<and>
     e = words [rm_xid m, rm_direction m, cb_rpcvers m, cb_prog m, cb_vers m, cb_proc m] @ e1 @ e2)"

definition call_size :: "('x, 'r) rpc_msg \<Rightarrow> nat" where
  "call_size m = 24 + auth_size (cb_cred m) + auth_size (cb_verf m)"

definition call_ok :: "('x, 'r) rpc_msg \<Rightarrow> bool" where
  "call_ok m \<longleftrightarrow> rm_direction m = CALL \<and> cb_rpcvers m = RPC_MSG_VERSION \<and>
     auth_ok (cb_cred m) \<and> auth_ok (cb_verf m)"

text \<open>The message that decoding a call leaves in an object that held \<open>m0\<close>.\<close>

definition call_into :: "('x, 'r) rpc_msg \<Rightarrow> ('x, 'r) rpc_msg \<Rightarrow> ('x, 'r) rpc_msg" where
  "call_into m m0 = m0\<lparr>rm_xid := rm_xid m, rm_direction := rm_direction m, cb_rpcvers := cb_rpcvers m,
     cb_prog := cb_prog m, cb_vers := cb_vers m, cb_proc := cb_proc m,
     cb_cred := auth_into (cb_cred m) (cb_cred m0), cb_verf := auth_into (cb_verf m) (cb_verf m0)\<rparr>"

lemma unat_call_reserve:
  assumes "auth_ok c" "auth_ok v"
  shows "unat (8 * 4 + RNDUP (oa_length c) + 2 * 4 + RNDUP (oa_length v) :: u32) = 24 + auth_size c + auth_size v"
proof -
  have "unat (RNDUP (oa_length c)) \<le> 404" "unat (RNDUP (oa_length v)) \<le> 404"
    using assms auth_ok_length [of c] auth_ok_length [of v] padlen_less [of "unat (oa_length c)"]
      padlen_less [of "unat (oa_length v)"] by (simp_all add: unat_RNDUP_auth)
  then show ?thesis by (simp add: auth_size_def unat_word_ariths)
qed

lemma filled_words: "filled m a mb e \<Longrightarrow> filled m a (fold IXDR_PUT_INT32 ws mb) (e @ words ws)"
proof (induction ws arbitrary: mb e)
  case (Cons w ws)
  from Cons.IH [OF filled_put [OF Cons.prems, of w]] show ?case by simp
qed simp

context xdr_writer
begin

lemma inline_encode_cases:
  assumes "writable x"
  obtains (no) "\<not> x_data x + n \<le> vio_wrap (x_v x)" "xdr_inline_encode x n = (NULL, x)"
    | (yes) "x_data x + n \<le> vio_wrap (x_v x)" "x_data x \<noteq> NULL"
      "xdr_inline_encode x n = (x_data x, xdr_tail_update (x\<lparr>x_data := x_data x + n\<rparr>))"
  using assms winv_data [of x]
  by (cases "x_data x + n \<le> vio_wrap (x_v x)") (auto simp: xdr_inline_encode_def writable_def)

text \<open>A routine that stores units in line, or else one after the other.\<close>

lemma emits_inline_words:
  assumes g: "emits g (words ws)"
    and f: "\<And>x. f x = (case xdr_inline_encode x (4 * length ws) of (buf, x) \<Rightarrow>
      if buf \<noteq> NULL then (True, x\<lparr>heap := fst (fold IXDR_PUT_INT32 ws (heap x, buf))\<rparr>) else g x)"
  shows "emits f (words ws)"
proof (rule emitsI)
  fix x k assume x: "writable x" "fits x (length (words ws) + k)"
  from x(1) show "\<exists>x'. f x = (True, x') \<and> writable x' \<and> wr x' = wr x @ words ws \<and> fits x' k \<and> anchor x' = anchor x"
  proof (cases rule: inline_encode_cases [where n = "4 * length ws"])
    case no
    with emitsE [OF g x] show ?thesis by (simp add: f) metis
  next
    case yes
    have "fst (fold IXDR_PUT_INT32 ws (heap x, x_data x)) = write_bytes (heap x) (x_data x) (words ws)"
      using filled_words [OF filled_start, of "heap x" "x_data x" ws] by (simp add: filled_def)
    with yes x inline_encode_fill [of x "words ws" k] show ?thesis by (simp add: f)
  qed
qed

lemma emits_words_Cons:
  "emits g (words ws) \<Longrightarrow> emits (\<lambda>x. on_ok (xdr_putuint32 ops x w) g) (words (w # ws))"
  using emits_then [OF emits_putuint32] by simp

lemma emits_words_1: "emits (\<lambda>x. xdr_putuint32 ops x w) (words [w])"
  using emits_putuint32 by simp

lemma emits_call_encode_slow:
  assumes "call_ok m"
  shows "emits_any (\<lambda>x. xdr_call_encode_slow ops x m) (call_wire m) (call_size m)"
proof (rule emits_any_exact)
  let ?a = "\<lambda>oa. be32 (oa_flavor oa) @ be32 (oa_length oa) @ enc_opaque (auth_data oa)"
  let ?e = "be32 (rm_xid m) @ be32 (rm_direction m) @ be32 (cb_rpcvers m) @ be32 (cb_prog m) @
    be32 (cb_vers m) @ be32 (cb_proc m) @ ?a (cb_cred m) @ ?a (cb_verf m)"
  have ok: "auth_ok (cb_cred m)" "auth_ok (cb_verf m)" "cb_rpcvers m = RPC_MSG_VERSION"
    using assms by (simp_all add: call_ok_def)
  note auth = emits_opaque_auth_encode [OF ok(1)] emits_opaque_auth_encode [OF ok(2)]
  show "emits (\<lambda>x. xdr_call_encode_slow ops x m) ?e"
    unfolding xdr_call_encode_slow_def ok(3)
    by (simp only: simp_thms if_False) (intro emits_then emits_putuint32 emits_putenum auth)
  show "call_wire m ?e"
    using auth_wire_zero_pad [OF ok(1)] auth_wire_zero_pad [OF ok(2)] by (auto simp: call_wire_def)
  show "length ?e = call_size m"
    using ok by (simp add: call_size_def auth_size_def unat_RNDUP_auth)
qed

lemma emits_call_encode:
  assumes m: "call_ok m"
  shows "emits_any (\<lambda>x. xdr_call_encode ops x m) (call_wire m) (call_size m)"
proof (rule emits_inline_or)
  have ok: "auth_ok (cb_cred m)" "auth_ok (cb_verf m)" "cb_rpcvers m = RPC_MSG_VERSION"
      "\<not> oa_length (cb_cred m) > MAX_AUTH_BYTES" "\<not> oa_length (cb_verf m) > MAX_AUTH_BYTES"
    using m by (auto simp: call_ok_def auth_ok_def dest: leD)
  note n = unat_call_reserve [OF ok(1,2)] call_size_def [symmetric]
  fix x :: "'a rpc_xdr_scheme"
  {
    assume x: "writable x" "x_data x + call_size m \<le> vio_wrap (x_v x)"
    let ?ws = "[rm_xid m, rm_direction m, cb_rpcvers m, cb_prog m, cb_vers m, cb_proc m]"
    let ?mb = "fold IXDR_PUT_INT32 ?ws (heap x, x_data x)"
    have "filled (heap x) (x_data x) ?mb (words ?ws)"
      using filled_words [OF filled_start, of "heap x" "x_data x" ?ws] by simp
    from filled_auth [OF ok(1) this] obtain e1 where e1: "auth_wire (cb_cred m) e1"
        "filled (heap x) (x_data x) (ixdr_put_auth (cb_cred m) ?mb) (words ?ws @ e1)" by blast
    from filled_auth [OF ok(2) e1(2)] obtain e2 where e2: "auth_wire (cb_verf m) e2"
        "filled (heap x) (x_data x) (ixdr_put_auth (cb_verf m) (ixdr_put_auth (cb_cred m) ?mb))
          ((words ?ws @ e1) @ e2)" by blast
    let ?e = "words ?ws @ e1 @ e2"
    have "fst (ixdr_put_auth (cb_verf m) (ixdr_put_auth (cb_cred m) ?mb)) = write_bytes (heap x) (x_data x) ?e"
      using e2(2) by (simp add: filled_def)
    with x winv_data [of x] ok have "xdr_call_encode ops x m = (True, (xdr_tail_update
        (x\<lparr>x_data := x_data x + call_size m\<rparr>))\<lparr>heap := write_bytes (heap x) (x_data x) ?e\<rparr>)"
      unfolding xdr_call_encode_def xdr_inline_encode_def
      by (simp only: n) (simp add: writable_def)
    moreover have "call_wire m ?e" using e1(1) e2(1) by (auto simp: call_wire_def)
    moreover have "length ?e = call_size m"
      using e1(1) e2(1) ok auth_wire_length by (simp add: call_size_def)
    ultimately show "\<exists>e. call_wire m e \<and> length e = call_size m \<and> xdr_call_encode ops x m = (True, (xdr_tail_update
        (x\<lparr>x_data := x_data x + call_size m\<rparr>))\<lparr>heap := write_bytes (heap x) (x_data x) e\<rparr>)"
      by blast
  next
    assume "\<not> x_data x + call_size m \<le> vio_wrap (x_v x)"
    with ok show "xdr_call_encode ops x m = xdr_call_encode_slow ops x m"
      unfolding xdr_call_encode_def xdr_inline_encode_def by (simp only: n) simp
  }
  show "call_size m mod 4 = 0"
    using m auth_size_aligned [of "cb_cred m"] auth_size_aligned [of "cb_verf m"]
    by (simp add: call_size_def call_ok_def mod_add_eq [symmetric] del: mod_add_eq)
qed (rule emits_call_encode_slow [OF m])

end

context xdr_reader
begin

lemma decodes_get_field:
  "decodes (\<lambda>x. xdr_field (xdr_getuint32 ops) get put x p) (be32 v) (put v p)"
  by (rule decodes_field [OF decodes_getuint32])

lemma decodes_getenum_field:
  "decodes (\<lambda>x. xdr_field (xdr_getenum ops) get put x p) (be32 v) (put v p)"
  by (rule decodes_field [OF decodes_getenum])

lemma decodes_auth_field:
  assumes "auth_ok oa" "auth_wire oa e"
  shows "decodes (\<lambda>x. xdr_field (\<lambda>x oa. xdr_opaque_auth_decode ops x oa NULL) get put x p) e
    (put (auth_into oa (get p)) p)"
  by (rule decodes_field [where f = "\<lambda>x oa. xdr_opaque_auth_decode ops x oa NULL"])
    (rule decodes_opaque_auth_decode [OF assms])

lemma decodes_call_cred:
  assumes c: "auth_ok c" and e: "auth_wire c e"
  shows "decodes (\<lambda>x. xdr_call_decode_cred ops x m) (be32 prc @ e)
    (m\<lparr>cb_proc := prc, cb_cred := auth_into c (cb_cred m)\<rparr>)"
proof (rule decodesI)
  fix x rest assume x: "ready x" "rd x = (be32 prc @ e) @ rest"
  from e obtain p where p: "length p = padlen (unat (oa_length c))"
      "e = be32 (oa_flavor c) @ be32 (oa_length c) @ auth_data c @ p"
    by (auto simp: auth_wire_def)
  let ?ws = "[prc, oa_flavor c, oa_length c]"
  let ?m = "m\<lparr>cb_proc := prc, cb_cred := auth_into c (cb_cred m)\<rparr>"
  have w: "rd x = words ?ws @ (auth_data c @ p) @ rest" "3 * 4 = 4 * length ?ws" using x(2) p(2) by simp_all
  from x(1) w show "\<exists>x'. xdr_call_decode_cred ops x m = (True, ?m, x') \<and> ready x' \<and> rd x' = rest"
  proof (cases rule: inline_decode_words)
    case no
    have "decodes (\<lambda>x. xdr_then (xdr_field (xdr_getuint32 ops) cb_proc (\<lambda>v p. p\<lparr>cb_proc := v\<rparr>))
        (xdr_field (\<lambda>x oa. xdr_opaque_auth_decode ops x oa NULL) cb_cred (\<lambda>v p. p\<lparr>cb_cred := v\<rparr>)) x m)
        (be32 prc @ e) ?m"
      by (rule decodes_cong, rule decodes_then, rule decodes_get_field, rule decodes_auth_field [OF c e]) simp_all
    from decodesE [OF this x] no show ?thesis by (auto simp: xdr_call_decode_cred_def)
  next
    case (yes x')
    have "load32 (heap x') (x_data x) = prc" "load32 (heap x') (x_data x + 4) = oa_flavor c"
        "load32 (heap x') (x_data x + 4 + 4) = oa_length c"
      using yes(6) [of 0] yes(6) [of 1] yes(6) [of 2] by (simp_all add: yes(5) ac_simps)
    with decodes_auth_inline [OF c p(1) yes(3,4), of "x_data x + 4" "cb_cred m"] yes(1,2)
    show ?thesis by (auto simp: xdr_call_decode_cred_def xdr_field_def IXDR_GET_U_INT32_def)
  qed
qed

lemma decodes_call_decode:
  assumes m: "call_ok m" and w: "auth_wire (cb_cred m) e1" "auth_wire (cb_verf m) e2"
    and m0: "rm_xid m0 = rm_xid m" "rm_direction m0 = rm_direction m"
  defines "v \<equiv> m0\<lparr>cb_rpcvers := cb_rpcvers m, cb_prog := cb_prog m, cb_vers := cb_vers m\<rparr>"
  shows "decodes (\<lambda>x. xdr_then (xdr_call_decode_cred ops)
      (xdr_field (\<lambda>x oa. xdr_opaque_auth_decode ops x oa NULL) cb_verf (\<lambda>v p. p\<lparr>cb_verf := v\<rparr>)) x v)
    (be32 (cb_proc m) @ e1 @ e2) (call_into m m0)"
proof -
  have ok: "auth_ok (cb_cred m)" "auth_ok (cb_verf m)" using m by (simp_all add: call_ok_def)
  have "m0\<lparr>rm_xid := rm_xid m0, rm_direction := rm_direction m0\<rparr> = m0" by simp
  then have into: "call_into m m0 = v\<lparr>cb_proc := cb_proc m, cb_cred := auth_into (cb_cred m) (cb_cred v),
      cb_verf := auth_into (cb_verf m) (cb_verf v)\<rparr>"
    unfolding call_into_def v_def m0 [symmetric] by (cases m0) simp
  show ?thesis
    unfolding into
    by (rule decodes_cong, rule decodes_then, rule decodes_call_cred [OF ok(1) w(1)],
        rule decodes_auth_field [OF ok(2) w(2)]) simp_all
qed

text \<open>
  The two ways a message is decoded: its first five units one after the other, or all at once with
  the last three left at an address for the decoder of the body.
\<close>

lemma dplx_decode_cases:
  fixes m0 :: "('a, 'r) msg"
  assumes x: "ready x" "rd x = words [xid, dir, w2, w3, w4] @ rest"
  defines "m1 \<equiv> m0\<lparr>rm_xid := xid, rm_direction := dir\<rparr>"
  obtains (slow) x1 where "ready x1" "rd x1 = words [w2, w3, w4] @ rest"
      "xdr_dplx_decode ops x m0 = (if dir = CALL then xdr_call_decode ops NULL x1 m1
         else if dir = REPLY then xdr_reply_decode ops NULL x1 m1 else (False, m1, x1))"
    | (inline) buf x1 where "ready x1" "rd x1 = rest" "buf \<noteq> NULL" "load32 (heap x1) buf = w2"
      "load32 (heap x1) (buf + 4) = w3" "load32 (heap x1) (buf + 4 + 4) = w4"
      "xdr_dplx_decode ops x m0 = (if dir = CALL then xdr_call_decode ops buf x1 m1
         else if dir = REPLY then xdr_reply_decode ops buf x1 m1 else (False, m1, x1))"
proof -
  have "5 * 4 = 4 * length [xid, dir, w2, w3, w4]" by simp
  from x this show ?thesis
  proof (cases rule: inline_decode_words)
    case no
    have "decodes (\<lambda>x. xdr_then (xdr_field (xdr_getuint32 ops) rm_xid (\<lambda>v p. p\<lparr>rm_xid := v\<rparr>))
        (xdr_field (xdr_getenum ops) rm_direction (\<lambda>v p. p\<lparr>rm_direction := v\<rparr>)) x m0)
        (be32 xid @ be32 dir) m1"
      unfolding m1_def
      by (rule decodes_cong, rule decodes_then, rule decodes_get_field, rule decodes_getenum_field) simp_all
    from decodesE [OF this x(1), of "words [w2, w3, w4] @ rest"] x(2)
    obtain x1 where "xdr_then (xdr_field (xdr_getuint32 ops) rm_xid (\<lambda>v p. p\<lparr>rm_xid := v\<rparr>))
        (xdr_field (xdr_getenum ops) rm_direction (\<lambda>v p. p\<lparr>rm_direction := v\<rparr>)) x m0 = (True, m1, x1)"
        "ready x1" "rd x1 = words [w2, w3, w4] @ rest"
      by auto
    with no slow show ?thesis by (simp add: xdr_dplx_decode_def m1_def)
  next
    case (yes x')
    let ?b = "x_data x + 4 + 4"
    have "load32 (heap x') (x_data x) = xid" "load32 (heap x') (x_data x + 4) = dir"
        "load32 (heap x') ?b = w2" "load32 (heap x') (?b + 4) = w3" "load32 (heap x') (?b + 4 + 4) = w4"
      using yes(6) [of 0] yes(6) [of 1] yes(6) [of 2] yes(6) [of 3] yes(6) [of 4]
      by (simp_all add: yes(5) ac_simps)
    with inline [of x' ?b] yes(1,2,3,4) show ?thesis
      by (simp add: xdr_dplx_decode_def IXDR_GET_U_INT32_def m1_def)
  qed
qed

lemma decodes_dplx_call:
  assumes m: "call_ok m" and w: "call_wire m e"
  shows "decodes (\<lambda>x. xdr_dplx_decode ops x m0) e (call_into m m0)"
proof (rule decodesI)
  fix x rest assume x: "ready x" "rd x = e @ rest"
  from w obtain e1 e2 where e: "auth_wire (cb_cred m) e1" "auth_wire (cb_verf m) e2"
      "e = words [rm_xid m, rm_direction m, cb_rpcvers m, cb_prog m, cb_vers m, cb_proc m] @ e1 @ e2"
    by (auto simp: call_wire_def)
  have k: "rm_direction m = CALL" "cb_rpcvers m = RPC_MSG_VERSION" using m by (simp_all add: call_ok_def)
  let ?m1 = "m0\<lparr>rm_xid := rm_xid m, rm_direction := rm_direction m\<rparr>"
  let ?m2 = "?m1\<lparr>cb_rpcvers := cb_rpcvers m\<rparr>"
  let ?m3 = "?m2\<lparr>cb_prog := cb_prog m, cb_vers := cb_vers m\<rparr>"
  have into: "call_into m ?m1 = call_into m m0" by (simp add: call_into_def)
  have d: "rm_xid ?m1 = rm_xid m" "rm_direction ?m1 = rm_direction m" by simp_all
  note tail = decodes_call_decode [OF m e(1,2) d, unfolded into]
  let ?rest = "(be32 (cb_proc m) @ e1 @ e2) @ rest"
  have ws: "rd x = words [rm_xid m, rm_direction m, cb_rpcvers m, cb_prog m, cb_vers m] @ ?rest"
    using x(2) e(3) by simp
  from x(1) ws show "\<exists>x'. xdr_dplx_decode ops x m0 = (True, call_into m m0, x') \<and> ready x' \<and> rd x' = rest"
  proof (cases rule: dplx_decode_cases [where ?m0.0 = m0])
    case (slow x1)
    then have r: "rd x1 = be32 (cb_rpcvers m) @ (be32 (cb_prog m) @ be32 (cb_vers m)) @ ?rest" by simp
    obtain x2 where x2: "xdr_getuint32 ops x1 (cb_rpcvers m0) = (True, cb_rpcvers m, x2)" "ready x2"
        "rd x2 = (be32 (cb_prog m) @ be32 (cb_vers m)) @ ?rest"
      by (rule decodesE [OF decodes_getuint32 slow(1) r])
    have "decodes (\<lambda>x. xdr_call_decode_prog ops NULL x ?m2) (be32 (cb_prog m) @ be32 (cb_vers m)) ?m3"
      unfolding xdr_call_decode_prog_def
      by (simp, rule decodes_cong, rule decodes_then, rule decodes_get_field, rule decodes_get_field) simp_all
    from decodesE [OF this x2(2,3)] obtain x3 where
      x3: "xdr_call_decode_prog ops NULL x2 ?m2 = (True, ?m3, x3)" "ready x3" "rd x3 = ?rest"
      by blast
    from decodesE [OF tail x3(2,3)] slow(3) x2(1) x3(1) k show ?thesis
      by (simp add: xdr_call_decode_def xdr_then_def [of "xdr_call_decode_prog ops NULL"]) metis
  next
    case (inline buf x1)
    from decodesE [OF tail inline(1,2)] inline(3-) k show ?thesis
      by (simp add: xdr_call_decode_def IXDR_GET_U_INT32_def
          xdr_then_def [of "xdr_call_decode_prog ops b" for b] xdr_call_decode_prog_def) metis
  qed
qed

end

section \<open>Replies on the wire\<close>

text \<open>
  An accepted reply carries the verifier, the status and, for a version mismatch, the versions; the
  results of a successful call follow, encoded by the caller.  A denied reply carries the reason.
\<close>

definition accepted_tail :: "('x, 'r) accepted_reply \<Rightarrow> u32 list" where
  "accepted_tail ar = (if ar_stat ar = PROG_MISMATCH then [low (ar_vers ar), high (ar_vers ar)] else [])"

definition accepted_wire :: "('x, 'r) rpc_msg \<Rightarrow> bytes \<Rightarrow> bool" where
  "accepted_wire m e \<longleftrightarrow> (\<exists>e1. auth_wire (ar_verf (rp_acpt (rm_reply m))) e1 \<and>
     e = words [rm_xid m, REPLY, MSG_ACCEPTED] @ e1 @
       words (ar_stat (rp_acpt (rm_reply m)) # accepted_tail (rp_acpt (rm_reply m))))"

definition accepted_size :: "('x, 'r) rpc_msg \<Rightarrow> nat" where
  "accepted_size m = 16 + auth_size (ar_verf (rp_acpt (rm_reply m))) +
     4 * length (accepted_tail (rp_acpt (rm_reply m)))"

definition accepted_ok :: "('x, 'r) rpc_msg \<Rightarrow> bool" where
  "accepted_ok m \<longleftrightarrow> rm_direction m = REPLY \<and> rp_stat (rm_reply m) = MSG_ACCEPTED \<and>
     auth_ok (ar_verf (rp_acpt (rm_reply m)))"

definition denied_tail :: "rejected_reply \<Rightarrow> u32 list" where
  "denied_tail rr = (if rj_stat rr = RPC_MISMATCH then [low (rj_vers rr), high (rj_vers rr)] else [rj_why rr])"

definition denied_ok :: "('x, 'r) rpc_msg \<Rightarrow> bool" where
  "denied_ok m \<longleftrightarrow> rm_direction m = REPLY \<and> rp_stat (rm_reply m) = MSG_DENIED \<and>
     rj_stat (rp_rjct (rm_reply m)) \<in> {RPC_MISMATCH, AUTH_ERROR}"

definition denied_words :: "('x, 'r) rpc_msg \<Rightarrow> u32 list" where
  "denied_words m = [rm_xid m, REPLY, MSG_DENIED, rj_stat (rp_rjct (rm_reply m))] @
     denied_tail (rp_rjct (rm_reply m))"

text \<open>What decoding a reply leaves in the object: only the member that the discriminant selects changes.\<close>

definition accepted_into :: "('x, 'r) accepted_reply \<Rightarrow> ('x, 'r) accepted_reply \<Rightarrow> ('x, 'r) accepted_reply" where
  "accepted_into ar ar0 = ar0\<lparr>ar_verf := auth_into (ar_verf ar) (ar_verf ar0), ar_stat := ar_stat ar,
     ar_vers := (if ar_stat ar = PROG_MISMATCH then ar_vers ar else ar_vers ar0)\<rparr>"

definition denied_into :: "rejected_reply \<Rightarrow> rejected_reply \<Rightarrow> rejected_reply" where
  "denied_into rr rr0 = rr0\<lparr>rj_stat := rj_stat rr,
     rj_vers := (if rj_stat rr = RPC_MISMATCH then rj_vers rr else rj_vers rr0),
     rj_why := (if rj_stat rr = RPC_MISMATCH then rj_why rr0 else rj_why rr)\<rparr>"

definition reply_into :: "('x, 'r) rpc_msg \<Rightarrow> ('x, 'r) rpc_msg \<Rightarrow> ('x, 'r) rpc_msg" where
  "reply_into m m0 = m0\<lparr>rm_xid := rm_xid m, rm_direction := REPLY,
     rm_reply := (let r = rm_reply m; r0 = rm_reply m0 in
       if rp_stat r = MSG_ACCEPTED
       then r0\<lparr>rp_stat := MSG_ACCEPTED, rp_acpt := accepted_into (rp_acpt r) (rp_acpt r0)\<rparr>
       else r0\<lparr>rp_stat := MSG_DENIED, rp_rjct := denied_into (rp_rjct r) (rp_rjct r0)\<rparr>)\<rparr>"

lemma versions_update [simp]: "(r :: rpcversions)\<lparr>low := low v, high := high v\<rparr> = v"
  by (cases r, cases v) simp

lemma unat_reply_reserve:
  assumes "auth_ok oa"
  shows "unat (6 * 4 + RNDUP (oa_length oa) :: u32) = 16 + auth_size oa"
proof -
  have "unat (RNDUP (oa_length oa)) \<le> 404"
    using assms auth_ok_length [of oa] padlen_less [of "unat (oa_length oa)"] by (simp add: unat_RNDUP_auth)
  then show ?thesis by (simp add: auth_size_def unat_word_ariths)
qed

context xdr_writer
begin

lemma encodes_opaque_auth:
  assumes "auth_ok oa"
  shows "encodes (\<lambda>x. xdr_opaque_auth ops x oa)
    (be32 (oa_flavor oa) @ be32 (oa_length oa) @ enc_opaque (auth_data oa)) oa"
  by (rule encodes_emits [OF emits_opaque_auth_encode [OF assms]]) (simp add: xdr_opaque_auth_def writable_def)

lemma encodes_versions: "encodes (\<lambda>x. xdr_versions ops x v) (words [low v, high v]) v"
  unfolding xdr_versions_def
  by (rule encodes_cong, rule encodes_then, (rule encodes_field, simp add: xdr_scalar_aliases,
        rule encodes_uint32_t)+) simp_all

lemma encodes_naccepted_reply:
  assumes "auth_ok (ar_verf ar)" "ar_stat ar \<noteq> SUCCESS"
  shows "encodes (\<lambda>x. xdr_naccepted_reply ops x ar)
    ((be32 (oa_flavor (ar_verf ar)) @ be32 (oa_length (ar_verf ar)) @ enc_opaque (auth_data (ar_verf ar))) @
     be32 (ar_stat ar) @ words (accepted_tail ar)) ar"
proof -
  have "encodes (\<lambda>x. if ar_stat ar = SUCCESS
        then xdr_field (ar_proc ar) ar_where (\<lambda>v p. p\<lparr>ar_where := v\<rparr>) x ar
        else if ar_stat ar = PROG_MISMATCH
        then xdr_field (xdr_versions ops) ar_vers (\<lambda>v p. p\<lparr>ar_vers := v\<rparr>) x ar
        else (True, ar, x)) (words (accepted_tail ar)) ar"
  proof (cases "ar_stat ar = PROG_MISMATCH")
    case True
    have "encodes (\<lambda>x. xdr_field (xdr_versions ops) ar_vers (\<lambda>v p. p\<lparr>ar_vers := v\<rparr>) x ar)
        (words [low (ar_vers ar), high (ar_vers ar)]) ar"
      by (rule encodes_cong, rule encodes_field, rule encodes_versions) simp_all
    then show ?thesis by (simp add: True accepted_tail_def)
  next
    case False
    then show ?thesis using assms(2) encodes_return by (simp add: accepted_tail_def)
  qed
  then show ?thesis
    unfolding xdr_naccepted_reply_def
    by (intro encodes_then) (rule encodes_cong, rule encodes_field,
        rule encodes_opaque_auth [OF assms(1)] encodes_enum, simp_all)+
qed

lemma encodes_reply_union:
  assumes "rp_stat r = MSG_ACCEPTED" "auth_ok (ar_verf (rp_acpt r))" "ar_stat (rp_acpt r) \<noteq> SUCCESS"
  defines "oa \<equiv> ar_verf (rp_acpt r)"
  shows "encodes (\<lambda>x. xdr_reply_union ops x r)
    (be32 MSG_ACCEPTED @ (be32 (oa_flavor oa) @ be32 (oa_length oa) @ enc_opaque (auth_data oa)) @
     be32 (ar_stat (rp_acpt r)) @ words (accepted_tail (rp_acpt r))) r"
proof -
  let ?e = "(be32 (oa_flavor oa) @ be32 (oa_length oa) @ enc_opaque (auth_data oa)) @
     be32 (ar_stat (rp_acpt r)) @ words (accepted_tail (rp_acpt r))"
  have "encodes (\<lambda>x. xdr_field (xdr_naccepted_reply ops) rp_acpt (\<lambda>v p. p\<lparr>rp_acpt := v\<rparr>) x r) ?e r"
    unfolding oa_def
    by (rule encodes_cong, rule encodes_field, rule encodes_naccepted_reply) (simp_all add: assms)
  then have "encodes (\<lambda>x. xdr_union ops (reply_dscrm ops) None x (MSG_ACCEPTED, r)) (be32 MSG_ACCEPTED @ ?e)
      (MSG_ACCEPTED, r)"
    by (rule encodes_union [rotated]) (simp add: reply_dscrm_def)
  then show ?thesis
    by (rule encodes_map) (use assms(1) in \<open>simp add: xdr_reply_union_def\<close>)
qed

text \<open>
  The encoder of accepted replies.  On a stream that is not contiguous the slow branch also encodes
  the results, so the lemma excludes success there.
\<close>

lemma encodes_reply_accepted:
  assumes m: "accepted_ok m"
    and c: "ar_stat (rp_acpt (rm_reply m)) \<noteq> SUCCESS \<or>
      (\<forall>x n. writable x \<longrightarrow> fits x n \<longrightarrow> x_data x + n \<le> vio_wrap (x_v x))"
  shows "encodes_any (\<lambda>x. xdr_reply_encode ops x m) (accepted_wire m) (accepted_size m) m"
  unfolding encodes_any_def
proof (intro allI impI)
  fix x k assume x: "writable x \<and> fits x (accepted_size m + k)"
  define ar where "ar = rp_acpt (rm_reply m)"
  define oa where "oa = ar_verf ar"
  have ok: "rm_direction m = REPLY" "rp_stat (rm_reply m) = MSG_ACCEPTED" "auth_ok oa" "\<not> oa_length oa > MAX_AUTH_BYTES"
    using m by (auto simp: accepted_ok_def auth_ok_def ar_def oa_def dest: leD)
  let ?n = "16 + auth_size oa"
  let ?t = "words (accepted_tail ar)"
  have sz: "accepted_size m = ?n + length ?t" by (simp add: accepted_size_def ar_def oa_def)
  let ?snd = "\<lambda>x. if ar_stat ar = PROG_MISMATCH then
      (case xdr_inline_encode x (2 * 4) of (buf, x) \<Rightarrow>
        if buf \<noteq> NULL then (True, x\<lparr>heap := fst (fold IXDR_PUT_INT32 (accepted_tail ar) (heap x, buf))\<rparr>)
        else on_ok (xdr_putuint32 ops x (low (ar_vers ar))) (\<lambda>x. xdr_putuint32 ops x (high (ar_vers ar))))
      else (True, x)"
  have snd: "emits ?snd ?t"
  proof (cases "ar_stat ar = PROG_MISMATCH")
    case True
    then have t: "accepted_tail ar = [low (ar_vers ar), high (ar_vers ar)]" by (simp add: accepted_tail_def)
    show ?thesis
      unfolding t by (rule emits_inline_words [OF emits_words_Cons [OF emits_words_1]]) (simp add: True t)
  qed (use emits_return in \<open>simp add: accepted_tail_def\<close>)
  note d = xdr_reply_encode_def xdr_reply_encode_accepted_def ok ar_def [symmetric] oa_def [symmetric]
    unat_reply_reserve [OF ok(3), simplified]
  from x have "writable x" by simp
  then show "\<exists>e x'. accepted_wire m e \<and> length e = accepted_size m \<and> xdr_reply_encode ops x m = (True, m, x') \<and>
      writable x' \<and> wr x' = wr x @ e \<and> fits x' k \<and> anchor x' = anchor x"
  proof (cases rule: inline_encode_cases [where n = ?n])
    case yes
    let ?ws = "[rm_xid m, REPLY, MSG_ACCEPTED]"
    let ?mb = "fold IXDR_PUT_INT32 ?ws (heap x, x_data x)"
    have "filled (heap x) (x_data x) ?mb (words ?ws)"
      using filled_words [OF filled_start, of "heap x" "x_data x" ?ws] by simp
    from filled_auth [OF ok(3) this] obtain e1 where e1: "auth_wire oa e1"
        "filled (heap x) (x_data x) (ixdr_put_auth oa ?mb) (words ?ws @ e1)" by blast
    let ?e = "(words ?ws @ e1) @ be32 (ar_stat ar)"
    let ?x = "(xdr_tail_update (x\<lparr>x_data := x_data x + ?n\<rparr>))\<lparr>heap := write_bytes (heap x) (x_data x) ?e\<rparr>"
    have f: "fst (IXDR_PUT_INT32 (ar_stat ar) (ixdr_put_auth oa ?mb)) = write_bytes (heap x) (x_data x) ?e"
      using filled_put [OF e1(2)] by (simp add: filled_def)
    have a: "?n mod 4 = 0" using auth_size_aligned [OF ok(3)] by (simp add: mod_add_eq [symmetric] del: mod_add_eq)
    have l: "length ?e = ?n" using auth_wire_length [OF ok(3) e1(1)] by simp
    have x1: "writable ?x" "wr ?x = wr x @ ?e" "fits ?x (length ?t + k)" "anchor ?x = anchor x"
      using inline_encode_fill [of x ?e "length ?t + k"] x yes(1) a by (simp_all only: l sz add.assoc)
    obtain x2 where x2: "?snd ?x = (True, x2)" "writable x2" "wr x2 = wr ?x @ ?t" "fits x2 k" "anchor x2 = anchor ?x"
      by (rule emitsE [OF snd x1(1,3)])
    have "xdr_reply_encode ops x m = keep m (?snd ?x)"
      using yes(2,3) f
      by (cases "ar_stat ar = PROG_MISMATCH") (simp_all add: d accepted_tail_def split: prod.split)
    moreover have "accepted_wire m (?e @ ?t)" using e1(1) by (auto simp: accepted_wire_def ar_def oa_def)
    ultimately show ?thesis
      using x1 x2 l by (intro exI [of _ "?e @ ?t"] exI [of _ x2]) (simp add: sz)
  next
    case no
    let ?a = "be32 (oa_flavor oa) @ be32 (oa_length oa) @ enc_opaque (auth_data oa)"
    have "fits x ?n" using x fits_mono [of x "accepted_size m + k" ?n] by (simp add: sz)
    with no(1) c x have s: "ar_stat (rp_acpt (rm_reply m)) \<noteq> SUCCESS" by auto
    let ?e = "(be32 (rm_xid m) @ be32 REPLY) @ be32 MSG_ACCEPTED @ ?a @ be32 (ar_stat ar) @ ?t"
    have "encodes (\<lambda>x. keep () (on_ok (xdr_putuint32 ops x (rm_xid m)) (\<lambda>x. xdr_putenum ops x REPLY)))
        (be32 (rm_xid m) @ be32 REPLY) ()"
      by (rule encodes_emits [OF emits_then [OF emits_putuint32 emits_putenum]]) simp
    moreover have "encodes (\<lambda>x. xdr_field (xdr_reply_union ops) rm_reply (\<lambda>v p. p\<lparr>rm_reply := v\<rparr>) x m)
        (be32 MSG_ACCEPTED @ ?a @ be32 (ar_stat ar) @ ?t) m"
      unfolding ar_def oa_def
      by (rule encodes_cong, rule encodes_field, rule encodes_reply_union)
        (use ok s in \<open>simp_all add: ar_def oa_def\<close>)
    ultimately have enc: "encodes (\<lambda>x. case on_ok (xdr_putuint32 ops x (rm_xid m)) (\<lambda>x. xdr_putenum ops x REPLY) of
        (False, x) \<Rightarrow> (False, m, x)
      | (True, x) \<Rightarrow> xdr_field (xdr_reply_union ops) rm_reply (\<lambda>v p. p\<lparr>rm_reply := v\<rparr>) x m) ?e m"
      by (rule encodes_bind) (auto simp: keep_def split: prod.splits)
    have w: "accepted_wire m ?e" "length ?e = accepted_size m"
      using auth_wire_zero_pad [OF ok(3)] auth_wire_length [OF ok(3) auth_wire_zero_pad [OF ok(3)]]
      by (auto simp: accepted_wire_def sz ar_def oa_def)
    from x w(2) have "writable x" "fits x (length ?e + k)" by simp_all
    then obtain x' where "(case on_ok (xdr_putuint32 ops x (rm_xid m)) (\<lambda>x. xdr_putenum ops x REPLY) of
        (False, x) \<Rightarrow> (False, m, x)
      | (True, x) \<Rightarrow> xdr_field (xdr_reply_union ops) rm_reply (\<lambda>v p. p\<lparr>rm_reply := v\<rparr>) x m) = (True, m, x')"
      "writable x'" "wr x' = wr x @ ?e" "fits x' k" "anchor x' = anchor x"
      by (rule encodesE [OF enc])
    with no(2) w show ?thesis by (intro exI [of _ ?e] exI [of _ x']) (simp add: d)
  qed
qed

lemma emits_reply_denied:
  assumes m: "denied_ok m"
  shows "emits (\<lambda>x. xdr_reply_encode_denied ops x m) (words (denied_words m))"
proof -
  let ?rr = "rp_rjct (rm_reply m)"
  have e: "words (denied_words m) = words [rm_xid m, REPLY, MSG_DENIED] @ words (rj_stat ?rr # denied_tail ?rr)"
    by (simp add: denied_words_def)
  have s: "rj_stat ?rr = RPC_MISMATCH \<or> rj_stat ?rr = AUTH_ERROR"
    and k: "rm_direction m = REPLY" "rp_stat (rm_reply m) = MSG_DENIED"
    using m by (auto simp: denied_ok_def)
  note slow = emits_words_Cons [OF emits_words_1]
  note slow3 = emits_words_Cons [OF slow]
  show ?thesis
    unfolding e xdr_reply_encode_denied_def Let_def
  proof (rule emits_then, goal_cases)
    case 1
    show ?case
      by (rule emits_inline_words [OF slow3]) (simp add: k xdr_unit_eqs split: prod.split)
  next
    case 2
    from s show ?case
    proof
      assume a: "rj_stat ?rr = RPC_MISMATCH"
      show ?thesis
        unfolding denied_tail_def a
        by (simp only: simp_thms if_True, rule emits_inline_words [OF slow3])
          (simp add: xdr_unit_eqs split: prod.split)
    next
      assume a: "rj_stat ?rr = AUTH_ERROR"
      show ?thesis
        unfolding denied_tail_def a
        by (simp only: one_neq_zero if_True if_False simp_thms, rule emits_inline_words [OF slow])
          (simp add: xdr_unit_eqs split: prod.split)
    qed
  qed
qed

end

context xdr_reader
begin

text \<open>The members behind the verifier of an accepted reply.\<close>

lemma decodes_accepted_rest:
  fixes ar ar1 :: "('a rpc_xdr_scheme, 'r) accepted_reply"
  shows "decodes (\<lambda>x. xdr_then (xdr_field (xdr_getenum ops) ar_stat (\<lambda>v p. p\<lparr>ar_stat := v\<rparr>))
      (\<lambda>x ar. if ar_stat ar = PROG_MISMATCH then
         xdr_field (xdr_then (xdr_field (xdr_getuint32 ops) low (\<lambda>v p. p\<lparr>low := v\<rparr>))
           (xdr_field (xdr_getuint32 ops) high (\<lambda>v p. p\<lparr>high := v\<rparr>))) ar_vers (\<lambda>v p. p\<lparr>ar_vers := v\<rparr>) x ar
       else (True, ar, x)) x ar1)
    (words (ar_stat ar # accepted_tail ar))
    (ar1\<lparr>ar_stat := ar_stat ar, ar_vers := (if ar_stat ar = PROG_MISMATCH then ar_vers ar else ar_vers ar1)\<rparr>)"
proof (cases "ar_stat ar = PROG_MISMATCH")
  case True
  show ?thesis
    by (rule decodes_cong, rule decodes_then, rule decodes_getenum_field [of _ _ _ "ar_stat ar"],
        simp add: True, rule decodes_field, rule decodes_then, rule decodes_get_field, rule decodes_get_field)
      (simp add: True accepted_tail_def)+
next
  case False
  show ?thesis
    by (rule decodes_cong, rule decodes_then, rule decodes_getenum_field [of _ _ _ "ar_stat ar"],
        simp add: False, rule decodes_return) (simp_all add: False accepted_tail_def)
qed

lemma decodes_dplx_accepted:
  assumes m: "accepted_ok m" and w: "accepted_wire m e"
  shows "decodes (\<lambda>x. xdr_dplx_decode ops x m0) e (reply_into m m0)"
proof (rule decodesI)
  fix x rest assume x: "ready x" "rd x = e @ rest"
  define ar where "ar = rp_acpt (rm_reply m)"
  define oa where "oa = ar_verf ar"
  define ar0 where "ar0 = rp_acpt (rm_reply m0)"
  have oa: "auth_ok oa" "rp_stat (rm_reply m) = MSG_ACCEPTED"
    using m by (simp_all add: accepted_ok_def oa_def ar_def)
  from w obtain p where p: "length p = padlen (unat (oa_length oa))"
      "e = words [rm_xid m, REPLY, MSG_ACCEPTED, oa_flavor oa, oa_length oa] @ (auth_data oa @ p) @
        words (ar_stat ar # accepted_tail ar)"
    unfolding accepted_wire_def auth_wire_def oa_def [symmetric] ar_def [symmetric] by fastforce
  let ?t = "words (ar_stat ar # accepted_tail ar) @ rest"
  let ?ar1 = "ar0\<lparr>ar_verf := auth_into oa (ar_verf ar0)\<rparr>"
  have ws: "rd x = words [rm_xid m, REPLY, MSG_ACCEPTED, oa_flavor oa, oa_length oa] @ (auth_data oa @ p) @ ?t"
    using x(2) p(2) by simp
  have into: "accepted_into ar ar0 = ?ar1\<lparr>ar_stat := ar_stat ar,
      ar_vers := (if ar_stat ar = PROG_MISMATCH then ar_vers ar else ar_vers ?ar1)\<rparr>"
    by (simp add: accepted_into_def oa_def)
  note tail = decodes_accepted_rest [of ?ar1 ar, folded into]
  note d = xdr_reply_decode_def xdr_reply_decode_accepted_def get_inline_def IXDR_GET_U_INT32_def
    xdr_field_def [where get = ar_verf] xdr_field_def [where get = rp_acpt] xdr_field_def [where get = rm_reply]
    xdr_then_def [of "xdr_field f ar_verf p" for f p] reply_into_def oa(2) ar_def [symmetric] ar0_def [symmetric]
  from x(1) ws show "\<exists>x'. xdr_dplx_decode ops x m0 = (True, reply_into m m0, x') \<and> ready x' \<and> rd x' = rest"
  proof (cases rule: dplx_decode_cases [where ?m0.0 = m0])
    case (inline buf x1)
    have "buf + 4 \<noteq> NULL" by simp
    from decodes_auth_inline [OF oa(1) p(1) inline(1,2) this inline(5,6), of "ar_verf ar0"]
    obtain x2 where x2: "xdr_opaque_auth_decode ops x1 (ar_verf ar0) (buf + 4) =
        (True, auth_into oa (ar_verf ar0), x2)" "ready x2" "rd x2 = ?t"
      by blast
    show ?thesis
      by (rule decodesE [OF tail x2(2,3)]) (use x2(1) inline(3-) in \<open>simp add: d\<close>)
  next
    case (slow x1)
    have r: "rd x1 = be32 MSG_ACCEPTED @ (be32 (oa_flavor oa) @ be32 (oa_length oa) @ auth_data oa @ p) @ ?t"
      using slow(2) by simp
    obtain x2 where x2: "xdr_getenum ops x1 (rp_stat (rm_reply m0)) = (True, MSG_ACCEPTED, x2)" "ready x2"
        "rd x2 = (be32 (oa_flavor oa) @ be32 (oa_length oa) @ auth_data oa @ p) @ ?t"
      by (rule decodesE [OF decodes_getenum slow(1) r])
    have "auth_wire oa (be32 (oa_flavor oa) @ be32 (oa_length oa) @ auth_data oa @ p)"
      using p(1) by (auto simp: auth_wire_def)
    from decodesE [OF decodes_opaque_auth_decode [OF oa(1) this] x2(2,3), of "ar_verf ar0"]
    obtain x3 where x3: "xdr_opaque_auth_decode ops x2 (ar_verf ar0) NULL =
        (True, auth_into oa (ar_verf ar0), x3)" "ready x3" "rd x3 = ?t"
      by blast
    show ?thesis
      by (rule decodesE [OF tail x3(2,3)]) (use x2(1) x3(1) slow(3) in \<open>simp add: d\<close>)
  qed
qed

lemma decodes_dplx_denied:
  assumes m: "denied_ok m"
  shows "decodes (\<lambda>x. xdr_dplx_decode ops x m0) (words (denied_words m)) (reply_into m m0)"
proof (rule decodesI)
  fix x rest assume x: "ready x" "rd x = words (denied_words m) @ rest"
  define rr where "rr = rp_rjct (rm_reply m)"
  define rr0 where "rr0 = rp_rjct (rm_reply m0)"
  define w where "w = (if rj_stat rr = RPC_MISMATCH then low (rj_vers rr) else rj_why rr)"
  define ws where "ws = (if rj_stat rr = RPC_MISMATCH then [high (rj_vers rr)] else [])"
  have k: "rp_stat (rm_reply m) = MSG_DENIED" "rj_stat rr = RPC_MISMATCH \<or> rj_stat rr = AUTH_ERROR"
    using m by (auto simp: denied_ok_def rr_def)
  have r: "rd x = words [rm_xid m, REPLY, MSG_DENIED, rj_stat rr, w] @ words ws @ rest"
    using x(2) by (simp add: denied_words_def denied_tail_def rr_def w_def ws_def)
  have fin: "\<exists>x'. (if rj_stat rr = RPC_MISMATCH
        then xdr_field (xdr_field (xdr_getuint32 ops) high (\<lambda>v p. p\<lparr>high := v\<rparr>)) rj_vers
          (\<lambda>v p. p\<lparr>rj_vers := v\<rparr>) x1 (rr0\<lparr>rj_stat := rj_stat rr, rj_vers := rj_vers rr0\<lparr>low := w\<rparr>\<rparr>)
        else (True, rr0\<lparr>rj_stat := rj_stat rr, rj_why := w\<rparr>, x1)) = (True, denied_into rr rr0, x') \<and>
      ready x' \<and> rd x' = rest" if "ready x1" "rd x1 = words ws @ rest" for x1
  proof (cases "rj_stat rr = RPC_MISMATCH")
    case True
    have e: "rd x1 = be32 (high (rj_vers rr)) @ rest" using that(2) True by (simp add: ws_def)
    from decodesE [OF decodes_getuint32 that(1) e, of "high (rj_vers rr0)"] obtain x2 where
      "xdr_getuint32 ops x1 (high (rj_vers rr0)) = (True, high (rj_vers rr), x2)" "ready x2" "rd x2 = rest" .
    then show ?thesis by (simp add: True xdr_field_def denied_into_def w_def)
  next
    case False
    with that show ?thesis by (simp add: ws_def denied_into_def w_def)
  qed
  note d = xdr_reply_decode_def xdr_reply_decode_denied_def get_inline_def IXDR_GET_U_INT32_def
    xdr_field_def [where get = rp_rjct] xdr_field_def [where get = rm_reply]
    reply_into_def k(1) rr_def [symmetric] rr0_def [symmetric]
  from x(1) r show "\<exists>x'. xdr_dplx_decode ops x m0 = (True, reply_into m m0, x') \<and> ready x' \<and> rd x' = rest"
  proof (cases rule: dplx_decode_cases [where ?m0.0 = m0])
    case (inline buf x1)
    with fin [OF inline(1,2)] k(2) show ?thesis by (auto simp: d)
  next
    case (slow x1)
    have "rd x1 = be32 MSG_DENIED @ be32 (rj_stat rr) @ be32 w @ words ws @ rest" using slow(2) by simp
    from decodesE [OF decodes_getenum slow(1) this, of "rp_stat (rm_reply m0)"] obtain x2 where
      x2: "xdr_getenum ops x1 (rp_stat (rm_reply m0)) = (True, MSG_DENIED, x2)" "ready x2"
        "rd x2 = be32 (rj_stat rr) @ be32 w @ words ws @ rest" .
    from decodesE [OF decodes_getenum x2(2,3), of "rj_stat rr0"] obtain x3 where
      x3: "xdr_getenum ops x2 (rj_stat rr0) = (True, rj_stat rr, x3)" "ready x3"
        "rd x3 = be32 w @ words ws @ rest" .
    from decodesE [OF decodes_getuint32 x3(2,3), of "low (rj_vers rr0)"] obtain x4 where
      x4: "xdr_getuint32 ops x3 (low (rj_vers rr0)) = (True, w, x4)" "ready x4" "rd x4 = words ws @ rest" .
    from decodesE [OF decodes_getenum x3(2,3), of "rj_why rr0"] obtain x5 where
      x5: "xdr_getenum ops x3 (rj_why rr0) = (True, w, x5)" "ready x5" "rd x5 = words ws @ rest" .
    from fin [OF x4(2,3)] fin [OF x5(2,3)] x2(1) x3(1) x4(1) x5(1) slow(3) k(2) show ?thesis by (auto simp: d)
  qed
qed

text \<open>What the decoder refuses, whatever follows.\<close>

lemma dplx_decode_refuses:
  assumes "ready x" "rd x = words [xid, dir, w2, w3, w4] @ rest"
    and bad: "dir \<noteq> CALL \<and> dir \<noteq> REPLY \<or> dir = CALL \<and> w2 \<noteq> RPC_MSG_VERSION \<or>
      dir = REPLY \<and> w2 \<noteq> MSG_ACCEPTED \<and> w2 \<noteq> MSG_DENIED \<or>
      dir = REPLY \<and> w2 = MSG_ACCEPTED \<and> w4 > MAX_AUTH_BYTES"
  shows "\<not> fst (xdr_dplx_decode ops x m0)"
proof -
  have auth: "\<not> fst (xdr_reply_decode_accepted ops buf x1 ar)"
    if "fst (xdr_opaque_auth_decode ops x1 (ar_verf ar) buf) = False" for buf x1 ar
    using that
    by (cases "xdr_opaque_auth_decode ops x1 (ar_verf ar) buf")
      (simp add: xdr_reply_decode_accepted_def xdr_then_def xdr_field_def [where get = ar_verf])
  note d = xdr_call_decode_def xdr_reply_decode_def get_inline_def IXDR_GET_U_INT32_def xdr_field_def
  from assms(1,2) show ?thesis
  proof (cases rule: dplx_decode_cases [where ?m0.0 = m0])
    case (inline buf x1)
    have "fst (xdr_opaque_auth_decode ops x1 (ar_verf (rp_acpt (rm_reply m0))) (buf + 4)) = False"
      if "w4 > MAX_AUTH_BYTES"
      using that inline(5,6)
      by (auto simp: xdr_opaque_auth_decode_def xdr_opaque_auth_decode_it_def IXDR_GET_U_INT32_def)
    from bad auth [OF this] inline show ?thesis
      by (elim disjE) (simp_all add: d case_prod_unfold)
  next
    case (slow x1)
    then have r: "rd x1 = be32 w2 @ be32 w3 @ be32 w4 @ rest" by simp
    obtain x2 where x2: "xdr_getuint32 ops x1 (cb_rpcvers m0) = (True, w2, x2)"
      by (rule decodesE [OF decodes_getuint32 slow(1) r])
    obtain x3 where x3: "xdr_getenum ops x1 (rp_stat (rm_reply m0)) = (True, w2, x3)" "ready x3"
        "rd x3 = be32 w3 @ be32 w4 @ rest"
      by (rule decodesE [OF decodes_getenum slow(1) r])
    from bad auth [OF opaque_auth_decode_too_long [OF x3(2,3)]] slow x2 x3(1) show ?thesis
      by (elim disjE) (simp_all add: d case_prod_unfold)
  qed
qed

text \<open>An authenticator of a call, the credential or the verifier behind a well-formed credential, that claims too many bytes.\<close>

lemma auth_field_too_long:
  assumes "ready x" "rd x = words [f, n] @ rest" "n > MAX_AUTH_BYTES"
  shows "\<not> fst (xdr_field (\<lambda>x oa. xdr_opaque_auth_decode ops x oa NULL) get put x p)"
  using opaque_auth_decode_too_long [OF assms(1) _ assms(3), of f rest "get p"] assms(2)
  by (auto simp: xdr_field_def split: prod.split)

lemma call_cred_too_long:
  assumes x: "ready x" "rd x = words [prc, f, n] @ rest" and n: "n > MAX_AUTH_BYTES"
  shows "\<not> fst (xdr_call_decode_cred ops x m)"
proof -
  have w: "3 * 4 = 4 * length [prc, f, n]" by simp
  from x w show ?thesis
  proof (cases rule: inline_decode_words)
    case no
    have r: "rd x = be32 prc @ words [f, n] @ rest" using x(2) by simp
    obtain x1 where x1: "xdr_field (xdr_getuint32 ops) cb_proc (\<lambda>v p. p\<lparr>cb_proc := v\<rparr>) x m = (True, m\<lparr>cb_proc := prc\<rparr>, x1)"
        "ready x1" "rd x1 = words [f, n] @ rest"
      by (rule decodesE [OF decodes_get_field x(1) r])
    from auth_field_too_long [OF x1(2,3) n] x1(1) no show ?thesis by (simp add: xdr_call_decode_cred_def xdr_then_def)
  next
    case (yes x')
    have "load32 (heap x') (x_data x) = prc" "load32 (heap x') (x_data x + 4) = f" "load32 (heap x') (x_data x + 4 + 4) = n"
      using yes(6) [of 0] yes(6) [of 1] yes(6) [of 2] by (simp_all add: yes(5) ac_simps)
    then show ?thesis using yes(1,2) n
      by (auto simp: xdr_call_decode_cred_def xdr_field_def IXDR_GET_U_INT32_def xdr_opaque_auth_decode_def xdr_opaque_auth_decode_it_def)
  qed
qed

lemma call_tail_refuses:
  assumes x: "ready x" "rd x = be32 prc @ e @ words [f, n] @ rest" and n: "n > MAX_AUTH_BYTES"
    and e: "e = [] \<or> (\<exists>c. auth_ok c \<and> auth_wire c e)"
  shows "\<not> fst (xdr_then (xdr_call_decode_cred ops)
    (xdr_field (\<lambda>x oa. xdr_opaque_auth_decode ops x oa NULL) cb_verf (\<lambda>v p. p\<lparr>cb_verf := v\<rparr>)) x m)"
  using e
proof
  assume "e = []"
  then have "\<not> fst (xdr_call_decode_cred ops x m)" using call_cred_too_long [OF x(1) _ n, of prc f rest m] x(2) by simp
  then show ?thesis by (cases "xdr_call_decode_cred ops x m") (simp add: xdr_then_def)
next
  assume "\<exists>c. auth_ok c \<and> auth_wire c e"
  then obtain c where c: "auth_ok c" "auth_wire c e" by blast
  have r: "rd x = (be32 prc @ e) @ words [f, n] @ rest" using x(2) by simp
  obtain x1 m1 where x1: "xdr_call_decode_cred ops x m = (True, m1, x1)" "ready x1" "rd x1 = words [f, n] @ rest"
    by (rule decodesE [OF decodes_call_cred [OF c, of m prc] x(1) r])
  from auth_field_too_long [OF x1(2,3) n] x1(1) show ?thesis by (simp add: xdr_then_def)
qed

lemma dplx_decode_refuses_auth:
  assumes x: "ready x" "rd x = words [xid, CALL, RPC_MSG_VERSION, prog, vers, prc] @ e @ words [f, n] @ rest" and n: "n > MAX_AUTH_BYTES"
    and e: "e = [] \<or> (\<exists>c. auth_ok c \<and> auth_wire c e)"
  shows "\<not> fst (xdr_dplx_decode ops x m0)"
proof -
  let ?rest = "be32 prc @ e @ words [f, n] @ rest"
  have ws: "rd x = words [xid, CALL, RPC_MSG_VERSION, prog, vers] @ ?rest" using x(2) by simp
  from x(1) ws show ?thesis
  proof (cases rule: dplx_decode_cases [where ?m0.0 = m0])
    case (slow x1)
    then have r: "rd x1 = be32 RPC_MSG_VERSION @ (be32 prog @ be32 vers) @ ?rest" by simp
    obtain x2 where x2: "xdr_getuint32 ops x1 (cb_rpcvers m0) = (True, RPC_MSG_VERSION, x2)" "ready x2" "rd x2 = (be32 prog @ be32 vers) @ ?rest"
      by (rule decodesE [OF decodes_getuint32 slow(1) r])
    let ?m2 = "m0\<lparr>rm_xid := xid, rm_direction := CALL, cb_rpcvers := RPC_MSG_VERSION\<rparr>"
    have "decodes (\<lambda>x. xdr_call_decode_prog ops NULL x ?m2) (be32 prog @ be32 vers) (?m2\<lparr>cb_prog := prog, cb_vers := vers\<rparr>)"
      unfolding xdr_call_decode_prog_def
      by (simp, rule decodes_cong, rule decodes_then, rule decodes_get_field, rule decodes_get_field) simp_all
    from decodesE [OF this x2(2,3)] obtain x3 where
      x3: "xdr_call_decode_prog ops NULL x2 ?m2 = (True, ?m2\<lparr>cb_prog := prog, cb_vers := vers\<rparr>, x3)" "ready x3" "rd x3 = ?rest"
      by blast
    from call_tail_refuses [OF x3(2,3) n e] slow(3) x2(1) x3(1) show ?thesis
      by (simp add: xdr_call_decode_def xdr_then_def [of "xdr_call_decode_prog ops NULL"])
  next
    case (inline buf x1)
    from call_tail_refuses [OF inline(1,2) n e] inline(3-) show ?thesis
      by (simp add: xdr_call_decode_def IXDR_GET_U_INT32_def
          xdr_then_def [of "xdr_call_decode_prog ops b" for b] xdr_call_decode_prog_def)
  qed
qed

lemmas dplx_ready = ready_def xdr_dplx_msg_def xdr_ncallmsg_def

lemma decodes_dplx_msg: "decodes (\<lambda>x. xdr_dplx_decode ops x m0) e v \<Longrightarrow> decodes (\<lambda>x. xdr_dplx_msg ops x m0) e v"
  by (erule decodes_map) (simp add: dplx_ready)

lemma decodes_ncallmsg:
  "decodes (\<lambda>x. xdr_dplx_decode ops x m0) e v \<Longrightarrow> rm_direction v = CALL \<Longrightarrow>
   decodes (\<lambda>x. xdr_ncallmsg ops x m0) e v"
  by (erule decodes_map) (simp add: dplx_ready)

end

context xdr_writer
begin

lemma encodes_dplx_call:
  assumes "call_ok m"
  shows "encodes_any (\<lambda>x. xdr_dplx_msg ops x m) (call_wire m) (call_size m) m"
    and "encodes_any (\<lambda>x. xdr_ncallmsg ops x m) (call_wire m) (call_size m) m"
  by (rule encodes_any_emits [OF emits_call_encode [OF assms]],
      use assms in \<open>simp add: xdr_dplx_msg_def xdr_ncallmsg_def writable_def call_ok_def\<close>)+

lemma encodes_dplx_denied:
  assumes "denied_ok m"
  shows "encodes (\<lambda>x. xdr_dplx_msg ops x m) (words (denied_words m)) m"
  by (rule encodes_emits [OF emits_reply_denied [OF assms]])
    (use assms in \<open>simp add: xdr_dplx_msg_def xdr_reply_encode_def writable_def denied_ok_def\<close>)

lemma encodes_dplx_accepted:
  assumes "accepted_ok m"
    and "ar_stat (rp_acpt (rm_reply m)) \<noteq> SUCCESS \<or>
      (\<forall>x n. writable x \<longrightarrow> fits x n \<longrightarrow> x_data x + n \<le> vio_wrap (x_v x))"
  shows "encodes_any (\<lambda>x. xdr_dplx_msg ops x m) (accepted_wire m) (accepted_size m) m"
proof -
  have "xdr_dplx_msg ops x m = xdr_reply_encode ops x m" if "writable x" for x
    using that assms(1) by (simp add: xdr_dplx_msg_def writable_def accepted_ok_def)
  then show ?thesis
    using encodes_reply_accepted [OF assms] by (simp add: encodes_any_def)
qed

end

section \<open>Properties\<close>

text \<open>Objects for the witnesses.\<close>

definition auth_blank :: opaque_auth where
  "auth_blank = \<lparr>oa_flavor = 0, oa_length = 0, oa_body = replicate 400 0\<rparr>"

definition auth_demo :: opaque_auth where
  "auth_demo = \<lparr>oa_flavor = 1, oa_length = 5, oa_body = [7, 8, 9, 10, 11] @ replicate 395 0\<rparr>"

definition msg_blank :: "(unit, unit) msg" where
  "msg_blank = \<lparr>rm_xid = 0, rm_direction = 0, cb_rpcvers = 0,
     rm_reply = \<lparr>rp_stat = 0,
       rp_acpt = \<lparr>ar_stat = 0, ar_vers = \<lparr>low = 0, high = 0\<rparr>, ar_proc = (\<lambda>x v. (True, v, x)), ar_where = (),
         ar_verf = auth_blank\<rparr>,
       rp_rjct = \<lparr>rj_stat = 0, rj_vers = \<lparr>low = 0, high = 0\<rparr>, rj_why = 0\<rparr>\<rparr>,
     cb_prog = 0, cb_vers = 0, cb_proc = 0, cb_cred = auth_blank, cb_verf = auth_blank\<rparr>"

definition call_demo :: "(unit, unit) msg" where
  "call_demo = msg_blank\<lparr>rm_xid := 0x1234, cb_rpcvers := 2, cb_prog := 100003, cb_vers := 3, cb_proc := 1,
     cb_cred := auth_demo\<rparr>"

definition accepted_demo :: "u32 \<Rightarrow> (unit, unit) msg" where
  "accepted_demo stat = msg_blank\<lparr>rm_xid := 0x1234, rm_direction := REPLY,
     rm_reply := (rm_reply msg_blank)\<lparr>rp_acpt := (rp_acpt (rm_reply msg_blank))\<lparr>ar_stat := stat,
       ar_vers := \<lparr>low = 3, high = 4\<rparr>, ar_verf := auth_demo\<rparr>\<rparr>\<rparr>"

definition denied_demo :: "u32 \<Rightarrow> (unit, unit) msg" where
  "denied_demo stat = msg_blank\<lparr>rm_xid := 0x1234, rm_direction := REPLY,
     rm_reply := (rm_reply msg_blank)\<lparr>rp_stat := MSG_DENIED,
       rp_rjct := \<lparr>rj_stat = stat, rj_vers = \<lparr>low = 2, high = 2\<rparr>, rj_why = 5\<rparr>\<rparr>\<rparr>"

lemmas demo_defs = auth_blank_def auth_demo_def msg_blank_def call_demo_def accepted_demo_def denied_demo_def

lemma call_demo_ok: "call_ok call_demo" "call_size call_demo = 48"
  by (simp_all add: call_ok_def auth_ok_def call_size_def auth_size_def RNDUP_def demo_defs)

lemma reply_demo_ok:
  "accepted_ok (accepted_demo s)" "accepted_size (accepted_demo s) \<le> 40"
  "s \<in> {RPC_MISMATCH, AUTH_ERROR} \<Longrightarrow> denied_ok (denied_demo s)" "length (denied_words (denied_demo s)) \<le> 6"
  by (simp_all add: accepted_ok_def denied_ok_def auth_ok_def accepted_size_def auth_size_def RNDUP_def
      accepted_tail_def denied_words_def denied_tail_def demo_defs)

text \<open>
  C17: A call message that is well formed (direction call, RPC version 2, credential and verifier of
  at most 400 bytes) is written to a memory stream that has room for it and read back from those bytes
  by \<^verbatim>\<open>xdr_dplx_msg\<close> and by \<^verbatim>\<open>xdr_ncallmsg\<close> with every member of the call as it was, whatever the object
  that receives it held before, and with the rest of that object unchanged.
\<close>

theorem call_message_roundtrip:
  assumes "call_ok m" "a \<noteq> NULL" "a mod 4 = 0" "call_size m \<le> unat sz"
  shows "mem_roundtrip a sz (xdr_dplx_msg xdrmem_ops_aligned) m m0 xdrs = Some (call_into m m0) \<and>
    mem_roundtrip a sz (xdr_ncallmsg xdrmem_ops_aligned) m m0 xdrs = Some (call_into m m0)"
proof -
  have c: "rm_direction (call_into m m0) = CALL" using assms(1) by (simp add: call_into_def call_ok_def)
  note d = mem_r.decodes_dplx_call [OF assms(1), where ?m0.0 = m0]
  show ?thesis
    unfolding mem_roundtrip_def
    using mem_transfer_any [OF mem_w.encodes_dplx_call(1) [OF assms(1)] mem_r.decodes_dplx_msg [OF d] assms(2-4)]
      mem_transfer_any [OF mem_w.encodes_dplx_call(2) [OF assms(1)] mem_r.decodes_ncallmsg [OF d c] assms(2-4)]
    by blast
qed

theorem call_message_roundtrip_witness:
  "mem_roundtrip 8 64 (xdr_dplx_msg xdrmem_ops_aligned) call_demo msg_blank xdr_blank = Some (call_into call_demo msg_blank) \<and>
   mem_roundtrip 8 64 (xdr_ncallmsg xdrmem_ops_aligned) call_demo msg_blank xdr_blank = Some (call_into call_demo msg_blank)"
  using call_message_roundtrip [OF call_demo_ok(1), of 8 64 msg_blank xdr_blank] call_demo_ok(2) by simp

lemma reply_transfer:
  assumes "accepted_ok m \<and> accepted_size m \<le> unat sz \<or> denied_ok m \<and> 4 * length (denied_words m) \<le> unat sz"
    and "a \<noteq> NULL" "a mod 4 = 0"
  shows "mem_roundtrip a sz (xdr_dplx_msg xdrmem_ops_aligned) m m0 xdrs = Some (reply_into m m0)"
  using assms(1)
proof
  assume m: "accepted_ok m \<and> accepted_size m \<le> unat sz"
  have "mem_w.encodes_any (\<lambda>x. xdr_dplx_msg xdrmem_ops_aligned x m) (accepted_wire m) (accepted_size m) m"
    by (rule mem_w.encodes_dplx_accepted) (use m in \<open>auto simp: mem_fits_def\<close>)
  then show ?thesis
    unfolding mem_roundtrip_def
    by (rule mem_transfer_any) (use m assms(2,3) in \<open>auto intro: mem_r.decodes_dplx_msg mem_r.decodes_dplx_accepted\<close>)
next
  assume m: "denied_ok m \<and> 4 * length (denied_words m) \<le> unat sz"
  then have d: "denied_ok m" by simp
  show ?thesis
    by (rule mem_roundtrip_ok, rule mem_w.encodes_dplx_denied [OF d],
        rule mem_r.decodes_dplx_msg [OF mem_r.decodes_dplx_denied [OF d]]) (use m assms(2,3) in simp_all)
qed

lemma accepted_status_cases:
  "(st :: u32) \<le> SYSTEM_ERR \<Longrightarrow> st \<in> {0, 1, 2, 3, 4, 5}"
proof -
  assume "st \<le> SYSTEM_ERR"
  then have "unat st \<in> {0, 1, 2, 3, 4, 5}" by (auto simp: word_le_nat_alt)
  then show ?thesis by (simp add: word_unat_eq_iff)
qed

lemma seterr_reply_into:
  "accepted_ok m \<or> denied_ok m \<Longrightarrow> seterr_reply (reply_into m m0) err =
    (let ar = rp_acpt (rm_reply m); rr = rp_rjct (rm_reply m); st = ar_stat ar in
     if rp_stat (rm_reply m) = MSG_ACCEPTED then
       if st = PROG_MISMATCH then err\<lparr>re_status := RPC_PROGVERSMISMATCH, re_vers := ar_vers ar\<rparr>
       else if st \<le> SYSTEM_ERR then err\<lparr>re_status := [RPC_SUCCESS, RPC_PROGUNAVAIL, RPC_PROGVERSMISMATCH,
           RPC_PROCUNAVAIL, RPC_CANTDECODEARGS, RPC_SYSTEMERROR] ! unat st\<rparr>
       else err\<lparr>re_status := RPC_FAILED, re_lb := (MSG_ACCEPTED, st)\<rparr>
     else if rj_stat rr = RPC_MISMATCH then err\<lparr>re_status := RPC_VERSMISMATCH, re_vers := rj_vers rr\<rparr>
     else err\<lparr>re_status := RPC_AUTHERROR, re_why := rj_why rr\<rparr>)"
proof (elim disjE)
  assume m: "accepted_ok m"
  let ?st = "ar_stat (rp_acpt (rm_reply m))"
  show ?thesis
  proof (cases "?st \<le> SYSTEM_ERR")
    case True
    with accepted_status_cases [OF True] m show ?thesis
      by (auto simp: seterr_reply_def accepted_def reply_into_def accepted_into_def accepted_ok_def Let_def)
  next
    case False
    then have "?st \<notin> {0, 1, 2, 3, 4, 5}" by auto
    with False m show ?thesis
      by (simp add: seterr_reply_def accepted_def reply_into_def accepted_into_def accepted_ok_def Let_def)
  qed
next
  assume "denied_ok m"
  then show ?thesis
    by (auto simp: seterr_reply_def rejected_def reply_into_def denied_into_def denied_ok_def Let_def)
qed

text \<open>
  C18: A reply, accepted with any status or denied for either reason, is written to a memory stream
  that has room for it and read back by \<^verbatim>\<open>xdr_dplx_msg\<close> with its discriminants and the members they select
  as they were.
\<close>

theorem reply_message_roundtrip:
  assumes "accepted_ok m \<and> accepted_size m \<le> unat sz \<or> denied_ok m \<and> 4 * length (denied_words m) \<le> unat sz"
    and "a \<noteq> NULL" "a mod 4 = 0"
  shows "mem_roundtrip a sz (xdr_dplx_msg xdrmem_ops_aligned) m m0 xdrs = Some (reply_into m m0)"
  by (rule reply_transfer [OF assms])

theorem reply_message_roundtrip_witness:
  "mem_roundtrip 8 64 (xdr_dplx_msg xdrmem_ops_aligned) (accepted_demo PROG_MISMATCH) msg_blank xdr_blank =
     Some (reply_into (accepted_demo PROG_MISMATCH) msg_blank) \<and>
   mem_roundtrip 8 64 (xdr_dplx_msg xdrmem_ops_aligned) (denied_demo AUTH_ERROR) msg_blank xdr_blank =
     Some (reply_into (denied_demo AUTH_ERROR) msg_blank)"
  using reply_message_roundtrip [of "accepted_demo PROG_MISMATCH" 64 8 msg_blank xdr_blank]
    reply_message_roundtrip [of "denied_demo AUTH_ERROR" 64 8 msg_blank xdr_blank]
    reply_demo_ok(1,2) [of PROG_MISMATCH] reply_demo_ok(3,4) [of AUTH_ERROR] by simp

text \<open>
  The bytes of a message that cannot be right, as far as its head and the lengths of its authenticators show: an
  unknown direction, version or status, or an authenticator of more than 400 bytes.
\<close>

definition malformed_head :: "u32 \<Rightarrow> u32 \<Rightarrow> u32 \<Rightarrow> bool" where
  "malformed_head dir w2 w4 \<longleftrightarrow> dir \<noteq> CALL \<and> dir \<noteq> REPLY \<or> dir = CALL \<and> w2 \<noteq> RPC_MSG_VERSION \<or>
     dir = REPLY \<and> w2 \<noteq> MSG_ACCEPTED \<and> w2 \<noteq> MSG_DENIED \<or> dir = REPLY \<and> w2 = MSG_ACCEPTED \<and> w4 > MAX_AUTH_BYTES"

inductive malformed_msg :: "bytes \<Rightarrow> bool" where
  head: "malformed_head dir w2 w4 \<Longrightarrow> malformed_msg (words [xid, dir, w2, w3, w4] @ rest)"
| call_cred: "n > MAX_AUTH_BYTES \<Longrightarrow> malformed_msg (words [xid, CALL, RPC_MSG_VERSION, prog, vers, prc] @ words [f, n] @ rest)"
| call_verf: "auth_ok c \<Longrightarrow> auth_wire c e \<Longrightarrow> n > MAX_AUTH_BYTES \<Longrightarrow>
    malformed_msg (words [xid, CALL, RPC_MSG_VERSION, prog, vers, prc] @ e @ words [f, n] @ rest)"

text \<open>
  C19: Decoding a message from a readable memory stream fails, whatever follows, when the direction is neither call
  nor reply, when a call has an RPC version other than 2, when the status of a reply is neither accepted nor
  denied, and when an authenticator claims more than 400 bytes: the verifier of an accepted reply, the
  credential of a call, or the verifier of a call behind a well-formed credential.
\<close>

theorem malformed_message_rejected:
  assumes "mem_r.ready x" "malformed_msg (mem_rd x)"
  shows "\<not> fst (xdr_dplx_msg xdrmem_ops_aligned x m0)"
proof -
  have "\<not> fst (xdr_dplx_decode xdrmem_ops_aligned x m0)"
    using assms(2)
  proof cases
    case (head dir w2 w4 xid w3 rest)
    then show ?thesis using mem_r.dplx_decode_refuses [OF assms(1) head(1) head(2) [unfolded malformed_head_def]] by simp
  next
    case (call_cred n xid prog vers prc f rest)
    then show ?thesis using mem_r.dplx_decode_refuses_auth [OF assms(1), of xid prog vers prc "[]" f n rest] by simp
  next
    case (call_verf c e n xid prog vers prc f rest)
    then show ?thesis using mem_r.dplx_decode_refuses_auth [OF assms(1) call_verf(1) call_verf(4)] by blast
  qed
  then show ?thesis using assms(1) by (simp add: xdr_dplx_msg_def mem_r.ready_def)
qed

lemma malformed_demo:
  "malformed_msg (words [9, 7, 2, 0, 0])" "malformed_msg (words [9, CALL, 3, 0, 0])" "malformed_msg (words [9, REPLY, 0, 0, 401])"
  "malformed_msg (words [9, CALL, 2, 100003, 3, 1, 1, 401])" "malformed_msg (words [9, CALL, 2, 100003, 3, 1, 0, 0, 1, 401])"
proof -
  show "malformed_msg (words [9, 7, 2, 0, 0])" "malformed_msg (words [9, CALL, 3, 0, 0])" "malformed_msg (words [9, REPLY, 0, 0, 401])"
    using malformed_msg.head [of 7 2 0 9 0 "[]"] malformed_msg.head [of CALL 3 0 9 0 "[]"] malformed_msg.head [of REPLY 0 401 9 0 "[]"]
    by (simp_all add: malformed_head_def)
  show "malformed_msg (words [9, CALL, 2, 100003, 3, 1, 1, 401])" using malformed_msg.call_cred [of 401 9 100003 3 1 1 "[]"] by simp
  have "auth_ok (auth_blank\<lparr>oa_flavor := 0, oa_length := 0\<rparr>)" "auth_wire (auth_blank\<lparr>oa_flavor := 0, oa_length := 0\<rparr>) (words [0, 0])"
    by (simp_all add: auth_ok_def auth_wire_def auth_data_def auth_blank_def padlen_def)
  from malformed_msg.call_verf [OF this, of 401 9 100003 3 1 1 "[]"] show "malformed_msg (words [9, CALL, 2, 100003, 3, 1, 0, 0, 1, 401])" by simp
qed

theorem malformed_message_rejected_witness:
  "\<not> fst (xdr_dplx_msg xdrmem_ops_aligned (xdr_demo_read (words [9, 7, 2, 0, 0])) msg_blank) \<and>
   \<not> fst (xdr_dplx_msg xdrmem_ops_aligned (xdr_demo_read (words [9, CALL, 3, 0, 0])) msg_blank) \<and>
   \<not> fst (xdr_dplx_msg xdrmem_ops_aligned (xdr_demo_read (words [9, REPLY, 0, 0, 401])) msg_blank) \<and>
   \<not> fst (xdr_dplx_msg xdrmem_ops_aligned (xdr_demo_read (words [9, CALL, 2, 100003, 3, 1, 1, 401])) msg_blank) \<and>
   \<not> fst (xdr_dplx_msg xdrmem_ops_aligned (xdr_demo_read (words [9, CALL, 2, 100003, 3, 1, 0, 0, 1, 401])) msg_blank)"
proof -
  have r: "mem_r.ready (xdr_demo_read (words ws))" "mem_rd (xdr_demo_read (words ws)) = words ws" if "length ws \<le> 10" for ws
    using xdr_demo_read_ready [of "words ws"] that by simp_all
  have "\<not> fst (xdr_dplx_msg xdrmem_ops_aligned (xdr_demo_read (words ws)) msg_blank)" if "length ws \<le> 10" "malformed_msg (words ws)" for ws
    by (rule malformed_message_rejected [OF r(1) [OF that(1)]]) (simp only: r(2) [OF that(1)] that(2))
  then show ?thesis using malformed_demo by (simp del: words_simps)
qed

text \<open>
  C20: What a client learns from a reply: after the reply has been written and read back,
  \<^verbatim>\<open>_seterr_reply\<close> on the decoded message reports the status that the server meant, the versions on a
  mismatch and the reason on an authentication error.
\<close>

theorem seterr_reply_after_transfer:
  assumes "a \<noteq> NULL" "a mod 4 = 0"
    and "accepted_ok m \<and> accepted_size m \<le> unat sz \<or> denied_ok m \<and> 4 * length (denied_words m) \<le> unat sz"
    and "mem_roundtrip a sz (xdr_dplx_msg xdrmem_ops_aligned) m m0 xdrs = Some r"
  shows "seterr_reply r err =
    (let ar = rp_acpt (rm_reply m); rr = rp_rjct (rm_reply m); st = ar_stat ar in
     if rp_stat (rm_reply m) = MSG_ACCEPTED then
       if st = PROG_MISMATCH then err\<lparr>re_status := RPC_PROGVERSMISMATCH, re_vers := ar_vers ar\<rparr>
       else if st \<le> SYSTEM_ERR then err\<lparr>re_status := [RPC_SUCCESS, RPC_PROGUNAVAIL, RPC_PROGVERSMISMATCH,
           RPC_PROCUNAVAIL, RPC_CANTDECODEARGS, RPC_SYSTEMERROR] ! unat st\<rparr>
       else err\<lparr>re_status := RPC_FAILED, re_lb := (MSG_ACCEPTED, st)\<rparr>
     else if rj_stat rr = RPC_MISMATCH then err\<lparr>re_status := RPC_VERSMISMATCH, re_vers := rj_vers rr\<rparr>
     else err\<lparr>re_status := RPC_AUTHERROR, re_why := rj_why rr\<rparr>)"
proof -
  have r: "r = reply_into m m0" using reply_transfer [OF assms(3,1,2), of m0 xdrs] assms(4) by simp
  show ?thesis
    unfolding r using assms(3) seterr_reply_into [of m m0 err] by auto
qed

theorem seterr_reply_after_transfer_witness:
  "seterr_reply (reply_into (denied_demo AUTH_ERROR) msg_blank)
      \<lparr>re_status = 0, re_errno = 0, re_why = 0, re_vers = \<lparr>low = 0, high = 0\<rparr>, re_lb = (0, 0)\<rparr> =
    \<lparr>re_status = RPC_AUTHERROR, re_errno = 0, re_why = 5, re_vers = \<lparr>low = 0, high = 0\<rparr>, re_lb = (0, 0)\<rparr>"
proof -
  let ?m = "denied_demo AUTH_ERROR"
  have m: "denied_ok ?m \<and> 4 * length (denied_words ?m) \<le> unat (64 :: u32)"
    using reply_demo_ok(3,4) [of AUTH_ERROR] by simp
  then have t: "mem_roundtrip 8 64 (xdr_dplx_msg xdrmem_ops_aligned) ?m msg_blank xdr_blank =
      Some (reply_into ?m msg_blank)"
    by (intro reply_transfer) simp_all
  have "rp_stat (rm_reply ?m) \<noteq> MSG_ACCEPTED" "rj_stat (rp_rjct (rm_reply ?m)) = AUTH_ERROR"
      "rj_why (rp_rjct (rm_reply ?m)) = 5"
    by (simp_all add: demo_defs)
  with seterr_reply_after_transfer [OF _ _ disjI2 [OF m] t] show ?thesis by (simp add: Let_def)
qed

text \<open>
  C21: The encoder of calls has two branches, one that stores the message in line and one that puts
  unit after unit.  On a memory stream with room for the message, and with a credential and a verifier
  whose lengths are multiples of four, so that nothing is padded, the branch that is taken writes
  exactly the bytes that the other one would write.
\<close>

theorem call_encode_branches_agree:
  assumes "mem_w.writable x" "mem_fits x (call_size m)" "call_ok m"
    and "unat (oa_length (cb_cred m)) mod 4 = 0" "unat (oa_length (cb_verf m)) mod 4 = 0"
  shows "\<exists>x1 x2. xdr_call_encode xdrmem_ops_aligned x m = (True, x1) \<and>
    xdr_call_encode_slow xdrmem_ops_aligned x m = (True, x2) \<and> mem_wr x1 = mem_wr x2"
proof -
  have w: "e = e'" if "call_wire m e" "call_wire m e'" for e e'
    using that assms(4,5) by (auto simp: call_wire_def auth_wire_def padlen_def)
  from assms(1,2) have "mem_w.writable x \<and> mem_fits x (call_size m + 0)" by simp
  then obtain e1 x1 e2 x2 where
    "call_wire m e1" "xdr_call_encode xdrmem_ops_aligned x m = (True, x1)" "mem_wr x1 = mem_wr x @ e1"
    "call_wire m e2" "xdr_call_encode_slow xdrmem_ops_aligned x m = (True, x2)" "mem_wr x2 = mem_wr x @ e2"
    using mem_w.emits_call_encode [OF assms(3), unfolded mem_w.emits_any_def]
      mem_w.emits_call_encode_slow [OF assms(3), unfolded mem_w.emits_any_def] by meson
  with w [of e1 e2] show ?thesis by simp
qed

theorem call_encode_branches_agree_witness:
  "\<exists>x1 x2. xdr_call_encode xdrmem_ops_aligned (xdr_demo 64 XDR_ENCODE) (call_demo\<lparr>cb_cred := auth_blank\<rparr>) = (True, x1) \<and>
    xdr_call_encode_slow xdrmem_ops_aligned (xdr_demo 64 XDR_ENCODE) (call_demo\<lparr>cb_cred := auth_blank\<rparr>) = (True, x2) \<and>
    mem_wr x1 = mem_wr x2"
proof -
  let ?m = "call_demo\<lparr>cb_cred := auth_blank\<rparr>"
  obtain x where x: "xdrmem_ncreate xdr_blank 64 64 XDR_ENCODE = Some x" by (simp add: xdrmem_ncreate_def)
  have "mem_w.writable x" "mem_fits x 64"
    using xdrmem_ncreate_encode [OF x] by simp_all
  moreover have "xdr_demo 64 XDR_ENCODE = x" by (simp add: xdr_demo_def x)
  moreover have "call_ok ?m" "call_size ?m = 40"
    by (simp_all add: call_ok_def auth_ok_def call_size_def auth_size_def RNDUP_def demo_defs)
  ultimately show ?thesis
    by (intro call_encode_branches_agree) (simp_all add: demo_defs mem_fits_def)
qed

text \<open>
  With a padded credential the branches differ: in line, the padding keeps what the buffer held.  Here
  the buffer is full of \<^verbatim>\<open>0xFF\<close>, the credential has five bytes and the byte behind them is sent as \<^verbatim>\<open>0xFF\<close>.
\<close>

lemma call_encode_padding_unwritten:
  "heap (snd (xdr_call_encode xdrmem_ops_aligned ((xdr_demo 64 XDR_ENCODE)\<lparr>heap := \<lambda>_. 0xFF\<rparr>) call_demo)) (64 + 37) = 0xFF \<and>
   heap (snd (xdr_call_encode_slow xdrmem_ops_aligned ((xdr_demo 64 XDR_ENCODE)\<lparr>heap := \<lambda>_. 0xFF\<rparr>) call_demo)) (64 + 37) = 0"
  by code_simp

end
