(* ===== verification/Xdr_Ioq.thy ===== *)
theory Xdr_Ioq
  imports Xdr_Handle
begin

text \<open>
  The queue of buffers that the transports read from and write to, \<^verbatim>\<open>src/xdr_ioq.c\<close>.  \<^verbatim>\<open>struct xdr_ioq\<close>
  extends the handle.  A buffer (\<^verbatim>\<open>struct xdr_ioq_uv\<close>) is a number: \<open>vios\<close> holds its vector \<^verbatim>\<open>v\<close> and
  \<open>uvs\<close> its \<^verbatim>\<open>u\<close>; the queue is the list \<open>uvqh\<close> of buffers in order.  \<^verbatim>\<open>mem_alloc\<close> of a buffer returns the
  address \<open>brk\<close>, above every block in use, and a new \<^verbatim>\<open>xdr_ioq_uv\<close> is the number \<open>next_uv\<close>.  The calls that
  give up a buffer are recorded in \<open>ulog\<close>, most recent first.  \<^verbatim>\<open>uvq_fetch\<close> is set only by the RDMA
  transport and is null here.  \<^verbatim>\<open>abort()\<close>, a null dereference and a loop that does not end are \<open>None\<close>.
\<close>

section \<open>Queue and buffers\<close>

abbreviation UIO_FLAG_NONE :: u32 where "UIO_FLAG_NONE \<equiv> 0"
abbreviation UIO_FLAG_BUFQ :: u32 where "UIO_FLAG_BUFQ \<equiv> 1"
abbreviation UIO_FLAG_FREE :: u32 where "UIO_FLAG_FREE \<equiv> 2"
abbreviation UIO_FLAG_REALLOC :: u32 where "UIO_FLAG_REALLOC \<equiv> 0x10"
abbreviation UIO_FLAG_REFER :: u32 where "UIO_FLAG_REFER \<equiv> 0x20"
abbreviation XDR_FLAG_FREE :: u32 where "XDR_FLAG_FREE \<equiv> 2"
abbreviation XDR_FLAG_VIO :: u32 where "XDR_FLAG_VIO \<equiv> 4"
abbreviation IOQ_FLAG_NONE :: u32 where "IOQ_FLAG_NONE \<equiv> 0"
abbreviation IOQ_FLAG_BALLOC :: u32 where "IOQ_FLAG_BALLOC \<equiv> 0x00040000"

definition flag :: "u32 \<Rightarrow> u32 \<Rightarrow> bool" where
  "flag flags f \<longleftrightarrow> flags AND f \<noteq> 0"

text \<open>The members of \<^verbatim>\<open>u\<close> that the queue uses; \<open>u_release\<close> says whether \<^verbatim>\<open>uio_release\<close> is set.\<close>

record xdr_ioq_uv =
  u_flags :: u32
  u_references :: u32
  u_release :: bool

datatype uv_event =
    Uv_release nat
  | Refer_release nat
  | Uv_free nat
  | Uv_recycle nat
  | Ioq_recycle
  | Ioq_free nat

record xdr_ioq = rpc_xdr +
  uvqh :: "nat list"
  qcount :: nat
  min_bsize :: nat
  max_bsize :: nat
  plength :: nat
  pcount :: nat
  ioq_pool :: bool
  uvs :: "nat \<Rightarrow> xdr_ioq_uv"
  next_uv :: nat
  brk :: addr
  ulog :: "uv_event list"

definition ioquv_length :: "xdr_vio \<Rightarrow> nat" where
  "ioquv_length v = vio_tail v - vio_head v"

definition ioquv_more :: "xdr_vio \<Rightarrow> nat" where
  "ioquv_more v = vio_wrap v - vio_tail v"

definition ioquv_size :: "xdr_vio \<Rightarrow> nat" where
  "ioquv_size v = vio_wrap v - vio_base v"

text \<open>\<^verbatim>\<open>IOQV(x_base)\<close>: the buffer whose vector \<^verbatim>\<open>x_base\<close> points to.\<close>

definition IOQV :: "vio_ptr \<Rightarrow> nat" where
  "IOQV p = (case p of VioAt i \<Rightarrow> i | _ \<Rightarrow> 0)"

text \<open>\<^verbatim>\<open>TAILQ_NEXT\<close> and \<^verbatim>\<open>TAILQ_INSERT_AFTER\<close>.\<close>

definition tailq_next :: "nat list \<Rightarrow> nat \<Rightarrow> nat option" where
  "tailq_next q i = (case dropWhile (\<lambda>j. j \<noteq> i) q of _ # j # _ \<Rightarrow> Some j | _ \<Rightarrow> None)"

fun tailq_insert_after :: "nat list \<Rightarrow> nat \<Rightarrow> nat \<Rightarrow> nat list" where
  "tailq_insert_after [] i j = []"
| "tailq_insert_after (k # ks) i j = (if k = i then k # j # ks else k # tailq_insert_after ks i j)"

definition xdr_ioq_uv_create :: "nat \<Rightarrow> u32 \<Rightarrow> xdr_ioq \<Rightarrow> nat \<times> xdr_ioq" where
  "xdr_ioq_uv_create sz flags x =
     (let uv = next_uv x;
          base = (if sz \<noteq> 0 then brk x else NULL);
          v = \<lparr>vio_base = base, vio_head = base, vio_tail = base, vio_wrap = base + sz,
               vio_length = 0, vio_type = VIO_HEADER\<rparr> in
      (uv, x\<lparr>next_uv := uv + 1, vios := (vios x)(uv := v),
             uvs := (uvs x)(uv := \<lparr>u_flags = flags, u_references = 1, u_release = False\<rparr>),
             brk := brk x + sz,
             mlog := (if sz \<noteq> 0 then Mem_alloc sz # mlog x else mlog x)\<rparr>))"

text \<open>Giving up a reference; the last branch of the code is \<^verbatim>\<open>abort()\<close>.\<close>

definition xdr_ioq_uv_release :: "nat \<Rightarrow> xdr_ioq \<Rightarrow> xdr_ioq option" where
  "xdr_ioq_uv_release uv x =
     (let u = uvs x uv; n = u_references u - 1;
          x = x\<lparr>uvs := (uvs x)(uv := u\<lparr>u_references := n\<rparr>)\<rparr> in
      if n \<noteq> 0 then Some x
      else if u_release u then Some (x\<lparr>ulog := Uv_release uv # ulog x\<rparr>)
      else if flag (u_flags u) UIO_FLAG_REFER then
        Some (x\<lparr>ulog := Uv_free uv # Refer_release uv # ulog x\<rparr>)
      else if flag (u_flags u) UIO_FLAG_FREE then
        Some (x\<lparr>mlog := Mem_free (ioquv_size (vios x uv)) # mlog x, ulog := Uv_free uv # ulog x\<rparr>)
      else if flag (u_flags u) UIO_FLAG_BUFQ then
        Some (x\<lparr>uvs := (uvs x)(uv := u\<lparr>u_references := 1\<rparr>), ulog := Uv_recycle uv # ulog x\<rparr>)
      else None)"

definition xdr_ioq_uv_reset :: "nat \<Rightarrow> xdr_ioq \<Rightarrow> xdr_ioq" where
  "xdr_ioq_uv_reset uv x = x\<lparr>x_data := vio_head (vios x uv), x_base := VioAt uv, x_v := vios x uv\<rparr>"

definition xdr_ioq_uv_update :: "nat \<Rightarrow> xdr_ioq \<Rightarrow> xdr_ioq" where
  "xdr_ioq_uv_update uv x = (let x = xdr_ioq_uv_reset uv x in x\<lparr>pcount := pcount x + 1\<rparr>)"

text \<open>The queue is not empty here.\<close>

definition xdr_ioq_reset :: "u32 \<Rightarrow> xdr_ioq \<Rightarrow> xdr_ioq" where
  "xdr_ioq_reset wh_pos x =
     (let uv = hd (uvqh x); x = x\<lparr>plength := 0, pcount := 0\<rparr>;
          x = (if unat wh_pos \<ge> ioquv_size (vios x uv) then x
               else x\<lparr>vios := (vios x)(uv := (vios x uv)\<lparr>vio_head := vio_base (vios x uv) + unat wh_pos\<rparr>)\<rparr>) in
      xdr_ioq_uv_reset uv x)"

text \<open>
  \<^verbatim>\<open>xdr_ioq_setup\<close> and \<^verbatim>\<open>xdr_ioq_create\<close>, where the new structure is zeroed.  The argument stands for the
  rest of the process: memory, the allocator and the numbers in use.
\<close>

definition xdr_ioq_setup :: "xdr_ioq \<Rightarrow> xdr_ioq" where
  "xdr_ioq_setup x = x\<lparr>uvqh := [], qcount := 0, x_op := XDR_ENCODE, x_data := NULL, x_base := VioNull,
     x_flags := XDR_FLAG_VIO\<rparr>"

definition xdr_ioq_create :: "nat \<Rightarrow> nat \<Rightarrow> u32 \<Rightarrow> xdr_ioq \<Rightarrow> xdr_ioq" where
  "xdr_ioq_create minb maxb flags x =
     (let zero = \<lparr>vio_base = NULL, vio_head = NULL, vio_tail = NULL, vio_wrap = NULL, vio_length = 0, vio_type = VIO_HEADER\<rparr>;
          x = xdr_ioq_setup (x\<lparr>x_v := zero, x_handy := 0, plength := 0, pcount := 0, ioq_pool := False\<rparr>);
          x = x\<lparr>x_flags := x_flags x OR XDR_FLAG_FREE, min_bsize := minb, max_bsize := maxb\<rparr> in
      if \<not> flag flags UIO_FLAG_BUFQ then
        case xdr_ioq_uv_create minb flags x of
          (uv, x) \<Rightarrow> xdr_ioq_reset 0 (x\<lparr>qcount := 1, uvqh := [uv]\<rparr>)
      else x)"

text \<open>
  Moving on: the next buffer, if any, and a new buffer.  The assertion of \<^verbatim>\<open>xdr_ioq_uv_append\<close> that a buffer that is
  replaced by a larger one has \<^verbatim>\<open>UIO_FLAG_FREE\<close> is not modelled; every caller in the library passes that flag.
\<close>

definition xdr_ioq_uv_advance :: "xdr_ioq \<Rightarrow> nat option \<times> xdr_ioq" where
  "xdr_ioq_uv_advance x =
     (let uv = IOQV (x_base x); x = xdr_tail_update x;
          x = x\<lparr>plength := plength x + ioquv_length (vios x uv)\<rparr> in
      (tailq_next (uvqh x) uv, x))"

definition xdr_ioq_uv_append :: "u32 \<Rightarrow> xdr_ioq \<Rightarrow> nat option \<times> xdr_ioq" where
  "xdr_ioq_uv_append ioq_flags x =
     (let uv = IOQV (x_base x) in
      if flag ioq_flags IOQ_FLAG_BALLOC \<and> flag (u_flags (uvs x uv)) UIO_FLAG_REALLOC then
        let v = vios x uv; sz = ioquv_size v; delta = unat (xdr_tail_inline x); len = ioquv_length v in
        if sz \<ge> max_bsize x then (None, x)
        else
          let base = brk x;
              v = v\<lparr>vio_base := base, vio_head := base, vio_tail := base + len,
                    vio_wrap := base + max_bsize x\<rparr> in
          (Some uv, x\<lparr>plength := plength x - len,
             heap := write_bytes (heap x) base (read_bytes (heap x) (vio_head (vios x uv)) len),
             brk := base + max_bsize x, mlog := Mem_free sz # Mem_alloc (max_bsize x) # mlog x,
             vios := (vios x)(uv := v), x_v := v, x_data := vio_tail v - delta\<rparr>)
      else
        case (if flag ioq_flags IOQ_FLAG_BALLOC then xdr_ioq_uv_create (min_bsize x) UIO_FLAG_FREE x
              else xdr_ioq_uv_create 0 UIO_FLAG_NONE x) of
          (uv, x) \<Rightarrow>
            (Some uv, xdr_ioq_uv_update uv (x\<lparr>qcount := qcount x + 1, uvqh := uvqh x @ [uv]\<rparr>)))"

text \<open>The step that the writers share: the next buffer, or else a new one.\<close>

definition xdr_ioq_uv_next :: "u32 \<Rightarrow> xdr_ioq \<Rightarrow> nat option \<times> xdr_ioq" where
  "xdr_ioq_uv_next ioq_flags x =
     (case xdr_ioq_uv_advance x of
        (None, x) \<Rightarrow> xdr_ioq_uv_append ioq_flags x
      | (Some uv, x) \<Rightarrow> (Some uv, xdr_ioq_uv_update uv x))"

section \<open>Units and bytes\<close>

text \<open>The buffers behind the current one.\<close>

definition following :: "xdr_ioq \<Rightarrow> nat list" where
  "following x = tl (dropWhile (\<lambda>j. j \<noteq> IOQV (x_base x)) (uvqh x))"

text \<open>
  The loops of the readers move to the next buffer until the queue ends; they recurse over the
  buffers behind the current one.  \<^verbatim>\<open>memcpy\<close> with a negative length, which happens when a reader is
  past the end of the data, is refused in the model of \<^verbatim>\<open>xdr_ioq_getbytes\<close>.
\<close>

fun xdr_ioq_getunit_loop :: "nat list \<Rightarrow> (xdr_ioq, u32) xdrproc" where
  "xdr_ioq_getunit_loop uvl xdrs p =
     (let future = x_data xdrs + 4 in
      if future > vio_tail (x_v xdrs) then
        if x_data xdrs \<noteq> vio_tail (x_v xdrs) then (False, p, xdrs)
        else
          case uvl of
            [] \<Rightarrow> (False, p, snd (xdr_ioq_uv_advance xdrs))
          | uv # uvl \<Rightarrow> xdr_ioq_getunit_loop uvl (xdr_ioq_uv_update uv (snd (xdr_ioq_uv_advance xdrs))) p
      else (True, load32 (heap xdrs) (x_data xdrs), xdrs\<lparr>x_data := future\<rparr>))"

definition xdr_ioq_getunit :: "(xdr_ioq, u32) xdrproc" where
  "xdr_ioq_getunit xdrs p = xdr_ioq_getunit_loop (following xdrs) xdrs p"

function xdr_ioq_getbytes_loop :: "nat list \<Rightarrow> xdr_ioq \<Rightarrow> nat \<Rightarrow> bytes \<Rightarrow> bool \<times> bytes \<times> xdr_ioq" where
  "xdr_ioq_getbytes_loop uvl xdrs len got =
     (if len > 0 \<and> pcount xdrs < qcount xdrs then
        if x_data xdrs > vio_tail (x_v xdrs) then (False, got, xdrs)
        else
          let delta = vio_tail (x_v xdrs) - x_data xdrs;
              delta = (if delta > len then len else delta) in
          if delta = 0 then
            case uvl of
              [] \<Rightarrow> (False, got, snd (xdr_ioq_uv_advance xdrs))
            | uv # uvl \<Rightarrow>
                xdr_ioq_getbytes_loop uvl (xdr_ioq_uv_update uv (snd (xdr_ioq_uv_advance xdrs))) len got
          else
            xdr_ioq_getbytes_loop uvl (xdrs\<lparr>x_data := x_data xdrs + delta\<rparr>) (len - delta)
              (got @ read_bytes (heap xdrs) (x_data xdrs) delta)
      else (True, got, xdrs))"
  by pat_completeness auto

termination xdr_ioq_getbytes_loop
  by (relation "measures [\<lambda>(uvl, xdrs, len, got). length uvl, \<lambda>(uvl, xdrs, len, got). len]")
    (auto split: if_splits)

definition xdr_ioq_getbytes :: "xdr_ioq \<Rightarrow> u32 \<Rightarrow> bool \<times> bytes \<times> xdr_ioq" where
  "xdr_ioq_getbytes xdrs len = xdr_ioq_getbytes_loop (following xdrs) xdrs (unat len) []"

text \<open>The writers append buffers and may not end.\<close>

partial_function (option) xdr_ioq_putunit :: "xdr_ioq \<Rightarrow> u32 \<Rightarrow> (bool \<times> xdr_ioq) option" where
  "xdr_ioq_putunit xdrs v =
     (let future = x_data xdrs + 4 in
      if future > vio_wrap (x_v xdrs) then xdr_ioq_putunit (snd (xdr_ioq_uv_next IOQ_FLAG_BALLOC xdrs)) v
      else Some (True, xdrs\<lparr>heap := store32 (heap xdrs) (x_data xdrs) v, x_data := future\<rparr>))"

partial_function (option) xdr_ioq_putbytes :: "xdr_ioq \<Rightarrow> bytes \<Rightarrow> (bool \<times> xdr_ioq) option" where
  "xdr_ioq_putbytes xdrs bs =
     (if bs = [] then Some (True, xdrs)
      else if x_data xdrs > vio_wrap (x_v xdrs) then None
      else
        let delta = vio_wrap (x_v xdrs) - x_data xdrs;
            delta = (if delta > length bs then length bs else delta) in
        if delta = 0 then xdr_ioq_putbytes (snd (xdr_ioq_uv_next IOQ_FLAG_BALLOC xdrs)) bs
        else
          xdr_ioq_putbytes (xdrs\<lparr>heap := write_bytes (heap xdrs) (x_data xdrs) (take delta bs),
            x_data := x_data xdrs + delta\<rparr>) (drop delta bs))"

declare xdr_ioq_getunit_loop.simps [simp del] xdr_ioq_getbytes_loop.simps [simp del]
declare xdr_ioq_putunit.simps [code]
declare xdr_ioq_putbytes.simps [code]

section \<open>Positions\<close>

definition xdr_ioq_getpos :: "xdr_ioq \<Rightarrow> u32 \<times> xdr_ioq" where
  "xdr_ioq_getpos xdrs =
     (let xdrs = xdr_tail_update xdrs in
      (of_nat (plength xdrs + (x_data xdrs - vio_head (x_v xdrs))), xdrs))"

definition xdr_ioq_getstartdatapos :: "xdr_ioq \<Rightarrow> u32 \<Rightarrow> u32 \<Rightarrow> u32" where
  "xdr_ioq_getstartdatapos xdrs start datalen = start"

definition xdr_ioq_getenddatapos :: "xdr_ioq \<Rightarrow> u32 \<Rightarrow> u32 \<Rightarrow> u32" where
  "xdr_ioq_getenddatapos xdrs start datalen = start + datalen"

fun xdr_ioq_setpos_loop :: "nat list \<Rightarrow> xdr_ioq \<Rightarrow> u32 \<Rightarrow> bool \<times> xdr_ioq" where
  "xdr_ioq_setpos_loop [] xdrs pos = (False, xdrs)"
| "xdr_ioq_setpos_loop (uv # uvl) xdrs pos =
     (let v = vios xdrs uv;
          len = (of_nat (ioquv_length v) :: u32);
          full = (of_nat (vio_wrap (x_v xdrs)) - of_nat (vio_head (x_v xdrs)) :: u32) in
      if pos < len \<or> uvl = [] \<and> pos \<le> full then
        (True, xdrs\<lparr>x_data := vio_head v + unat pos, x_base := VioAt uv, x_v := v\<rparr>)
      else
        xdr_ioq_setpos_loop uvl (xdrs\<lparr>plength := plength xdrs + unat len, pcount := pcount xdrs + 1\<rparr>)
          (pos - len))"

definition xdr_ioq_setpos :: "xdr_ioq \<Rightarrow> u32 \<Rightarrow> bool \<times> xdr_ioq" where
  "xdr_ioq_setpos xdrs pos =
     (let xdrs = xdr_tail_update xdrs in
      xdr_ioq_setpos_loop (uvqh xdrs) (xdrs\<lparr>plength := 0, pcount := 0\<rparr>) pos)"

section \<open>Release\<close>

text \<open>
  \<^verbatim>\<open>xdr_ioq_release\<close> on a queue of buffers.  (On a queue of whole streams, which the function also
  takes, it destroys each of them.)
\<close>

fun xdr_ioq_release_loop :: "nat list \<Rightarrow> xdr_ioq \<Rightarrow> xdr_ioq option" where
  "xdr_ioq_release_loop [] x = Some x"
| "xdr_ioq_release_loop (have # uvl) x =
     (case xdr_ioq_uv_release have (x\<lparr>uvqh := uvl, qcount := qcount x - 1\<rparr>) of
        None \<Rightarrow> None
      | Some x \<Rightarrow> xdr_ioq_release_loop uvl x)"

definition xdr_ioq_release :: "xdr_ioq \<Rightarrow> xdr_ioq option" where
  "xdr_ioq_release x = xdr_ioq_release_loop (uvqh x) x"

definition xdr_ioq_destroy :: "nat \<Rightarrow> xdr_ioq \<Rightarrow> xdr_ioq option" where
  "xdr_ioq_destroy qsize x =
     (case xdr_ioq_release x of
        None \<Rightarrow> None
      | Some x \<Rightarrow>
          if ioq_pool x then Some (x\<lparr>ulog := Ioq_recycle # ulog x\<rparr>)
          else if flag (x_flags x) XDR_FLAG_FREE then Some (x\<lparr>ulog := Ioq_free qsize # ulog x\<rparr>)
          else Some x)"

section \<open>Vectors of buffers\<close>

definition xdr_ioq_control :: "xdr_ioq \<Rightarrow> bool \<times> xdr_ioq" where
  "xdr_ioq_control xdrs = (True, xdrs)"

definition xdr_ioq_getbufs :: "xdr_ioq \<Rightarrow> bool \<times> xdr_ioq" where
  "xdr_ioq_getbufs xdrs = (True, xdrs)"

fun xdr_ioq_putbufs_loop :: "xdr_vio list \<Rightarrow> u32 \<Rightarrow> xdr_uio \<Rightarrow> xdr_ioq \<Rightarrow> (bool \<times> xdr_uio \<times> xdr_ioq) option" where
  "xdr_ioq_putbufs_loop [] flags uio xdrs = Some (True, uio, xdrs)"
| "xdr_ioq_putbufs_loop (v # vs) flags uio xdrs =
     (case xdr_ioq_uv_next flags xdrs of
        (None, xdrs) \<Rightarrow> None
      | (Some uv, xdrs) \<Rightarrow>
          xdr_ioq_putbufs_loop vs flags (uio\<lparr>uio_references := uio_references uio + 1\<rparr>)
            (xdrs\<lparr>uvs := (uvs xdrs)(uv := uvs xdrs uv\<lparr>u_flags := UIO_FLAG_REFER\<rparr>), vios := (vios xdrs)(uv := v),
                  x_data := vio_tail v, x_base := VioAt uv, x_v := v\<rparr>))"

definition xdr_ioq_putbufs ::
    "xdr_ioq \<Rightarrow> xdr_uio \<Rightarrow> u32 \<Rightarrow> (bool \<times> xdr_uio \<times> xdr_ioq) option" where
  "xdr_ioq_putbufs xdrs uio flags = xdr_ioq_putbufs_loop (uio_vio uio) flags uio (xdr_tail_update xdrs)"

definition xdr_ioq_newbuf :: "xdr_ioq \<Rightarrow> bool \<times> xdr_ioq" where
  "xdr_ioq_newbuf xdrs = (True, snd (xdr_ioq_uv_next IOQ_FLAG_BALLOC xdrs))"

fun xdr_ioq_iovcount_loop :: "xdr_vio list \<Rightarrow> int \<Rightarrow> u32 \<Rightarrow> u32 \<Rightarrow> int \<times> u32" where
  "xdr_ioq_iovcount_loop [] buffers start datalen = (buffers, datalen)"
| "xdr_ioq_iovcount_loop (v # vl) buffers start datalen =
     (let len = (of_nat (ioquv_length v) :: u32) in
      case (if buffers > 0 then (buffers + 1, start)
            else if start < len then (1, start)
            else (buffers, start - len)) of
        (buffers, start) \<Rightarrow>
          if buffers > 0 then
            let buflen = len - start in
            if buflen \<ge> datalen then (buffers, 0)
            else xdr_ioq_iovcount_loop vl buffers 0 (datalen - buflen)
          else xdr_ioq_iovcount_loop vl buffers start datalen)"

definition xdr_ioq_iovcount :: "xdr_ioq \<Rightarrow> u32 \<Rightarrow> u32 \<Rightarrow> int \<times> xdr_ioq" where
  "xdr_ioq_iovcount xdrs start datalen =
     (let xdrs = xdr_tail_update xdrs in
      case xdr_ioq_iovcount_loop (map (vios xdrs) (uvqh xdrs)) (-1) start datalen of
        (buffers, datalen) \<Rightarrow> (if datalen \<noteq> 0 then -1 else buffers, xdrs))"

text \<open>The vector is the caller's array; a store past its end is dropped.\<close>

fun xdr_ioq_fillbufs_loop ::
    "xdr_vio list \<Rightarrow> bool \<Rightarrow> nat \<Rightarrow> u32 \<Rightarrow> xdr_vio list \<Rightarrow> u32 \<Rightarrow> bool \<times> xdr_vio list \<times> u32" where
  "xdr_ioq_fillbufs_loop [] found idx start vector datalen = (found, vector, datalen)"
| "xdr_ioq_fillbufs_loop (v # vl) found idx start vector datalen =
     (let len = (of_nat (ioquv_length v) :: u32) in
      case (if \<not> found then if start < len then (True, start) else (False, start - len)
            else (found, start)) of
        (found, start) \<Rightarrow>
          if found then
            let vec = v\<lparr>vio_type := VIO_DATA\<rparr>;
                (vec, len) = (if start > 0 then (vec\<lparr>vio_head := vio_head vec + unat start\<rparr>, len - start)
                              else (vec, len));
                vec = vec\<lparr>vio_length := len\<rparr> in
            if datalen < vio_length vec then
              (found, vector[idx := vec\<lparr>vio_length := datalen, vio_tail := vio_head vec + unat datalen\<rparr>], 0)
            else if datalen = vio_length vec then (found, vector[idx := vec], 0)
            else xdr_ioq_fillbufs_loop vl found (idx + 1) 0 (vector[idx := vec]) (datalen - vio_length vec)
          else xdr_ioq_fillbufs_loop vl found idx start vector datalen)"

definition xdr_ioq_fillbufs ::
    "xdr_ioq \<Rightarrow> u32 \<Rightarrow> xdr_vio list \<Rightarrow> u32 \<Rightarrow> bool \<times> xdr_vio list \<times> xdr_ioq" where
  "xdr_ioq_fillbufs xdrs start vector datalen =
     (let xdrs = xdr_tail_update xdrs in
      case xdr_ioq_fillbufs_loop (map (vios xdrs) (uvqh xdrs)) False 0 start vector datalen of
        (found, vector, datalen) \<Rightarrow> (if datalen \<noteq> 0 then False else found, vector, xdrs))"

text \<open>
  Room for a header or trailer, entry \<open>idx\<close> of the vector: behind the data of the buffer \<open>uv\<close>, or in a
  new buffer behind it.
\<close>

definition xdr_ioq_use_or_allocate ::
    "xdr_vio list \<Rightarrow> nat \<Rightarrow> nat \<Rightarrow> xdr_ioq \<Rightarrow> nat \<times> xdr_vio list \<times> xdr_ioq" where
  "xdr_ioq_use_or_allocate vector idx uv x =
     (let v = vector ! idx; htlen = unat (vio_length v) in
      case (if ioquv_more (vios x uv) \<ge> htlen then (uv, vio_tail (vios x uv), x)
            else
              case xdr_ioq_uv_create (min_bsize x) UIO_FLAG_FREE x of
                (uv2, x) \<Rightarrow>
                  (uv2, vio_head (vios x uv2),
                   x\<lparr>qcount := qcount x + 1, uvqh := tailq_insert_after (uvqh x) uv uv2\<rparr>)) of
        (uv, head, x) \<Rightarrow>
          let v = v\<lparr>vio_base := vio_base (vios x uv), vio_head := head, vio_tail := head + htlen,
                    vio_wrap := vio_wrap (vios x uv)\<rparr>;
              x = x\<lparr>vios := (vios x)(uv := (vios x uv)\<lparr>vio_tail := vio_tail v\<rparr>)\<rparr>;
              x = (if vio_type v = VIO_TRAILER_LEN
                   then x\<lparr>heap := store32 (heap x) (vio_head v) (vio_length (vector ! (idx + 1)))\<rparr> else x) in
          (uv, vector[idx := v], x))"

text \<open>
  The three loops of \<^verbatim>\<open>xdr_ioq_allochdrs\<close>: find the buffer where \<^verbatim>\<open>start\<close> lies or behind which it begins;
  walk over the data entries (\<open>have\<close> is \<^verbatim>\<open>NULL\<close> behind the last buffer, and stepping on from there is a
  null dereference); place the trailers.
\<close>

fun xdr_ioq_allochdrs_find :: "(nat \<Rightarrow> xdr_vio) \<Rightarrow> nat list \<Rightarrow> u32 \<Rightarrow> (nat \<times> u32) option" where
  "xdr_ioq_allochdrs_find vs [] start = None"
| "xdr_ioq_allochdrs_find vs (uv # uvl) start =
     (let len = (of_nat (ioquv_length (vs uv)) :: u32) in
      if start < len then Some (uv, start)
      else if start - len = 0 then Some (uv, 0)
      else xdr_ioq_allochdrs_find vs uvl (start - len))"

fun xdr_ioq_allochdrs_data ::
    "nat list \<Rightarrow> xdr_vio list \<Rightarrow> nat \<Rightarrow> nat option \<Rightarrow> nat option \<Rightarrow> u32 \<Rightarrow> (nat \<times> nat option \<times> u32) option" where
  "xdr_ioq_allochdrs_data q [] idx have uv totlen = Some (idx, uv, totlen)"
| "xdr_ioq_allochdrs_data q (v # vl) idx have uv totlen =
     (if vio_type v \<noteq> VIO_DATA then Some (idx, uv, totlen)
      else
        case have of
          None \<Rightarrow> None
        | Some h \<Rightarrow>
            (case tailq_next q h of
               None \<Rightarrow> xdr_ioq_allochdrs_data q vl (idx + 1) None uv (totlen + vio_length v)
             | Some h \<Rightarrow> xdr_ioq_allochdrs_data q vl (idx + 1) (Some h) (Some h) (totlen + vio_length v)))"

fun xdr_ioq_allochdrs_trailers ::
    "nat \<Rightarrow> xdr_vio list \<Rightarrow> nat \<Rightarrow> nat option \<Rightarrow> u32 \<Rightarrow> xdr_ioq \<Rightarrow> (bool \<times> u32 \<times> xdr_vio list \<times> xdr_ioq) option" where
  "xdr_ioq_allochdrs_trailers 0 vector idx uv totlen x = Some (True, totlen, vector, x)"
| "xdr_ioq_allochdrs_trailers (Suc n) vector idx uv totlen x =
     (let vt = vio_type (vector ! idx) in
      if vt \<noteq> VIO_TRAILER \<and> vt \<noteq> VIO_TRAILER_LEN then Some (False, totlen, vector, x)
      else if vt = VIO_TRAILER_LEN \<and> (n = 0 \<or> vio_type (vector ! (idx + 1)) \<noteq> VIO_TRAILER) then
        Some (False, totlen, vector, x)
      else
        case uv of
          None \<Rightarrow> None
        | Some uv \<Rightarrow>
            (case xdr_ioq_use_or_allocate vector idx uv x of
               (uv, vector, x) \<Rightarrow>
                 xdr_ioq_allochdrs_trailers n vector (idx + 1) (Some uv)
                   (totlen + vio_length (vector ! idx)) x))"

definition xdr_ioq_allochdrs ::
    "xdr_ioq \<Rightarrow> u32 \<Rightarrow> xdr_vio list \<Rightarrow> (bool \<times> xdr_vio list \<times> xdr_ioq) option" where
  "xdr_ioq_allochdrs xdrs start vector =
     (let xdrs = xdr_tail_update xdrs in
      case xdr_ioq_allochdrs_find (vios xdrs) (uvqh xdrs) start of
        None \<Rightarrow> Some (False, vector, xdrs)
      | Some (have, rest) \<Rightarrow>
          if vio_type (vector ! 0) = VIO_HEADER \<and> rest \<noteq> 0 then Some (False, vector, xdrs)
          else
            case (if vio_type (vector ! 0) = VIO_HEADER then
                    case xdr_ioq_use_or_allocate vector 0 have xdrs of
                      (uv, vector, xdrs) \<Rightarrow> (uv, vector, xdrs, start + vio_length (vector ! 0), 1)
                  else (have, vector, xdrs, start, 0)) of
              (uv, vector, xdrs, totlen, idx) \<Rightarrow>
                let uv = (if rest = 0 then tailq_next (uvqh xdrs) uv else Some uv) in
                case xdr_ioq_allochdrs_data (uvqh xdrs) (drop idx vector) idx (Some have) uv totlen of
                  None \<Rightarrow> None
                | Some (idx, uv, totlen) \<Rightarrow>
                    (case xdr_ioq_allochdrs_trailers (length vector - idx) vector idx uv totlen xdrs of
                       None \<Rightarrow> None
                     | Some (False, totlen, vector, xdrs) \<Rightarrow> Some (False, vector, xdrs)
                     | Some (True, totlen, vector, xdrs) \<Rightarrow>
                         Some (True, vector, snd (xdr_ioq_setpos xdrs totlen))))"

text \<open>
  The operations vector.  Its routines for units and bytes have no value for a call that does not
  return; it is shown as a failure here and as \<open>None\<close> in the routine itself.
\<close>

definition returned :: "'x \<Rightarrow> (bool \<times> 'x) option \<Rightarrow> bool \<times> 'x" where
  "returned x r = (case r of None \<Rightarrow> (False, x) | Some r \<Rightarrow> r)"

definition xdr_ioq_destroy_internal :: "nat \<Rightarrow> xdr_ioq \<Rightarrow> xdr_ioq option" where
  "xdr_ioq_destroy_internal sizeof_ioq xdrs = xdr_ioq_destroy sizeof_ioq xdrs"

definition xdr_ioq_ops :: "nat \<Rightarrow> xdr_ioq xdr_ops" where
  "xdr_ioq_ops sizeof_ioq =
     \<lparr>x_getunit = xdr_ioq_getunit, x_putunit = (\<lambda>xdrs v. returned xdrs (xdr_ioq_putunit xdrs v)),
      x_getbytes = xdr_ioq_getbytes, x_putbytes = (\<lambda>xdrs bs. returned xdrs (xdr_ioq_putbytes xdrs bs)),
      x_getpostn = xdr_ioq_getpos, x_getstartdatapos = xdr_ioq_getstartdatapos,
      x_getenddatapos = xdr_ioq_getenddatapos, x_setpostn = xdr_ioq_setpos,
      x_destroy = (\<lambda>xdrs. case xdr_ioq_destroy_internal sizeof_ioq xdrs of None \<Rightarrow> xdrs | Some xdrs \<Rightarrow> xdrs),
      x_control = xdr_ioq_control, x_getbufs = xdr_ioq_getbufs, x_putbufs = xdr_ioq_putbufs,
      x_newbuf = xdr_ioq_newbuf, x_iovcount = xdr_ioq_iovcount, x_fillbufs = xdr_ioq_fillbufs,
      x_allochdrs = xdr_ioq_allochdrs\<rparr>"

end
