(* ===== verification/Ioq_Contract.thy ===== *)
theory Ioq_Contract
  imports Xdr_Ioq
begin

text \<open>
  The queue of buffers keeps the contracts of \<open>Xdr_Handle\<close>: \<open>ioq_at\<close> is its invariant, the two
  interpretations are \<open>ioq_r\<close> and \<open>ioq_w\<close>.  A stream stands for the bytes of its buffers one after the
  other.
\<close>

section \<open>Invariant\<close>

definition vio_bytes :: "mem \<Rightarrow> xdr_vio \<Rightarrow> bytes" where
  "vio_bytes m v = read_bytes m (vio_head v) (ioquv_length v)"

definition bufs_bytes :: "mem \<Rightarrow> (nat \<Rightarrow> xdr_vio) \<Rightarrow> nat list \<Rightarrow> bytes" where
  "bufs_bytes m vs q = concat (map (\<lambda>i. vio_bytes m (vs i)) q)"

definition bufs_length :: "(nat \<Rightarrow> xdr_vio) \<Rightarrow> nat list \<Rightarrow> nat" where
  "bufs_length vs q = sum_list (map (\<lambda>i. ioquv_length (vs i)) q)"

lemma bufs_simps [simp]:
  "bufs_bytes m vs [] = []" "bufs_bytes m vs (i # q) = vio_bytes m (vs i) @ bufs_bytes m vs q"
  "bufs_bytes m vs (p @ q) = bufs_bytes m vs p @ bufs_bytes m vs q"
  "bufs_length vs [] = 0" "bufs_length vs (i # q) = ioquv_length (vs i) + bufs_length vs q"
  "bufs_length vs (p @ q) = bufs_length vs p + bufs_length vs q"
  "length (vio_bytes m v) = ioquv_length v" "length (bufs_bytes m vs q) = bufs_length vs q"
  by (simp_all add: bufs_bytes_def bufs_length_def vio_bytes_def) (induction q, simp_all add: vio_bytes_def)

lemma bufs_upd [simp]:
  "i \<notin> set q \<Longrightarrow> bufs_bytes m (vs(i := v)) q = bufs_bytes m vs q"
  "i \<notin> set q \<Longrightarrow> bufs_length (vs(i := v)) q = bufs_length vs q"
  by (auto simp: bufs_bytes_def bufs_length_def intro!: arg_cong [where f = concat] arg_cong [where f = sum_list])

definition vio_ok :: "xdr_vio \<Rightarrow> bool" where
  "vio_ok v \<longleftrightarrow> 0 < vio_base v \<and> vio_base v \<le> vio_head v \<and> vio_head v \<le> vio_tail v \<and> vio_tail v \<le> vio_wrap v"

definition vio_apart :: "xdr_vio \<Rightarrow> xdr_vio \<Rightarrow> bool" where
  "vio_apart v w \<longleftrightarrow> vio_wrap v \<le> vio_base w \<or> vio_wrap w \<le> vio_base v"

definition bufs_ok :: "(nat \<Rightarrow> xdr_vio) \<Rightarrow> nat list \<Rightarrow> addr \<Rightarrow> nat \<Rightarrow> bool" where
  "bufs_ok vs q lim nxt \<longleftrightarrow> 0 < lim \<and> (\<forall>i \<in> set q. vio_ok (vs i) \<and> vio_wrap (vs i) \<le> lim \<and> i < nxt) \<and>
     (\<forall>i \<in> set q. \<forall>j \<in> set q. i \<noteq> j \<longrightarrow> vio_apart (vs i) (vs j))"

lemma vio_apart_tail [simp]:
  "vio_apart (v\<lparr>vio_tail := t\<rparr>) w = vio_apart v w" "vio_apart w (v\<lparr>vio_tail := t\<rparr>) = vio_apart w v"
  by (simp_all add: vio_apart_def)

lemma bufs_ok_tail:
  "bufs_ok vs q lim nxt \<Longrightarrow> vio_head (vs i) \<le> t \<Longrightarrow> t \<le> vio_wrap (vs i) \<Longrightarrow>
   bufs_ok (vs(i := (vs i)\<lparr>vio_tail := t\<rparr>)) q lim nxt"
  unfolding bufs_ok_def by (auto simp: vio_ok_def)

text \<open>A new buffer at the top of the memory in use.\<close>

lemma bufs_ok_new:
  assumes "bufs_ok vs q lim nxt" "set q' = insert nxt (set q)" "vio_ok v" "lim \<le> vio_base v" "vio_wrap v \<le> lim'"
  shows "bufs_ok (vs(nxt := v)) q' lim' (nxt + 1)"
proof -
  have t: "lim \<le> lim'" using assms(3-5) by (simp add: vio_ok_def)
  have "vio_apart (vs i) v" "vio_apart v (vs i)" "i \<noteq> nxt" if "i \<in> set q" for i
    using that assms(1,4) by (auto simp: bufs_ok_def vio_apart_def)
  with assms t show ?thesis
    unfolding bufs_ok_def by (auto simp: less_Suc_eq)
qed

lemma bufs_ok_move:
  assumes "bufs_ok vs q lim nxt" "i \<in> set q" "vio_ok v" "lim \<le> vio_base v" "vio_wrap v \<le> lim'"
  shows "bufs_ok (vs(i := v)) q lim' nxt"
proof -
  have "lim \<le> lim'" using assms(3-5) by (simp add: vio_ok_def)
  moreover have "vio_apart (vs j) v" "vio_apart v (vs j)" "vio_wrap (vs j) \<le> lim" if "j \<in> set q" for j
    using that assms(1,4) by (auto simp: bufs_ok_def vio_apart_def)
  ultimately show ?thesis
    using assms unfolding bufs_ok_def by (auto intro: order_trans)
qed

text \<open>
  \<open>ioq_at x pre cur post\<close>: the position is in the buffer \<open>cur\<close>, behind \<open>pre\<close> and in front of \<open>post\<close>; the
  cached vector and the counters agree with it; the buffers are well formed and do not overlap.
\<close>

definition ioq_at :: "xdr_ioq \<Rightarrow> nat list \<Rightarrow> nat \<Rightarrow> nat list \<Rightarrow> bool" where
  "ioq_at x pre cur post \<longleftrightarrow> uvqh x = pre @ cur # post \<and> distinct (pre @ cur # post) \<and> x_base x = VioAt cur \<and>
     x_v x = vios x cur \<and> qcount x = length (uvqh x) \<and> pcount x = length pre \<and>
     plength x = bufs_length (vios x) pre \<and>
     vio_head (x_v x) \<le> x_data x \<and> x_data x \<le> vio_wrap (x_v x) \<and> bufs_ok (vios x) (uvqh x) (brk x) (next_uv x)"

lemma following_at [simp]: "ioq_at x pre cur post \<Longrightarrow> following x = post"
  by (auto simp: ioq_at_def following_def IOQV_def dropWhile_append)

lemma tailq_next_at:
  "distinct (pre @ cur # post) \<Longrightarrow>
   tailq_next (pre @ cur # post) cur = (case post of [] \<Rightarrow> None | u # _ \<Rightarrow> Some u)"
  by (auto simp: tailq_next_def dropWhile_append split: list.split)

lemma ioq_at_data: "ioq_at x pre cur post \<Longrightarrow> x_data x \<noteq> NULL"
  by (auto simp: ioq_at_def bufs_ok_def vio_ok_def)

lemma ioq_at_tail_update:
  assumes x: "ioq_at x pre cur post"
  defines "y \<equiv> xdr_tail_update x"
  shows "ioq_at y pre cur post" "vios y = (vios x)(cur := (vios x cur)\<lparr>vio_tail := max (vio_tail (vios x cur)) (x_data x)\<rparr>)"
    "uvqh y = uvqh x" "uvs y = uvs x" "brk y = brk x" "next_uv y = next_uv x" "min_bsize y = min_bsize x"
    "max_bsize y = max_bsize x" "plength y = plength x" "pcount y = pcount x" "qcount y = qcount x"
proof -
  have b: "x_base x = VioAt cur" "x_v x = vios x cur" using x by (simp_all add: ioq_at_def)
  show v: "vios y = (vios x)(cur := (vios x cur)\<lparr>vio_tail := max (vio_tail (vios x cur)) (x_data x)\<rparr>)"
    by (auto simp: y_def xdr_tail_update_def b max_def)
  show m: "uvqh y = uvqh x" "uvs y = uvs x" "brk y = brk x" "next_uv y = next_uv x" "min_bsize y = min_bsize x"
    "max_bsize y = max_bsize x" "plength y = plength x" "pcount y = pcount x" "qcount y = qcount x"
    by (simp_all add: y_def xdr_tail_update_def b)
  have "vio_head (vios x cur) \<le> vio_tail (vios x cur)" "vio_tail (vios x cur) \<le> vio_wrap (vios x cur)"
    using x by (auto simp: ioq_at_def bufs_ok_def vio_ok_def)
  then have "bufs_ok (vios y) (uvqh y) (brk y) (next_uv y)"
    unfolding v m using x by (intro bufs_ok_tail) (auto simp: ioq_at_def)
  with x b show "ioq_at y pre cur post"
    unfolding ioq_at_def m by (simp add: y_def v [unfolded y_def])
qed

text \<open>The vector of the current buffer once its end of data is up to date.\<close>

abbreviation ioq_synced :: "xdr_ioq \<Rightarrow> nat \<Rightarrow> nat \<Rightarrow> xdr_vio" where
  "ioq_synced x cur \<equiv> (vios x)(cur := (vios x cur)\<lparr>vio_tail := max (vio_tail (vios x cur)) (x_data x)\<rparr>)"

lemma ioq_at_advance:
  assumes x: "ioq_at x pre cur post"
  shows "xdr_ioq_uv_advance x = ((case post of [] \<Rightarrow> None | u # _ \<Rightarrow> Some u),
    (xdr_tail_update x)\<lparr>plength := bufs_length (ioq_synced x cur) (pre @ [cur])\<rparr>)"
proof -
  note t = ioq_at_tail_update [OF x]
  have "x_base x = VioAt cur" "uvqh x = pre @ cur # post" "distinct (pre @ cur # post)"
      "plength x = bufs_length (vios x) pre" "cur \<notin> set pre"
    using x by (simp_all add: ioq_at_def)
  with t show ?thesis
    by (simp add: xdr_ioq_uv_advance_def IOQV_def tailq_next_at split: list.split)
qed

lemma ioq_at_next:
  assumes x: "ioq_at x pre cur (u # us)"
  defines "y \<equiv> xdr_ioq_uv_update u (snd (xdr_ioq_uv_advance x))"
  shows "ioq_at y (pre @ [cur]) u us" "vios y = ioq_synced x cur" "x_data y = vio_head (vios x u)"
    "x_v y = vios x u" "heap y = heap x" "x_op y = x_op x" "mlog y = mlog x" "uvs y = uvs x" "brk y = brk x"
    "min_bsize y = min_bsize x" "max_bsize y = max_bsize x"
proof -
  note t = ioq_at_tail_update [OF x]
  have u: "u \<noteq> cur" using x by (auto simp: ioq_at_def)
  note d = xdr_ioq_uv_update_def xdr_ioq_uv_reset_def ioq_at_advance [OF x]
  show "vios y = ioq_synced x cur" "x_data y = vio_head (vios x u)" "x_v y = vios x u" "heap y = heap x" "x_op y = x_op x"
    "mlog y = mlog x" "uvs y = uvs x" "brk y = brk x" "min_bsize y = min_bsize x" "max_bsize y = max_bsize x"
    using u by (simp_all add: y_def d t)
  from t(1) have "vio_ok (vios (xdr_tail_update x) u)" by (auto simp: ioq_at_def bufs_ok_def)
  with u t(2) have "vio_ok (vios x u)" by simp
  with t(1) u show "ioq_at y (pre @ [cur]) u us"
    unfolding ioq_at_def by (auto simp: y_def d t vio_ok_def)
qed

text \<open>A new buffer behind the last one.\<close>

lemma ioq_at_append:
  assumes x: "ioq_at x pre cur []" and f: "\<not> flag (u_flags (uvs x cur)) UIO_FLAG_REALLOC" and sz: "0 < min_bsize x"
  defines "y \<equiv> snd (xdr_ioq_uv_next IOQ_FLAG_BALLOC x)"
    and "v \<equiv> \<lparr>vio_base = brk x, vio_head = brk x, vio_tail = brk x, vio_wrap = brk x + min_bsize x,
      vio_length = 0, vio_type = VIO_HEADER\<rparr>"
  shows "ioq_at y (pre @ [cur]) (next_uv x) []" "vios y = (ioq_synced x cur)(next_uv x := v)" "x_data y = brk x" "x_v y = v"
    "heap y = heap x" "x_op y = x_op x" "mlog y = Mem_alloc (min_bsize x) # mlog x" "brk y = brk x + min_bsize x"
    "uvs y = (uvs x)(next_uv x := \<lparr>u_flags = UIO_FLAG_FREE, u_references = 1, u_release = False\<rparr>)"
    "min_bsize y = min_bsize x" "max_bsize y = max_bsize x"
proof -
  note t = ioq_at_tail_update [OF x]
  have b: "x_base x = VioAt cur" using x by (simp add: ioq_at_def)
  have n: "next_uv x \<notin> set (uvqh x)" using x by (auto simp: ioq_at_def bufs_ok_def)
  then have n': "next_uv x \<noteq> cur" "next_uv x \<notin> set pre" using x by (auto simp: ioq_at_def)
  note d = xdr_ioq_uv_next_def ioq_at_advance [OF x] xdr_ioq_uv_append_def xdr_ioq_uv_create_def IOQV_def
    xdr_ioq_uv_update_def xdr_ioq_uv_reset_def
  have k: "flag IOQ_FLAG_BALLOC IOQ_FLAG_BALLOC" by (simp add: flag_def)
  show s: "vios y = (ioq_synced x cur)(next_uv x := v)" "x_data y = brk x" "x_v y = v"
    "heap y = heap x" "x_op y = x_op x" "mlog y = Mem_alloc (min_bsize x) # mlog x" "brk y = brk x + min_bsize x"
    "uvs y = (uvs x)(next_uv x := \<lparr>u_flags = UIO_FLAG_FREE, u_references = 1, u_release = False\<rparr>)"
    "min_bsize y = min_bsize x" "max_bsize y = max_bsize x"
    using f b sz k by (simp_all add: y_def d t v_def)
  have m: "uvqh y = uvqh x @ [next_uv x]" "next_uv y = next_uv x + 1" "qcount y = qcount x + 1" "pcount y = pcount x + 1"
      "plength y = bufs_length (ioq_synced x cur) (pre @ [cur])" "x_base y = VioAt (next_uv x)"
    using f b sz k by (simp_all add: y_def d t)
  have "bufs_ok (vios y) (uvqh y) (brk y) (next_uv y)"
    unfolding s m
    by (rule bufs_ok_new [where q = "uvqh x" and lim = "brk x"])
      (use t(1) x in \<open>auto simp: ioq_at_def t vio_ok_def v_def bufs_ok_def\<close>)
  with x n n' show "ioq_at y (pre @ [cur]) (next_uv x) []"
    unfolding ioq_at_def s m by (auto simp: v_def)
qed

text \<open>The only buffer is moved to a larger block.\<close>

lemma ioq_at_realloc:
  assumes x: "ioq_at x pre cur []" and f: "flag (u_flags (uvs x cur)) UIO_FLAG_REALLOC"
    and sz: "ioquv_size (vios x cur) < max_bsize x" and e: "vio_tail (x_v x) \<le> x_data x"
  defines "y \<equiv> snd (xdr_ioq_uv_next IOQ_FLAG_BALLOC x)" and "n \<equiv> x_data x - vio_head (x_v x)"
    and "v \<equiv> (x_v x)\<lparr>vio_base := brk x, vio_head := brk x, vio_tail := brk x + (x_data x - vio_head (x_v x)),
      vio_wrap := brk x + max_bsize x\<rparr>"
  shows "ioq_at y pre cur []" "vios y = (vios x)(cur := v)" "x_data y = brk x + n" "x_v y = v"
    "heap y = write_bytes (heap x) (brk x) (read_bytes (heap x) (vio_head (x_v x)) n)" "x_op y = x_op x"
    "brk y = brk x + max_bsize x" "uvs y = uvs x" "min_bsize y = min_bsize x" "max_bsize y = max_bsize x"
proof -
  note t = ioq_at_tail_update [OF x]
  have b: "x_base x = VioAt cur" "x_v x = vios x cur" "cur \<notin> set pre" "vio_head (x_v x) \<le> x_data x" "x_data x \<le> vio_wrap (x_v x)"
      "plength x = bufs_length (vios x) pre" "vio_base (x_v x) \<le> vio_head (x_v x)"
    using x by (auto simp: ioq_at_def bufs_ok_def vio_ok_def)
  have k: "flag IOQ_FLAG_BALLOC IOQ_FLAG_BALLOC" by (simp add: flag_def)
  have m: "max (vio_tail (vios x cur)) (x_data x) = x_data x" using e b by simp
  note d = xdr_ioq_uv_next_def ioq_at_advance [OF x] xdr_ioq_uv_append_def IOQV_def xdr_tail_inline_def
    ioquv_length_def ioquv_size_def
  show s: "vios y = (vios x)(cur := v)" "x_data y = brk x + n" "x_v y = v"
    "heap y = write_bytes (heap x) (brk x) (read_bytes (heap x) (vio_head (x_v x)) n)" "x_op y = x_op x"
    "brk y = brk x + max_bsize x" "uvs y = uvs x" "min_bsize y = min_bsize x" "max_bsize y = max_bsize x"
    using sz f b k m by (simp_all add: y_def d t v_def n_def not_le)
  have q: "uvqh y = uvqh x" "next_uv y = next_uv x" "qcount y = qcount x" "pcount y = pcount x" "plength y = plength x"
      "x_base y = VioAt cur"
    using sz f b k m by (simp_all add: y_def d t)
  have n: "n \<le> max_bsize x" using sz b by (simp add: n_def ioquv_size_def)
  have p: "0 < brk x" using x by (simp add: ioq_at_def bufs_ok_def)
  have "bufs_ok (vios y) (uvqh y) (brk y) (next_uv y)"
    unfolding s q
    by (rule bufs_ok_move [where lim = "brk x"]) (use x n p in \<open>auto simp: ioq_at_def v_def vio_ok_def n_def\<close>)
  with x n b show "ioq_at y pre cur []"
    unfolding ioq_at_def s q by (auto simp: v_def n_def)
qed

section \<open>Reading\<close>

text \<open>
  A queue that is read: a unit never straddles two buffers, because every buffer but the last holds
  whole units.
\<close>

definition ioq_rinv :: "xdr_ioq \<Rightarrow> bool" where
  "ioq_rinv x \<longleftrightarrow> (\<exists>pre cur post. ioq_at x pre cur post \<and> x_data x \<le> vio_tail (x_v x) \<and>
     (\<forall>i \<in> set (butlast (cur # post)). ioquv_length (vios x i) mod 4 = 0))"

definition ioq_rd :: "xdr_ioq \<Rightarrow> bytes" where
  "ioq_rd x = read_bytes (heap x) (x_data x) (vio_tail (x_v x) - x_data x) @ bufs_bytes (heap x) (vios x) (following x)"

definition ioq_phase :: "xdr_ioq \<Rightarrow> nat" where
  "ioq_phase x = (x_data x - vio_head (x_v x)) mod 4"

text \<open>Moving on at the end of a buffer.\<close>

lemma ioq_rd_next:
  assumes x: "ioq_at x pre cur (u # us)" and e: "x_data x = vio_tail (x_v x)"
  defines "y \<equiv> xdr_ioq_uv_update u (snd (xdr_ioq_uv_advance x))"
  shows "ioq_rd y = ioq_rd x" "vios y = vios x" "x_data y \<le> vio_tail (x_v y)"
proof -
  note n = ioq_at_next [OF x, folded y_def]
  have v: "ioq_synced x cur = vios x" using x e by (auto simp: ioq_at_def max_def)
  then show "ioq_rd y = ioq_rd x" "vios y = vios x"
    using n x e by (simp_all add: ioq_rd_def vio_bytes_def ioquv_length_def)
  show "x_data y \<le> vio_tail (x_v y)"
    using n x by (auto simp: ioq_at_def bufs_ok_def vio_ok_def)
qed

lemma ioq_rinv_step:
  assumes x: "ioq_at x pre cur (u # us)" and e: "x_data x = vio_tail (x_v x)"
    and m: "\<forall>i \<in> set (butlast (cur # u # us)). ioquv_length (vios x i) mod 4 = 0"
  defines "y \<equiv> xdr_ioq_uv_update u (snd (xdr_ioq_uv_advance x))"
  shows "ioq_at y (pre @ [cur]) u us" "x_data y = vio_head (vios x u)" "x_v y = vios x u" "vios y = vios x" "ioq_rd y = ioq_rd x"
    "x_data y \<le> vio_tail (x_v y)" "\<forall>i \<in> set (butlast (u # us)). ioquv_length (vios y i) mod 4 = 0"
    "ioq_phase y = 0" "ioq_phase x = 0" "x_op y = x_op x" "mlog y = mlog x"
proof -
  note n = ioq_at_next [OF x, folded y_def] and r = ioq_rd_next [OF x e, folded y_def]
  show "ioq_at y (pre @ [cur]) u us" "x_data y = vio_head (vios x u)" "x_v y = vios x u" "x_op y = x_op x" "mlog y = mlog x"
      "vios y = vios x" "ioq_rd y = ioq_rd x" "x_data y \<le> vio_tail (x_v y)"
    using n r by simp_all
  show "\<forall>i \<in> set (butlast (u # us)). ioquv_length (vios y i) mod 4 = 0"
    using m by (simp only: r(2)) (simp split: if_splits)
  show "ioq_phase y = 0" using n by (simp add: ioq_phase_def)
  show "ioq_phase x = 0" using m x by (simp add: ioq_phase_def e ioquv_length_def ioq_at_def)
qed

text \<open>At a unit boundary, a buffer that is not the last one and has less than a unit left has nothing left.\<close>

lemma ioq_aligned_end:
  assumes "ioq_at x pre cur (u # us)" "x_data x \<le> vio_tail (x_v x)"
    and "\<forall>i \<in> set (butlast (cur # u # us)). ioquv_length (vios x i) mod 4 = 0" "ioq_phase x = 0"
    and "\<not> x_data x + 4 \<le> vio_tail (x_v x)"
  shows "x_data x = vio_tail (x_v x)"
proof -
  have "(vio_tail (x_v x) - vio_head (x_v x)) mod 4 = 0" "(x_data x - vio_head (x_v x)) mod 4 = 0" "vio_head (x_v x) \<le> x_data x"
    using assms by (auto simp: ioq_at_def ioquv_length_def ioq_phase_def)
  moreover have "vio_tail (x_v x) - vio_head (x_v x) = (x_data x - vio_head (x_v x)) + (vio_tail (x_v x) - x_data x)"
    using assms(2) calculation(3) by simp
  ultimately have "(vio_tail (x_v x) - x_data x) mod 4 = 0" by (metis mod_add_left_eq add_0)
  with assms(2,5) show ?thesis by (simp add: mod_less)
qed

lemma ioq_inline_at:
  "ioq_at x pre cur post \<Longrightarrow> x_data x + n \<le> vio_tail (x_v x) \<Longrightarrow> ioq_at (x\<lparr>x_data := x_data x + n\<rparr>) pre cur post"
  by (auto simp: ioq_at_def bufs_ok_def vio_ok_def)

lemma ioq_inline_rd:
  assumes "ioq_at x pre cur post" "x_data x + n \<le> vio_tail (x_v x)"
  shows "ioq_rd x = read_bytes (heap x) (x_data x) n @ ioq_rd (x\<lparr>x_data := x_data x + n\<rparr>)"
  using assms ioq_inline_at [OF assms] read_bytes_split [of n "vio_tail (x_v x) - x_data x" "heap x" "x_data x"]
  by (simp add: ioq_rd_def)

lemma ioq_inline_phase:
  "ioq_at x pre cur post \<Longrightarrow> ioq_phase (x\<lparr>x_data := x_data x + n\<rparr>) = (ioq_phase x + n) mod 4"
  by (auto simp: ioq_phase_def ioq_at_def mod_add_left_eq)

lemma ioq_getunit_inline:
  assumes "ioq_at x pre cur post" "x_data x \<le> vio_tail (x_v x)"
    and "\<forall>i \<in> set (butlast (cur # post)). ioquv_length (vios x i) mod 4 = 0" "ioq_phase x = 0"
    and "x_data x + 4 \<le> vio_tail (x_v x)"
  shows "\<exists>x'. xdr_ioq_getunit_loop post x p = (True, of_be32 (take 4 (ioq_rd x)), x') \<and> ioq_rinv x' \<and>
    ioq_rd x' = drop 4 (ioq_rd x) \<and> ioq_phase x' = 0 \<and> x_op x' = x_op x \<and> mlog x' = mlog x"
proof -
  let ?y = "x\<lparr>x_data := x_data x + 4\<rparr>"
  have "xdr_ioq_getunit_loop post x p = (True, load32 (heap x) (x_data x), ?y)"
    using assms(5) by (subst xdr_ioq_getunit_loop.simps) simp
  moreover have "ioq_rinv ?y"
    using assms ioq_inline_at [OF assms(1,5)] unfolding ioq_rinv_def by (intro exI) auto
  ultimately show ?thesis
    using ioq_inline_rd [OF assms(1,5)] ioq_inline_phase [OF assms(1), of 4] assms(4) by simp
qed

lemma ioq_getunit_loop_ok:
  assumes "ioq_at x pre cur post" "x_data x \<le> vio_tail (x_v x)"
    and "\<forall>i \<in> set (butlast (cur # post)). ioquv_length (vios x i) mod 4 = 0" "ioq_phase x = 0" "4 \<le> length (ioq_rd x)"
  shows "\<exists>x'. xdr_ioq_getunit_loop post x p = (True, of_be32 (take 4 (ioq_rd x)), x') \<and> ioq_rinv x' \<and>
    ioq_rd x' = drop 4 (ioq_rd x) \<and> ioq_phase x' = 0 \<and> x_op x' = x_op x \<and> mlog x' = mlog x"
  using assms
proof (induction post arbitrary: x pre cur)
  case Nil
  then have "x_data x + 4 \<le> vio_tail (x_v x)" by (simp add: ioq_rd_def)
  then show ?case using ioq_getunit_inline [OF Nil.prems(1-4)] by simp
next
  case (Cons u us)
  show ?case
  proof (cases "x_data x + 4 \<le> vio_tail (x_v x)")
    case True
    then show ?thesis using ioq_getunit_inline [OF Cons.prems(1-4)] by simp
  next
    case False
    with ioq_aligned_end [OF Cons.prems(1-4)] have e: "x_data x = vio_tail (x_v x)" by simp
    note n = ioq_rinv_step [OF Cons.prems(1) e Cons.prems(3)]
    let ?y = "xdr_ioq_uv_update u (snd (xdr_ioq_uv_advance x))"
    have "xdr_ioq_getunit_loop (u # us) x p = xdr_ioq_getunit_loop us ?y p"
      using e by (subst xdr_ioq_getunit_loop.simps) simp
    with Cons.IH [OF n(1,6,7,8)] Cons.prems(5) n show ?thesis by simp
  qed
qed

lemma ioq_getunit_loop_short:
  assumes "ioq_at x pre cur post" "x_data x \<le> vio_tail (x_v x)" "length (ioq_rd x) < 4"
  shows "\<exists>u x'. xdr_ioq_getunit_loop post x p = (False, u, x') \<and> mlog x' = mlog x"
  using assms
proof (induction post arbitrary: x pre cur)
  case Nil
  then have "\<not> x_data x + 4 \<le> vio_tail (x_v x)" by (auto simp: ioq_rd_def)
  then show ?case
    using ioq_at_advance [OF Nil.prems(1)] by (subst xdr_ioq_getunit_loop.simps) simp
next
  case (Cons u us)
  let ?y = "xdr_ioq_uv_update u (snd (xdr_ioq_uv_advance x))"
  have l: "\<not> x_data x + 4 \<le> vio_tail (x_v x)" using Cons.prems by (auto simp: ioq_rd_def)
  show ?case
  proof (cases "x_data x = vio_tail (x_v x)")
    case True
    note n = ioq_at_next [OF Cons.prems(1)] and r = ioq_rd_next [OF Cons.prems(1) True]
    have "\<exists>w x'. xdr_ioq_getunit_loop us ?y p = (False, w, x') \<and> mlog x' = mlog ?y"
      using Cons.prems(3) r by (intro Cons.IH [OF n(1)]) simp_all
    then show ?thesis using l True n(7) by (subst xdr_ioq_getunit_loop.simps) simp
  qed (use l in \<open>subst xdr_ioq_getunit_loop.simps, simp\<close>)
qed

text \<open>The bytes of one buffer, and moving on from its end.\<close>

lemma ioq_getbytes_within:
  assumes x: "ioq_at x pre cur post" and n: "x_data x + n \<le> vio_tail (x_v x)"
  shows "xdr_ioq_getbytes_loop post x n got =
    (True, got @ read_bytes (heap x) (x_data x) n, x\<lparr>x_data := x_data x + n\<rparr>)"
proof (cases "n = 0")
  case True
  then show ?thesis by (subst xdr_ioq_getbytes_loop.simps) simp
next
  case False
  have "pcount x < qcount x" using x by (simp add: ioq_at_def)
  moreover have "(if n < vio_tail (x_v x) - x_data x then n else vio_tail (x_v x) - x_data x) = n"
    using n by auto
  moreover have "xdr_ioq_getbytes_loop post y 0 g = (True, g, y)" for y g
    by (subst xdr_ioq_getbytes_loop.simps) simp
  ultimately show ?thesis
    using False n by (subst xdr_ioq_getbytes_loop.simps) simp
qed

lemma ioq_getbytes_drain:
  assumes x: "ioq_at x pre cur post" and d: "x_data x \<le> vio_tail (x_v x)" and n: "vio_tail (x_v x) < x_data x + n"
  defines "k \<equiv> vio_tail (x_v x) - x_data x"
  shows "xdr_ioq_getbytes_loop post x n got =
    xdr_ioq_getbytes_loop post (x\<lparr>x_data := x_data x + k\<rparr>) (n - k) (got @ read_bytes (heap x) (x_data x) k)"
proof (cases "k = 0")
  case False
  have "pcount x < qcount x" using x by (simp add: ioq_at_def)
  moreover have "\<not> n < k" "0 < n" using n d by (simp_all add: k_def)
  ultimately show ?thesis
    using False d by (subst xdr_ioq_getbytes_loop.simps) (simp add: k_def [symmetric])
qed simp

lemma ioq_getbytes_end:
  assumes x: "ioq_at x pre cur post" and e: "x_data x = vio_tail (x_v x)" and n: "0 < n"
  shows "xdr_ioq_getbytes_loop post x n got = (case post of [] \<Rightarrow> (False, got, snd (xdr_ioq_uv_advance x))
    | u # us \<Rightarrow> xdr_ioq_getbytes_loop us (xdr_ioq_uv_update u (snd (xdr_ioq_uv_advance x))) n got)"
proof -
  have "pcount x < qcount x" using x by (simp add: ioq_at_def)
  with e n show ?thesis by (subst xdr_ioq_getbytes_loop.simps) (simp split: list.split)
qed

lemma ioq_rd_end: "ioq_at x pre cur post \<Longrightarrow> x_data x = vio_tail (x_v x) \<Longrightarrow> ioq_rd x = bufs_bytes (heap x) (vios x) post"
  by (simp add: ioq_rd_def)

lemma ioq_rinvI:
  "ioq_at x pre cur post \<Longrightarrow> x_data x \<le> vio_tail (x_v x) \<Longrightarrow>
   \<forall>i \<in> set (butlast (cur # post)). ioquv_length (vios x i) mod 4 = 0 \<Longrightarrow> ioq_rinv x"
  unfolding ioq_rinv_def by blast

lemma ioq_getbytes_loop_ok:
  assumes "ioq_at x pre cur post" "x_data x \<le> vio_tail (x_v x)"
    and "\<forall>i \<in> set (butlast (cur # post)). ioquv_length (vios x i) mod 4 = 0" "n \<le> length (ioq_rd x)"
  shows "\<exists>x'. xdr_ioq_getbytes_loop post x n got = (True, got @ take n (ioq_rd x), x') \<and> ioq_rinv x' \<and>
    ioq_rd x' = drop n (ioq_rd x) \<and> ioq_phase x' = (ioq_phase x + n) mod 4 \<and> x_op x' = x_op x \<and> mlog x' = mlog x"
  using assms
proof (induction post arbitrary: x pre cur n got)
  case Nil
  then have n: "x_data x + n \<le> vio_tail (x_v x)" by (simp add: ioq_rd_def)
  have "ioq_rinv (x\<lparr>x_data := x_data x + n\<rparr>)"
    using ioq_inline_at [OF Nil.prems(1) n] n Nil.prems(3) by (intro ioq_rinvI) auto
  then show ?case
    using ioq_getbytes_within [OF Nil.prems(1) n] ioq_inline_rd [OF Nil.prems(1) n] ioq_inline_phase [OF Nil.prems(1)]
    by simp
next
  case (Cons u us)
  show ?case
  proof (cases "x_data x + n \<le> vio_tail (x_v x)")
    case True
    have "ioq_rinv (x\<lparr>x_data := x_data x + n\<rparr>)"
      using ioq_inline_at [OF Cons.prems(1) True] True Cons.prems(3) by (intro ioq_rinvI) auto
    then show ?thesis
      using ioq_getbytes_within [OF Cons.prems(1) True] ioq_inline_rd [OF Cons.prems(1) True]
        ioq_inline_phase [OF Cons.prems(1)] by simp
  next
    case False
    define k where "k = vio_tail (x_v x) - x_data x"
    let ?x = "x\<lparr>x_data := x_data x + k\<rparr>"
    let ?y = "xdr_ioq_uv_update u (snd (xdr_ioq_uv_advance ?x))"
    have k: "x_data x + k \<le> vio_tail (x_v x)" "k < n" using False Cons.prems(2) by (auto simp: k_def)
    have x: "ioq_at ?x pre cur (u # us)" by (rule ioq_inline_at [OF Cons.prems(1) k(1)])
    have e: "x_data ?x = vio_tail (x_v ?x)" using Cons.prems(2) by (simp add: k_def)
    have m: "\<forall>i \<in> set (butlast (cur # u # us)). ioquv_length (vios ?x i) mod 4 = 0" using Cons.prems(3) by simp
    note s = ioq_rinv_step [OF x e m]
    have r: "ioq_rd x = read_bytes (heap x) (x_data x) k @ ioq_rd ?x" by (rule ioq_inline_rd [OF Cons.prems(1) k(1)])
    have "(ioq_phase x + k) mod 4 = 0" using ioq_inline_phase [OF Cons.prems(1), of k] s(9) by simp
    then have p: "(n - k) mod 4 = (ioq_phase x + n) mod 4"
      using k(2) by (metis add.assoc add_0 le_add_diff_inverse less_imp_le_nat mod_add_left_eq)
    have "xdr_ioq_getbytes_loop (u # us) x n got =
        xdr_ioq_getbytes_loop us ?y (n - k) (got @ read_bytes (heap x) (x_data x) k)"
      using ioq_getbytes_drain [OF Cons.prems(1,2), of n got] ioq_getbytes_end [OF x e, of "n - k"] False k(2)
      by (simp add: k_def)
    moreover have "n - k \<le> length (ioq_rd ?y)" using Cons.prems(4) r s(5) by simp
    ultimately show ?thesis
      using Cons.IH [OF s(1,6,7), of "n - k" "got @ read_bytes (heap x) (x_data x) k"] r s(5,8,10,11) k(2) p by simp
  qed
qed

lemma ioq_getbytes_loop_short:
  assumes "ioq_at x pre cur post" "x_data x \<le> vio_tail (x_v x)" "length (ioq_rd x) < n"
  shows "\<exists>bs x'. xdr_ioq_getbytes_loop post x n got = (False, bs, x') \<and> mlog x' = mlog x"
  using assms
proof (induction post arbitrary: x pre cur n got)
  case Nil
  define k where "k = vio_tail (x_v x) - x_data x"
  let ?x = "x\<lparr>x_data := x_data x + k\<rparr>"
  have k: "x_data x + k \<le> vio_tail (x_v x)" "k < n" "vio_tail (x_v x) < x_data x + n"
    using Nil.prems(2,3) by (auto simp: k_def ioq_rd_def ioq_at_def)
  have x: "ioq_at ?x pre cur []" by (rule ioq_inline_at [OF Nil.prems(1) k(1)])
  have e: "x_data ?x = vio_tail (x_v ?x)" using Nil.prems(2) by (simp add: k_def)
  from ioq_getbytes_drain [OF Nil.prems(1,2) k(3), of got] ioq_getbytes_end [OF x e, of "n - k"] k(2) ioq_at_advance [OF x]
  show ?case by (simp add: k_def)
next
  case (Cons u us)
  define k where "k = vio_tail (x_v x) - x_data x"
  let ?x = "x\<lparr>x_data := x_data x + k\<rparr>"
  let ?y = "xdr_ioq_uv_update u (snd (xdr_ioq_uv_advance ?x))"
  have k: "x_data x + k \<le> vio_tail (x_v x)" "k < n" "vio_tail (x_v x) < x_data x + n"
    using Cons.prems(2,3) by (auto simp: k_def ioq_rd_def)
  have x: "ioq_at ?x pre cur (u # us)" by (rule ioq_inline_at [OF Cons.prems(1) k(1)])
  have e: "x_data ?x = vio_tail (x_v ?x)" using Cons.prems(2) by (simp add: k_def)
  note s = ioq_at_next [OF x]
  have "length (ioq_rd ?y) < n - k"
    using Cons.prems(3) ioq_inline_rd [OF Cons.prems(1) k(1)] ioq_rd_next(1) [OF x e] by simp
  with ioq_rd_next(3) [OF x e] have "\<exists>bs x'. xdr_ioq_getbytes_loop us ?y (n - k) (got @ read_bytes (heap x) (x_data x) k) = (False, bs, x') \<and>
      mlog x' = mlog ?y"
    by (rule Cons.IH [OF s(1)])
  then show ?case
    using ioq_getbytes_drain [OF Cons.prems(1,2) k(3), of got] ioq_getbytes_end [OF x e, of "n - k"] k(2) s(7)
    by (simp add: k_def)
qed

lemma ioq_at_mlog: "ioq_at (x\<lparr>mlog := l\<rparr>) pre cur post = ioq_at x pre cur post"
  by (simp add: ioq_at_def)

lemma ioq_ops_simps [simp]:
  "x_getunit (xdr_ioq_ops z) = xdr_ioq_getunit" "x_getbytes (xdr_ioq_ops z) = xdr_ioq_getbytes"
  "x_putunit (xdr_ioq_ops z) x v = returned x (xdr_ioq_putunit x v)"
  "x_putbytes (xdr_ioq_ops z) x bs = returned x (xdr_ioq_putbytes x bs)"
  by (simp_all add: xdr_ioq_ops_def)

interpretation ioq_r: xdr_reader "xdr_ioq_ops z" ioq_rinv ioq_rd ioq_phase
proof
  fix x :: xdr_ioq and n :: nat
  assume "ioq_rinv x" and n: "x_data x + n \<le> vio_tail (x_v x)"
  then obtain pre cur post where x: "ioq_at x pre cur post" "x_data x \<le> vio_tail (x_v x)"
      "\<forall>i \<in> set (butlast (cur # post)). ioquv_length (vios x i) mod 4 = 0"
    unfolding ioq_rinv_def by blast
  show "ioq_rd x = read_bytes (heap x) (x_data x) n @ ioq_rd (x\<lparr>x_data := x_data x + n\<rparr>)"
    by (rule ioq_inline_rd [OF x(1) n])
  show "ioq_rinv (x\<lparr>x_data := x_data x + n\<rparr>)"
    using ioq_inline_at [OF x(1) n] x n by (intro ioq_rinvI) auto
  show "ioq_phase (x\<lparr>x_data := x_data x + n\<rparr>) = (ioq_phase x + n) mod 4"
    by (rule ioq_inline_phase [OF x(1)])
next
  fix x :: xdr_ioq and l
  assume x: "ioq_rinv x"
  then show "x_data x \<noteq> NULL" unfolding ioq_rinv_def using ioq_at_data by blast
  show "ioq_rinv (x\<lparr>mlog := l\<rparr>)" using x by (simp add: ioq_rinv_def ioq_at_mlog)
  show "ioq_rd (x\<lparr>mlog := l\<rparr>) = ioq_rd x" by (simp add: ioq_rd_def following_def)
  show "ioq_phase (x\<lparr>mlog := l\<rparr>) = ioq_phase x" by (simp add: ioq_phase_def)
next
  fix x :: xdr_ioq and ip
  assume "ioq_rinv x"
  then obtain pre cur post where x: "ioq_at x pre cur post" "x_data x \<le> vio_tail (x_v x)"
      "\<forall>i \<in> set (butlast (cur # post)). ioquv_length (vios x i) mod 4 = 0"
    unfolding ioq_rinv_def by blast
  show "\<exists>x'. x_getunit (xdr_ioq_ops z) x ip = (True, of_be32 (take 4 (ioq_rd x)), x') \<and> ioq_rinv x' \<and>
      ioq_rd x' = drop 4 (ioq_rd x) \<and> ioq_phase x' = 0 \<and> x_op x' = x_op x \<and> mlog x' = mlog x"
    if "ioq_phase x = 0" "4 \<le> length (ioq_rd x)"
    using ioq_getunit_loop_ok [OF x that, of ip] x(1) by (simp add: xdr_ioq_getunit_def)
  show "\<exists>u x'. x_getunit (xdr_ioq_ops z) x ip = (False, u, x') \<and> mlog x' = mlog x" if "length (ioq_rd x) < 4"
    using ioq_getunit_loop_short [OF x(1,2) that, of ip] x(1) by (simp add: xdr_ioq_getunit_def)
next
  fix x :: xdr_ioq and cnt :: u32
  assume "ioq_rinv x"
  then obtain pre cur post where x: "ioq_at x pre cur post" "x_data x \<le> vio_tail (x_v x)"
      "\<forall>i \<in> set (butlast (cur # post)). ioquv_length (vios x i) mod 4 = 0"
    unfolding ioq_rinv_def by blast
  show "\<exists>x'. x_getbytes (xdr_ioq_ops z) x cnt = (True, take (unat cnt) (ioq_rd x), x') \<and> ioq_rinv x' \<and>
      ioq_rd x' = drop (unat cnt) (ioq_rd x) \<and> ioq_phase x' = (ioq_phase x + unat cnt) mod 4 \<and> x_op x' = x_op x \<and>
      mlog x' = mlog x" if "unat cnt \<le> length (ioq_rd x)"
    using ioq_getbytes_loop_ok [OF x that, of "[]"] x(1) by (simp add: xdr_ioq_getbytes_def)
  show "\<exists>bs x'. x_getbytes (xdr_ioq_ops z) x cnt = (False, bs, x') \<and> mlog x' = mlog x" if "length (ioq_rd x) < unat cnt"
    using ioq_getbytes_loop_short [OF x(1,2) that, of "[]"] x(1) by (simp add: xdr_ioq_getbytes_def)
qed

section \<open>Writing\<close>

text \<open>
  A queue that is written at its end.  The room in the current buffer is whole units, and the buffers
  behind which it stands hold whole units.  A buffer that may be reallocated (\<^verbatim>\<open>UIO_FLAG_REALLOC\<close>) has room
  up to \<^verbatim>\<open>max_bsize\<close>; otherwise there is always room, in new buffers of \<^verbatim>\<open>min_bsize\<close> bytes.
\<close>

definition preceding :: "xdr_ioq \<Rightarrow> nat list" where
  "preceding x = takeWhile (\<lambda>j. j \<noteq> IOQV (x_base x)) (uvqh x)"

definition ioq_w_at :: "xdr_ioq \<Rightarrow> nat list \<Rightarrow> nat \<Rightarrow> bool" where
  "ioq_w_at x pre cur \<longleftrightarrow> ioq_at x pre cur [] \<and> vio_tail (x_v x) \<le> x_data x \<and>
     (vio_wrap (x_v x) - vio_head (x_v x)) mod 4 = 0 \<and> (\<forall>i \<in> set pre. ioquv_length (vios x i) mod 4 = 0) \<and>
     0 < min_bsize x \<and> min_bsize x mod 4 = 0 \<and> max_bsize x mod 4 = 0"

definition ioq_winv :: "xdr_ioq \<Rightarrow> bool" where
  "ioq_winv x \<longleftrightarrow> (\<exists>pre cur. ioq_w_at x pre cur)"

definition ioq_wr :: "xdr_ioq \<Rightarrow> bytes" where
  "ioq_wr x = bufs_bytes (heap x) (vios x) (preceding x) @
     read_bytes (heap x) (vio_head (x_v x)) (x_data x - vio_head (x_v x))"

definition ioq_fits :: "xdr_ioq \<Rightarrow> nat \<Rightarrow> bool" where
  "ioq_fits x n \<longleftrightarrow> (flag (u_flags (uvs x (IOQV (x_base x)))) UIO_FLAG_REALLOC \<longrightarrow>
     x_data x + n \<le> vio_wrap (x_v x) \<or>
     ioquv_size (x_v x) < max_bsize x \<and> x_data x - vio_head (x_v x) + n \<le> max_bsize x)"

lemma preceding_at [simp]: "ioq_at x pre cur post \<Longrightarrow> preceding x = pre"
  by (auto simp: ioq_at_def preceding_def IOQV_def takeWhile_append)

lemma bufs_bytes_cong:
  assumes "\<And>i a. i \<in> set q \<Longrightarrow> vio_head (vs i) \<le> a \<Longrightarrow> a < vio_tail (vs i) \<Longrightarrow> m a = m' a"
  shows "bufs_bytes m vs q = bufs_bytes m' vs q"
  using assms unfolding bufs_bytes_def vio_bytes_def ioquv_length_def
  by (auto intro!: arg_cong [where f = concat] read_bytes_cong)

text \<open>Storing in the current buffer or above the memory in use does not touch the others.\<close>

lemma bufs_bytes_store:
  assumes x: "ioq_at x pre cur post" and a: "vio_base (x_v x) \<le> a" "a + length bs \<le> vio_wrap (x_v x)"
  shows "bufs_bytes (write_bytes (heap x) a bs) (vios x) pre = bufs_bytes (heap x) (vios x) pre"
proof (rule bufs_bytes_cong)
  fix i b assume i: "i \<in> set pre" "vio_head (vios x i) \<le> b" "b < vio_tail (vios x i)"
  with x have "vio_apart (vios x i) (vios x cur)" "vio_ok (vios x i)" "x_v x = vios x cur"
    by (auto simp: ioq_at_def bufs_ok_def)
  with a i show "write_bytes (heap x) a bs b = heap x b"
    by (auto simp: write_bytes_def vio_apart_def vio_ok_def)
qed

lemma bufs_bytes_above:
  assumes x: "ioq_at x pre cur post" and a: "brk x \<le> a"
  shows "bufs_bytes (write_bytes (heap x) a bs) (vios x) pre = bufs_bytes (heap x) (vios x) pre"
proof (rule bufs_bytes_cong)
  fix i b assume i: "i \<in> set pre" "b < vio_tail (vios x i)"
  with x have "vio_tail (vios x i) \<le> vio_wrap (vios x i)" "vio_wrap (vios x i) \<le> brk x"
    by (auto simp: ioq_at_def bufs_ok_def vio_ok_def)
  with a i show "write_bytes (heap x) a bs b = heap x b" by (simp add: write_bytes_def)
qed

lemma ioq_inline_store:
  assumes x: "ioq_w_at x pre cur" and n: "x_data x + length bs \<le> vio_wrap (x_v x)"
  defines "y \<equiv> x\<lparr>heap := write_bytes (heap x) (x_data x) bs, x_data := x_data x + length bs\<rparr>"
  shows "ioq_w_at y pre cur" "ioq_wr y = ioq_wr x @ bs" "ioq_phase y = (ioq_phase x + length bs) mod 4"
    "ioq_fits x (length bs + k) \<Longrightarrow> ioq_fits y k"
proof -
  have a: "ioq_at x pre cur []" "vio_head (x_v x) \<le> x_data x" "vio_base (x_v x) \<le> vio_head (x_v x)"
    using x by (auto simp: ioq_w_at_def ioq_at_def bufs_ok_def vio_ok_def)
  have at: "ioq_at y pre cur []" using a(1) n by (auto simp: ioq_at_def y_def)
  then show "ioq_w_at y pre cur" using x by (auto simp: ioq_w_at_def y_def)
  have "bufs_bytes (write_bytes (heap x) (x_data x) bs) (vios x) pre = bufs_bytes (heap x) (vios x) pre"
    using a n by (intro bufs_bytes_store) auto
  moreover have "read_bytes (write_bytes (heap x) (x_data x) bs) (vio_head (x_v x)) (x_data x + length bs - vio_head (x_v x)) =
      read_bytes (heap x) (vio_head (x_v x)) (x_data x - vio_head (x_v x)) @ bs"
    using a by (intro read_write_append) auto
  ultimately show "ioq_wr y = ioq_wr x @ bs"
    using at a by (simp add: ioq_wr_def) (simp add: y_def)
  show "ioq_phase y = (ioq_phase x + length bs) mod 4"
    using a(2) by (auto simp: ioq_phase_def y_def mod_add_left_eq)
  show "ioq_fits x (length bs + k) \<Longrightarrow> ioq_fits y k"
    using a(2) by (auto simp: ioq_fits_def y_def)
qed

lemma ioq_w_tail:
  assumes x: "ioq_w_at x pre cur"
  defines "y \<equiv> xdr_tail_update x"
  shows "ioq_w_at y pre cur" "ioq_wr y = ioq_wr x" "ioq_phase y = ioq_phase x" "ioq_fits y n = ioq_fits x n"
proof -
  have a: "ioq_at x pre cur []" "x_v x = vios x cur" "cur \<notin> set pre" using x by (auto simp: ioq_w_at_def ioq_at_def)
  note t = ioq_at_tail_update [OF a(1)]
  have p: "\<forall>i \<in> set pre. i \<noteq> cur" using a(3) by auto
  show "ioq_w_at y pre cur"
    using x t(1) p by (auto simp: ioq_w_at_def y_def t)
  show "ioq_wr y = ioq_wr x" using t(1) a by (simp add: ioq_wr_def y_def t(2))
  show "ioq_phase y = ioq_phase x" by (simp add: ioq_phase_def y_def)
  show "ioq_fits y n = ioq_fits x n" by (simp add: ioq_fits_def y_def t ioquv_size_def)
qed

text \<open>At the end of the room of the current buffer, the writers make more.\<close>

lemma ioq_w_next:
  assumes x: "ioq_w_at x pre cur" and e: "x_data x = vio_wrap (x_v x)" and f: "ioq_fits x n" "0 < n"
  defines "y \<equiv> snd (xdr_ioq_uv_next IOQ_FLAG_BALLOC x)"
  shows "ioq_winv y" "ioq_wr y = ioq_wr x" "ioq_fits y n" "x_data y + 4 \<le> vio_wrap (x_v y)" "ioq_phase y = ioq_phase x"
    "x_op y = x_op x"
proof -
  have a: "ioq_at x pre cur []" "x_v x = vios x cur" "x_base x = VioAt cur" "cur \<notin> set pre"
      "vio_tail (x_v x) \<le> x_data x" "vio_head (x_v x) \<le> x_data x" "\<forall>i \<in> set pre. i \<noteq> cur"
      "(x_data x - vio_head (x_v x)) mod 4 = 0"
    using x e by (auto simp: ioq_w_at_def ioq_at_def)
  have "ioq_winv y \<and> ioq_wr y = ioq_wr x \<and> ioq_fits y n \<and> x_data y + 4 \<le> vio_wrap (x_v y) \<and> ioq_phase y = ioq_phase x \<and>
      x_op y = x_op x"
  proof (cases "flag (u_flags (uvs x cur)) UIO_FLAG_REALLOC")
    case True
    let ?n = "x_data x - vio_head (x_v x)"
    have sz: "ioquv_size (vios x cur) < max_bsize x" "?n + n \<le> max_bsize x"
      using f True e a(2,3) by (auto simp: ioq_fits_def IOQV_def)
    note r = ioq_at_realloc [OF a(1) True sz(1) a(5), folded y_def]
    have "4 dvd ?n" "4 dvd max_bsize x" using x a(8) by (auto simp: ioq_w_at_def)
    then obtain k l where kl: "?n = 4 * k" "max_bsize x = 4 * l" by (auto elim!: dvdE)
    with sz(2) f(2) have "k < l" by linarith
    then have "?n + 4 \<le> max_bsize x" using kl by simp
    moreover have "ioq_w_at y pre cur"
      unfolding ioq_w_at_def using x r a(7) by (auto simp: ioq_w_at_def)
    moreover have "bufs_bytes (heap y) (vios y) pre = bufs_bytes (heap x) (vios x) pre"
      using bufs_bytes_above [OF a(1) order_refl] a(4) by (simp add: r(2,5))
    then have "ioq_wr y = ioq_wr x"
      using r(1) a(1) by (simp add: ioq_wr_def r(3,4,5) mem_simps)
    moreover have "ioq_fits y n" using sz(2) by (simp add: ioq_fits_def r)
    ultimately show ?thesis by (auto simp: ioq_winv_def ioq_phase_def r)
  next
    case False
    have m: "0 < min_bsize x" "4 dvd min_bsize x" using x by (auto simp: ioq_w_at_def)
    note r = ioq_at_append [OF a(1) False m(1), folded y_def]
    have n: "next_uv x \<notin> set pre" "next_uv x \<noteq> cur"
      using a(1) by (auto simp: ioq_at_def bufs_ok_def)
    have b: "x_base y = VioAt (next_uv x)" using r(1) by (simp add: ioq_at_def)
    have mx: "max (vio_tail (vios x cur)) (x_data x) = x_data x" using a(2,5) by simp
    have "\<forall>i \<in> set (pre @ [cur]). i \<noteq> next_uv x" using n by auto
    then have "ioq_w_at y (pre @ [cur]) (next_uv x)"
      unfolding ioq_w_at_def using x r a(2,7,8) n by (auto simp: ioq_w_at_def ioquv_length_def mx)
    moreover have "ioq_wr y = ioq_wr x"
      using r(1) a(1,2,4) n by (simp add: ioq_wr_def r(2-5) vio_bytes_def ioquv_length_def mx)
    moreover have "ioq_fits y n" by (simp add: ioq_fits_def b IOQV_def r(9) flag_def)
    moreover have "4 \<le> min_bsize x" using m by (auto simp: dvd_def)
    ultimately show ?thesis using a(8) by (auto simp: ioq_winv_def ioq_phase_def r(3,4,6))
  qed
  then show "ioq_winv y" "ioq_wr y = ioq_wr x" "ioq_fits y n" "x_data y + 4 \<le> vio_wrap (x_v y)" "ioq_phase y = ioq_phase x"
    "x_op y = x_op x"
    by blast+
qed

lemma ioq_putunit_ok:
  assumes x: "ioq_w_at x pre cur" and p: "ioq_phase x = 0" and f: "ioq_fits x (4 + k)"
  shows "\<exists>x'. xdr_ioq_putunit x v = Some (True, x') \<and> ioq_winv x' \<and> ioq_wr x' = ioq_wr x @ be32 v \<and> ioq_fits x' k \<and>
    x_op x' = x_op x \<and> ioq_phase x' = 0"
proof -
  have store: "\<exists>x'. xdr_ioq_putunit y v = Some (True, x') \<and> ioq_winv x' \<and> ioq_wr x' = ioq_wr y @ be32 v \<and> ioq_fits x' k \<and>
      x_op x' = x_op y \<and> ioq_phase x' = 0"
    if y: "ioq_w_at y pre cur" "x_data y + 4 \<le> vio_wrap (x_v y)" "ioq_fits y (4 + k)" "ioq_phase y = 0" for y pre cur
    using ioq_inline_store(1-3) [OF y(1), of "be32 v"] ioq_inline_store(4) [OF y(1), of "be32 v" k] y(2-4)
    by (subst xdr_ioq_putunit.simps) (auto simp: ioq_winv_def not_less)
  show ?thesis
  proof (cases "x_data x + 4 \<le> vio_wrap (x_v x)")
    case True
    then show ?thesis using store [OF x] p f by blast
  next
    case False
    have "vio_head (x_v x) \<le> x_data x" "x_data x \<le> vio_wrap (x_v x)" "4 dvd x_data x - vio_head (x_v x)"
        "4 dvd vio_wrap (x_v x) - vio_head (x_v x)"
      using x p by (auto simp: ioq_w_at_def ioq_at_def ioq_phase_def)
    then obtain a b where "x_data x = vio_head (x_v x) + 4 * a" "vio_wrap (x_v x) = vio_head (x_v x) + 4 * b" "a \<le> b"
      by (auto elim!: dvdE)
        (metis le_add_diff_inverse le_trans mult_le_cancel1 nat_add_left_cancel_le zero_less_numeral)
    with False have e: "x_data x = vio_wrap (x_v x)" by auto
    note n = ioq_w_next [OF x e f]
    let ?y = "snd (xdr_ioq_uv_next IOQ_FLAG_BALLOC x)"
    from n obtain pre' cur' where "ioq_w_at ?y pre' cur'" by (auto simp: ioq_winv_def)
    from store [OF this] n p have "\<exists>x'. xdr_ioq_putunit ?y v = Some (True, x') \<and> ioq_winv x' \<and>
        ioq_wr x' = ioq_wr x @ be32 v \<and> ioq_fits x' k \<and> x_op x' = x_op x \<and> ioq_phase x' = 0"
      by simp
    moreover have "xdr_ioq_putunit x v = xdr_ioq_putunit ?y v"
      using False by (subst xdr_ioq_putunit.simps) simp
    ultimately show ?thesis by simp
  qed
qed

lemma ioq_putbytes_ok:
  assumes "ioq_winv x" "ioq_fits x (length bs + k)"
  shows "\<exists>x'. xdr_ioq_putbytes x bs = Some (True, x') \<and> ioq_winv x' \<and> ioq_wr x' = ioq_wr x @ bs \<and> ioq_fits x' k \<and>
    x_op x' = x_op x \<and> ioq_phase x' = (ioq_phase x + length bs) mod 4"
  using assms
proof (induction "length bs" arbitrary: x bs rule: less_induct)
  case less
  have some: "\<exists>x'. xdr_ioq_putbytes y bs = Some (True, x') \<and> ioq_winv x' \<and> ioq_wr x' = ioq_wr y @ bs \<and> ioq_fits x' k \<and>
      x_op x' = x_op y \<and> ioq_phase x' = (ioq_phase y + length bs) mod 4"
    if y: "ioq_w_at y pre cur" "x_data y < vio_wrap (x_v y)" "ioq_fits y (length bs + k)" and bs: "bs \<noteq> []" for y pre cur
  proof -
    define d where "d = min (vio_wrap (x_v y) - x_data y) (length bs)"
    let ?z = "y\<lparr>heap := write_bytes (heap y) (x_data y) (take d bs), x_data := x_data y + d\<rparr>"
    have d: "0 < d" "d \<le> length bs" "x_data y + d \<le> vio_wrap (x_v y)" using y(2) bs by (auto simp: d_def)
    have "(if length bs < vio_wrap (x_v y) - x_data y then length bs else vio_wrap (x_v y) - x_data y) = d"
      by (auto simp: d_def)
    then have "xdr_ioq_putbytes y bs = xdr_ioq_putbytes ?z (drop d bs)"
      using y(2) bs d(1) by (subst xdr_ioq_putbytes.simps) simp
    moreover have l: "length (take d bs) = d" using d by simp
    have z: "ioq_w_at ?z pre cur" "ioq_wr ?z = ioq_wr y @ take d bs" "ioq_phase ?z = (ioq_phase y + d) mod 4"
        "ioq_fits ?z (length (drop d bs) + k)"
      using ioq_inline_store(1-3) [OF y(1), of "take d bs"] ioq_inline_store(4) [OF y(1), of "take d bs" "length (drop d bs) + k"]
        d y(3) by (simp_all add: l)
    have "\<exists>x'. xdr_ioq_putbytes ?z (drop d bs) = Some (True, x') \<and> ioq_winv x' \<and> ioq_wr x' = ioq_wr ?z @ drop d bs \<and>
        ioq_fits x' k \<and> x_op x' = x_op ?z \<and> ioq_phase x' = (ioq_phase ?z + length (drop d bs)) mod 4"
      using z d by (intro less.hyps) (auto simp: ioq_winv_def)
    moreover have "(ioq_phase ?z + length (drop d bs)) mod 4 = (ioq_phase y + d + length (drop d bs)) mod 4"
      by (simp only: z(3) mod_add_left_eq)
    ultimately show ?thesis using z d by simp
  qed
  from less.prems(1) obtain pre cur where x: "ioq_w_at x pre cur" by (auto simp: ioq_winv_def)
  consider "bs = []" | "bs \<noteq> []" "x_data x < vio_wrap (x_v x)" | "bs \<noteq> []" "x_data x = vio_wrap (x_v x)"
    using x by (fastforce simp: ioq_w_at_def ioq_at_def)
  then show ?case
  proof cases
    case 1
    then show ?thesis
      using less.prems by (subst xdr_ioq_putbytes.simps) (simp add: ioq_phase_def)
  next
    case 2
    then show ?thesis using some [OF x] less.prems(2) by blast
  next
    case 3
    then have "0 < length bs + k" by simp
    note n = ioq_w_next [OF x 3(2) less.prems(2) this]
    let ?y = "snd (xdr_ioq_uv_next IOQ_FLAG_BALLOC x)"
    from n obtain pre' cur' where "ioq_w_at ?y pre' cur'" by (auto simp: ioq_winv_def)
    from some [OF this _ n(3) 3(1)] n(4) have "\<exists>x'. xdr_ioq_putbytes ?y bs = Some (True, x') \<and> ioq_winv x' \<and>
        ioq_wr x' = ioq_wr ?y @ bs \<and> ioq_fits x' k \<and> x_op x' = x_op ?y \<and> ioq_phase x' = (ioq_phase ?y + length bs) mod 4"
      by simp
    moreover have "xdr_ioq_putbytes x bs = xdr_ioq_putbytes ?y bs"
      using 3 by (subst xdr_ioq_putbytes.simps) simp
    ultimately show ?thesis using n by simp
  qed
qed

text \<open>
  A buffer that may be reallocated and has its final size: \<^verbatim>\<open>xdr_ioq_uv_append\<close> refuses, and the writers do
  not notice.
\<close>

definition ioq_stuck :: "xdr_ioq \<Rightarrow> bool" where
  "ioq_stuck x \<longleftrightarrow> (\<exists>cur. x_base x = VioAt cur \<and> x_v x = vios x cur \<and> tailq_next (uvqh x) cur = None \<and>
     flag (u_flags (uvs x cur)) UIO_FLAG_REALLOC \<and> max_bsize x \<le> ioquv_size (x_v x))"

lemma ioq_stuck_next:
  assumes "ioq_stuck x"
  defines "y \<equiv> snd (xdr_ioq_uv_next IOQ_FLAG_BALLOC x)"
  shows "ioq_stuck y" "x_data y = x_data x" "vio_wrap (x_v y) = vio_wrap (x_v x)"
proof -
  obtain cur where c: "x_base x = VioAt cur" "x_v x = vios x cur" "tailq_next (uvqh x) cur = None"
     "flag (u_flags (uvs x cur)) UIO_FLAG_REALLOC" "max_bsize x \<le> ioquv_size (x_v x)"
    using assms(1) by (auto simp: ioq_stuck_def)
  have v: "vios (xdr_tail_update x) cur = x_v (xdr_tail_update x)"
      "uvqh (xdr_tail_update x) = uvqh x" "uvs (xdr_tail_update x) = uvs x" "max_bsize (xdr_tail_update x) = max_bsize x"
    using c by (auto simp: xdr_tail_update_def)
  have s: "ioquv_size (x_v (xdr_tail_update x)) = ioquv_size (x_v x)" by (simp add: ioquv_size_def)
  have "flag IOQ_FLAG_BALLOC IOQ_FLAG_BALLOC" by (simp add: flag_def)
  then have y: "y = (xdr_tail_update x)\<lparr>plength := plength (xdr_tail_update x) + ioquv_length (x_v (xdr_tail_update x))\<rparr>"
    using c v s by (simp add: y_def xdr_ioq_uv_next_def xdr_ioq_uv_advance_def xdr_ioq_uv_append_def IOQV_def)
  then show "ioq_stuck y" using c v s by (simp add: ioq_stuck_def)
  show "x_data y = x_data x" "vio_wrap (x_v y) = vio_wrap (x_v x)" by (simp_all add: y)
qed

lemma ioq_putunit_stuck:
  assumes "xdr_ioq_putunit x v = Some r"
  shows "\<not> (ioq_stuck x \<and> vio_wrap (x_v x) < x_data x + 4)"
proof (rule xdr_ioq_putunit.raw_induct [OF _ assms])
  fix f x v r
  assume ih: "\<And>x v r. f x v = Some r \<Longrightarrow> \<not> (ioq_stuck x \<and> vio_wrap (x_v x) < x_data x + 4)"
    and b: "(let future = x_data x + 4 in
      if future > vio_wrap (x_v x) then f (snd (xdr_ioq_uv_next IOQ_FLAG_BALLOC x)) v
      else Some (True, x\<lparr>heap := store32 (heap x) (x_data x) v, x_data := future\<rparr>)) = Some r"
  show "\<not> (ioq_stuck x \<and> vio_wrap (x_v x) < x_data x + 4)"
    using b ih [of "snd (xdr_ioq_uv_next IOQ_FLAG_BALLOC x)" v r] ioq_stuck_next [of x] by (auto split: if_splits)
qed

lemma ioq_putbytes_stuck:
  assumes "xdr_ioq_putbytes x bs = Some r"
  shows "\<not> (ioq_stuck x \<and> x_data x \<le> vio_wrap (x_v x) \<and> vio_wrap (x_v x) < x_data x + length bs)"
proof (rule xdr_ioq_putbytes.raw_induct [OF _ assms])
  fix f x bs r
  let ?y = "snd (xdr_ioq_uv_next IOQ_FLAG_BALLOC x)"
  let ?z = "\<lambda>d. x\<lparr>heap := write_bytes (heap x) (x_data x) (take d bs), x_data := x_data x + d\<rparr>"
  assume ih: "\<And>x bs r. f x bs = Some r \<Longrightarrow> \<not> (ioq_stuck x \<and> x_data x \<le> vio_wrap (x_v x) \<and> vio_wrap (x_v x) < x_data x + length bs)"
    and b: "(if bs = [] then Some (True, x)
      else if x_data x > vio_wrap (x_v x) then None
      else
        let delta = vio_wrap (x_v x) - x_data x;
            delta = (if delta > length bs then length bs else delta) in
        if delta = 0 then f ?y bs else f (?z delta) (drop delta bs)) = Some r"
  show "\<not> (ioq_stuck x \<and> x_data x \<le> vio_wrap (x_v x) \<and> vio_wrap (x_v x) < x_data x + length bs)"
  proof
    assume s: "ioq_stuck x \<and> x_data x \<le> vio_wrap (x_v x) \<and> vio_wrap (x_v x) < x_data x + length bs"
    define d where "d = vio_wrap (x_v x) - x_data x"
    have d: "\<not> length bs < d" "d < length bs" "bs \<noteq> []"
      using s by (auto simp: d_def)
    then have b': "(if d = 0 then f ?y bs else f (?z d) (drop d bs)) = Some r"
      using b s by (simp add: d_def [symmetric] split: if_splits)
    have "ioq_stuck (?z d)" using s by (simp add: ioq_stuck_def)
    with b' ih [of ?y bs r] ih [of "?z d" "drop d bs" r] ioq_stuck_next [of x] s d
    show False by (auto simp: d_def split: if_splits)
  qed
qed

lemma ioq_stuck_None:
  "ioq_stuck x \<Longrightarrow> vio_wrap (x_v x) < x_data x + 4 \<Longrightarrow> xdr_ioq_putunit x v = None"
  "ioq_stuck x \<Longrightarrow> x_data x \<le> vio_wrap (x_v x) \<Longrightarrow> vio_wrap (x_v x) < x_data x + length bs \<Longrightarrow>
     xdr_ioq_putbytes x bs = None"
  using ioq_putunit_stuck ioq_putbytes_stuck by (metis not_None_eq)+

lemma ioq_full_stuck:
  assumes x: "ioq_w_at x pre cur" and f: "\<not> ioq_fits x n"
  shows "vio_wrap (x_v x) < x_data x + n" "flag (u_flags (uvs x cur)) UIO_FLAG_REALLOC"
    "\<not> ioquv_size (x_v x) < max_bsize x \<Longrightarrow> ioq_stuck x"
    "ioquv_size (x_v x) < max_bsize x \<Longrightarrow> max_bsize x < x_data x - vio_head (x_v x) + n"
proof -
  have a: "ioq_at x pre cur []" "x_base x = VioAt cur" "x_v x = vios x cur" "uvqh x = pre @ [cur]" "distinct (pre @ [cur])"
    using x by (auto simp: ioq_w_at_def ioq_at_def)
  with f show "vio_wrap (x_v x) < x_data x + n" "flag (u_flags (uvs x cur)) UIO_FLAG_REALLOC"
      "ioquv_size (x_v x) < max_bsize x \<Longrightarrow> max_bsize x < x_data x - vio_head (x_v x) + n"
    by (auto simp: ioq_fits_def IOQV_def)
  then show "\<not> ioquv_size (x_v x) < max_bsize x \<Longrightarrow> ioq_stuck x"
    using a tailq_next_at [of pre cur "[]"] by (simp add: ioq_stuck_def)
qed

text \<open>After the reallocation the buffer has its final size.\<close>

lemma ioq_realloc_stuck:
  assumes x: "ioq_w_at x pre cur" and f: "flag (u_flags (uvs x cur)) UIO_FLAG_REALLOC" and sz: "ioquv_size (x_v x) < max_bsize x"
  defines "y \<equiv> snd (xdr_ioq_uv_next IOQ_FLAG_BALLOC x)"
  shows "ioq_stuck y" "x_data y = brk x + (x_data x - vio_head (x_v x))" "vio_wrap (x_v y) = brk x + max_bsize x"
    "x_data y \<le> vio_wrap (x_v y)"
proof -
  have a: "ioq_at x pre cur []" "x_v x = vios x cur" "vio_tail (x_v x) \<le> x_data x"
    using x by (auto simp: ioq_w_at_def ioq_at_def)
  note r = ioq_at_realloc [OF a(1) f sz [unfolded a(2)] a(3), folded y_def]
  show "x_data y = brk x + (x_data x - vio_head (x_v x))" "vio_wrap (x_v y) = brk x + max_bsize x" by (simp_all add: r)
  show "x_data y \<le> vio_wrap (x_v y)" using r(1) by (auto simp: ioq_at_def)
  show "ioq_stuck y"
    using r(1) f tailq_next_at [of pre cur "[]"] by (auto simp: ioq_stuck_def ioq_at_def r ioquv_size_def)
qed

lemma ioq_putunit_full:
  assumes x: "ioq_w_at x pre cur" and f: "\<not> ioq_fits x 4"
  shows "xdr_ioq_putunit x v = None"
proof -
  note s = ioq_full_stuck [OF x f]
  show ?thesis
  proof (cases "ioquv_size (x_v x) < max_bsize x")
    case True
    have "xdr_ioq_putunit x v = xdr_ioq_putunit (snd (xdr_ioq_uv_next IOQ_FLAG_BALLOC x)) v"
      using s(1) by (subst xdr_ioq_putunit.simps) simp
    also have "\<dots> = None"
      using ioq_realloc_stuck [OF x s(2) True] s(4) [OF True] by (intro ioq_stuck_None(1)) simp_all
    finally show ?thesis .
  qed (use s ioq_stuck_None(1) in blast)
qed

lemma ioq_putbytes_full:
  assumes x: "ioq_w_at x pre cur" and f: "\<not> ioq_fits x (length bs)"
  shows "xdr_ioq_putbytes x bs = None"
proof -
  note s = ioq_full_stuck [OF x f]
  have d: "x_data x \<le> vio_wrap (x_v x)" "vio_head (x_v x) \<le> x_data x" using x by (auto simp: ioq_w_at_def ioq_at_def)
  have fin: "xdr_ioq_putbytes y cs = None"
    if y: "ioq_w_at y pre cur" "x_data y = vio_wrap (x_v y)" "flag (u_flags (uvs y cur)) UIO_FLAG_REALLOC"
      "ioquv_size (x_v y) < max_bsize y" "max_bsize y < x_data y - vio_head (x_v y) + length cs" "cs \<noteq> []" for y cs
  proof -
    have "xdr_ioq_putbytes y cs = xdr_ioq_putbytes (snd (xdr_ioq_uv_next IOQ_FLAG_BALLOC y)) cs"
      using y(2,6) by (subst xdr_ioq_putbytes.simps) simp
    also have "\<dots> = None"
      using ioq_realloc_stuck [OF y(1,3,4)] y(5) by (intro ioq_stuck_None(2)) simp_all
    finally show ?thesis .
  qed
  show ?thesis
  proof (cases "ioquv_size (x_v x) < max_bsize x")
    case False
    then show ?thesis using s d(1) ioq_stuck_None(2) by blast
  next
    case True
    show ?thesis
    proof (cases "x_data x = vio_wrap (x_v x)")
      case e: True
      then show ?thesis using fin [OF x e s(2) True s(4) [OF True]] s(1) by fastforce
    next
      case False
      define k where "k = vio_wrap (x_v x) - x_data x"
      let ?y = "x\<lparr>heap := write_bytes (heap x) (x_data x) (take k bs), x_data := x_data x + k\<rparr>"
      have k: "0 < k" "k < length bs" "x_data x + k = vio_wrap (x_v x)" using False d s(1) by (auto simp: k_def)
      have l: "length (take k bs) = k" using k by simp
      have "ioq_w_at ?y pre cur" using ioq_inline_store(1) [OF x, of "take k bs", unfolded l] k(3) by simp
      moreover have "max_bsize ?y < x_data ?y - vio_head (x_v ?y) + length (drop k bs)"
        using s(4) [OF True] k d by simp
      ultimately have "xdr_ioq_putbytes ?y (drop k bs) = None"
        using fin [of ?y "drop k bs"] s(2) True k by simp
      moreover have "xdr_ioq_putbytes x bs = xdr_ioq_putbytes ?y (drop k bs)"
        using k d by (subst xdr_ioq_putbytes.simps) (auto simp: k_def [symmetric])
      ultimately show ?thesis by simp
    qed
  qed
qed

lemma ioq_wphase_inline [simp]: "ioq_phase (x\<lparr>heap := m\<rparr>) = ioq_phase x"
  by (simp add: ioq_phase_def)

interpretation ioq_w: xdr_writer "xdr_ioq_ops z" ioq_winv ioq_wr ioq_fits "\<lambda>_. 0" ioq_phase
proof
  fix x :: xdr_ioq and bs :: bytes and k n :: nat and v :: u32
  assume "ioq_winv x"
  then obtain pre cur where x: "ioq_w_at x pre cur" by (auto simp: ioq_winv_def)
  show "x_data x \<noteq> NULL" using x ioq_at_data by (auto simp: ioq_w_at_def)
  show "ioq_winv (xdr_tail_update x)" "ioq_wr (xdr_tail_update x) = ioq_wr x" "ioq_phase (xdr_tail_update x) = ioq_phase x"
      "ioq_fits (xdr_tail_update x) n = ioq_fits x n"
    using ioq_w_tail [OF x] by (auto simp: ioq_winv_def)
  let ?y = "x\<lparr>heap := write_bytes (heap x) (x_data x) bs, x_data := x_data x + length bs\<rparr>"
  show "ioq_winv ?y" "ioq_wr ?y = ioq_wr x @ bs" "ioq_phase ?y = (ioq_phase x + length bs) mod 4"
    if "x_data x + length bs \<le> vio_wrap (x_v x)"
    using ioq_inline_store(1-3) [OF x that] by (auto simp: ioq_winv_def)
  show "ioq_fits ?y k" if "ioq_fits x (length bs + k)" "x_data x + length bs \<le> vio_wrap (x_v x)"
    using ioq_inline_store(4) [OF x that(2) that(1)] .
  show "ioq_fits x n" if "x_data x + n \<le> vio_wrap (x_v x)" using that by (simp add: ioq_fits_def)
  show "\<exists>x'. x_putunit (xdr_ioq_ops z) x v = (True, x') \<and> ioq_winv x' \<and> ioq_wr x' = ioq_wr x @ be32 v \<and> ioq_fits x' k \<and>
      x_op x' = x_op x \<and> (0 :: nat) = 0 \<and> ioq_phase x' = 0" if "ioq_phase x = 0" "ioq_fits x (4 + k)"
    using ioq_putunit_ok [OF x that, of v] by (auto simp: returned_def)
  show "fst (x_putunit (xdr_ioq_ops z) x v) = False" if "\<not> ioq_fits x 4"
    using ioq_putunit_full [OF x that] by (simp add: returned_def)
  show "fst (x_putbytes (xdr_ioq_ops z) x bs) = False" if "\<not> ioq_fits x (length bs)"
    using ioq_putbytes_full [OF x that] by (simp add: returned_def)
next
  fix x :: xdr_ioq and bs :: bytes and k :: nat
  assume "ioq_winv x" "ioq_fits x (length bs + k)"
  from ioq_putbytes_ok [OF this] show "\<exists>x'. x_putbytes (xdr_ioq_ops z) x bs = (True, x') \<and> ioq_winv x' \<and>
      ioq_wr x' = ioq_wr x @ bs \<and> ioq_fits x' k \<and> x_op x' = x_op x \<and> (0 :: nat) = 0 \<and>
      ioq_phase x' = (ioq_phase x + length bs) mod 4"
    by (auto simp: returned_def)
next
  fix x :: xdr_ioq and n k :: nat
  assume "ioq_fits x n" "k \<le> n"
  then show "ioq_fits x k" by (auto simp: ioq_fits_def)
qed simp_all

end
