(* ===== verification/Ioq_Props.thy ===== *)
theory Ioq_Props
  imports Ioq_Contract Xdr_Opaque
begin

text \<open>
  What the queue of buffers does beyond the contracts: creation and release, positions, vectors of
  buffers, the invariant under any calls, and where the code departs from its intent.
\<close>

section \<open>Creation\<close>

lemma xdr_ioq_create_at:
  fixes maxb :: nat
  assumes "0 < minb" "0 < brk x" "\<not> flag flags UIO_FLAG_BUFQ"
  defines "y \<equiv> xdr_ioq_create minb maxb flags x"
    and "v \<equiv> \<lparr>vio_base = brk x, vio_head = brk x, vio_tail = brk x, vio_wrap = brk x + minb,
      vio_length = 0, vio_type = VIO_HEADER\<rparr>"
  shows "ioq_at y [] (next_uv x) []" "x_v y = v" "x_data y = brk x" "x_op y = XDR_ENCODE" "heap y = heap x"
    "min_bsize y = minb" "max_bsize y = maxb" "uvs y (next_uv x) = \<lparr>u_flags = flags, u_references = 1, u_release = False\<rparr>"
    "vios y = (vios x)(next_uv x := v)" "uvqh y = [next_uv x]"
  using assms
  by (auto simp: xdr_ioq_create_def xdr_ioq_setup_def xdr_ioq_uv_create_def xdr_ioq_reset_def xdr_ioq_uv_reset_def
      ioquv_size_def ioq_at_def bufs_ok_def vio_ok_def)

lemma xdr_ioq_create_writable:
  assumes "0 < minb" "minb mod 4 = 0" "maxb mod 4 = 0" "0 < brk x" "\<not> flag flags UIO_FLAG_BUFQ"
  shows "ioq_w.writable (xdr_ioq_create minb maxb flags x)" "ioq_wr (xdr_ioq_create minb maxb flags x) = []"
    "\<not> flag flags UIO_FLAG_REALLOC \<Longrightarrow> ioq_fits (xdr_ioq_create minb maxb flags x) n"
proof -
  note c = xdr_ioq_create_at [OF assms(1,4,5), of maxb]
  have "ioq_w_at (xdr_ioq_create minb maxb flags x) [] (next_uv x)"
    using assms c by (simp add: ioq_w_at_def)
  then show "ioq_w.writable (xdr_ioq_create minb maxb flags x)"
    using c by (auto simp: ioq_w.writable_def ioq_winv_def ioq_phase_def)
  show "ioq_wr (xdr_ioq_create minb maxb flags x) = []" using c by (simp add: ioq_wr_def)
  show "\<not> flag flags UIO_FLAG_REALLOC \<Longrightarrow> ioq_fits (xdr_ioq_create minb maxb flags x) n"
    using c(1) by (simp add: ioq_fits_def ioq_at_def IOQV_def c(8))
qed

section \<open>Positions\<close>

lemma ioq_setpos_loop_ok:
  assumes "bufs_length (vios z) uvl < 2 ^ 32"
    and "unat pos < bufs_length (vios z) uvl \<or> uvl \<noteq> [] \<and> unat pos = bufs_length (vios z) uvl \<and>
      ioquv_length (vios z (last uvl)) \<le> unat (of_nat (vio_wrap (x_v z)) - of_nat (vio_head (x_v z)) :: u32)"
  shows "\<exists>pre cur post. uvl = pre @ cur # post \<and> bufs_length (vios z) pre \<le> unat pos \<and>
    unat pos - bufs_length (vios z) pre \<le> ioquv_length (vios z cur) \<and>
    xdr_ioq_setpos_loop uvl z pos = (True, z\<lparr>plength := plength z + bufs_length (vios z) pre,
      pcount := pcount z + length pre, x_data := vio_head (vios z cur) + (unat pos - bufs_length (vios z) pre),
      x_base := VioAt cur, x_v := vios z cur\<rparr>)"
  using assms
proof (induction uvl arbitrary: z pos)
  case (Cons u us)
  let ?len = "of_nat (ioquv_length (vios z u)) :: u32"
  have l: "unat ?len = ioquv_length (vios z u)" using Cons.prems(1) by (simp add: unat_of_nat_small)
  show ?case
  proof (cases "pos < ?len \<or> us = [] \<and> pos \<le> of_nat (vio_wrap (x_v z)) - of_nat (vio_head (x_v z))")
    case True
    then have "unat pos \<le> ioquv_length (vios z u)"
      using Cons.prems(2) l by (auto simp: word_less_nat_alt)
    with True show ?thesis
      by (intro exI [of _ "[]"] exI [of _ u] exI [of _ us]) simp
  next
    case False
    then have le: "ioquv_length (vios z u) \<le> unat pos" "\<not> pos < ?len" using l by (auto simp: word_less_nat_alt)
    have s: "unat (pos - ?len) = unat pos - ioquv_length (vios z u)"
      using le l by (simp add: unat_sub word_le_nat_alt)
    let ?z = "z\<lparr>plength := plength z + unat ?len, pcount := pcount z + 1\<rparr>"
    have ne: "us \<noteq> []"
    proof
      assume "us = []"
      with False Cons.prems(2) le show False by (auto simp: word_le_nat_alt word_less_nat_alt)
    qed
    have a: "bufs_length (vios ?z) us < 2 ^ 32" using Cons.prems(1) by simp
    have b: "unat (pos - ?len) < bufs_length (vios ?z) us \<or> us \<noteq> [] \<and> unat (pos - ?len) = bufs_length (vios ?z) us \<and>
        ioquv_length (vios ?z (last us)) \<le> unat (of_nat (vio_wrap (x_v ?z)) - of_nat (vio_head (x_v ?z)) :: u32)"
      using Cons.prems(2) s le ne by (auto simp: less_diff_conv2)
    from Cons.IH [OF a b] obtain pre cur post where p: "us = pre @ cur # post"
        "bufs_length (vios ?z) pre \<le> unat (pos - ?len)"
        "unat (pos - ?len) - bufs_length (vios ?z) pre \<le> ioquv_length (vios ?z cur)"
        "xdr_ioq_setpos_loop us ?z (pos - ?len) = (True, ?z\<lparr>plength := plength ?z + bufs_length (vios ?z) pre,
          pcount := pcount ?z + length pre, x_data := vio_head (vios ?z cur) + (unat (pos - ?len) - bufs_length (vios ?z) pre),
          x_base := VioAt cur, x_v := vios ?z cur\<rparr>)"
      by (elim exE conjE)
    have "xdr_ioq_setpos_loop (u # us) z pos = xdr_ioq_setpos_loop us ?z (pos - ?len)" using False by simp
    with p le s l show ?thesis
      by (intro exI [of _ "u # pre"] exI [of _ cur] exI [of _ post]) (simp add: add.assoc)
  qed
qed simp

lemma ioq_setpos_ok:
  assumes x: "ioq_at x pre cur post"
  defines "vs \<equiv> ioq_synced x cur"
  assumes t: "bufs_length vs (uvqh x) < 2 ^ 32"
    and p: "unat pos < bufs_length vs (uvqh x) \<or> post = [] \<and> unat pos = bufs_length vs (uvqh x) \<and>
      ioquv_length (vs cur) \<le> unat (of_nat (vio_wrap (x_v x)) - of_nat (vio_head (x_v x)) :: u32)"
  obtains x' pre' cur' post' where "xdr_ioq_setpos x pos = (True, x')" "ioq_at x' pre' cur' post'"
    "x_data x' \<le> vio_tail (x_v x')" "ioq_rd x' = drop (unat pos) (bufs_bytes (heap x) vs (uvqh x))"
    "fst (xdr_ioq_getpos x') = pos" "vios x' = vs" "uvqh x' = uvqh x" "x_op x' = x_op x" "mlog x' = mlog x"
    "x_data x' - vio_head (x_v x') \<le> unat pos"
proof -
  define z where "z = (xdr_tail_update x)\<lparr>plength := 0, pcount := 0\<rparr>"
  note u = ioq_at_tail_update [OF x]
  have z: "vios z = vs" "uvqh z = uvqh x" "heap z = heap x" "x_op z = x_op x" "mlog z = mlog x" "plength z = 0" "pcount z = 0"
      "vio_wrap (x_v z) = vio_wrap (x_v x)" "vio_head (x_v z) = vio_head (x_v x)" "brk z = brk x" "next_uv z = next_uv x"
      "qcount z = qcount x"
    by (simp_all add: z_def u vs_def)
  have q: "uvqh x = pre @ cur # post" using x by (simp add: ioq_at_def)
  have "\<exists>pre' cur' post'. uvqh x = pre' @ cur' # post' \<and> bufs_length (vios z) pre' \<le> unat pos \<and>
      unat pos - bufs_length (vios z) pre' \<le> ioquv_length (vios z cur') \<and>
      xdr_ioq_setpos_loop (uvqh x) z pos = (True, z\<lparr>plength := plength z + bufs_length (vios z) pre',
        pcount := pcount z + length pre', x_data := vio_head (vios z cur') + (unat pos - bufs_length (vios z) pre'),
        x_base := VioAt cur', x_v := vios z cur'\<rparr>)"
    by (rule ioq_setpos_loop_ok) (use t p q in \<open>auto simp: z\<close>)
  then obtain pre' cur' post' where s: "uvqh x = pre' @ cur' # post'" "bufs_length vs pre' \<le> unat pos"
      "unat pos - bufs_length vs pre' \<le> ioquv_length (vs cur')"
      "xdr_ioq_setpos_loop (uvqh x) z pos = (True, z\<lparr>plength := bufs_length vs pre',
        pcount := length pre', x_data := vio_head (vs cur') + (unat pos - bufs_length vs pre'),
        x_base := VioAt cur', x_v := vs cur'\<rparr>)"
    unfolding z by auto
  let ?n = "unat pos - bufs_length vs pre'"
  let ?y = "z\<lparr>plength := bufs_length vs pre', pcount := length pre', x_data := vio_head (vs cur') + ?n,
        x_base := VioAt cur', x_v := vs cur'\<rparr>"
  have r: "xdr_ioq_setpos x pos = (True, ?y)"
    unfolding xdr_ioq_setpos_def Let_def u(3) z_def [symmetric] by (rule s(4))
  have ok: "bufs_ok vs (uvqh x) (brk x) (next_uv x)" using u(1) by (auto simp: ioq_at_def u vs_def)
  then have v: "vio_ok (vs cur')" using s(1) by (auto simp: bufs_ok_def)
  then have d: "vio_head (vs cur') + ?n \<le> vio_tail (vs cur')"
    using s(3) by (auto simp: vio_ok_def ioquv_length_def)
  have at: "ioq_at ?y pre' cur' post'"
  proof -
    have "qcount x = length (uvqh x)" "distinct (uvqh x)" using x by (auto simp: ioq_at_def)
    then have "qcount x = length (pre' @ cur' # post')" "distinct (pre' @ cur' # post')" by (simp_all only: s(1))
    with ok v d show ?thesis unfolding s(1) by (simp add: ioq_at_def z s(1) vio_ok_def)
  qed
  have "ioq_rd ?y = drop ?n (vio_bytes (heap x) (vs cur')) @ bufs_bytes (heap x) vs post'"
    using at by (simp add: ioq_rd_def z vio_bytes_def drop_read_bytes ioquv_length_def diff_diff_left)
  moreover have "drop (unat pos) (bufs_bytes (heap x) vs (uvqh x)) =
      drop ?n (vio_bytes (heap x) (vs cur')) @ bufs_bytes (heap x) vs post'"
    using s(2,3) by (simp add: s(1))
  moreover have "fst (xdr_ioq_getpos ?y) = pos"
    using s(2) ioq_at_tail_update(9) [OF at] by (simp add: xdr_ioq_getpos_def)
  ultimately show thesis
    using r at d by (intro that [of ?y pre' cur' post']) (simp_all add: z)
qed

section \<open>From a writer to a reader\<close>

text \<open>
  Encoding into a queue and decoding from it again: the position goes back to the start
  (\<^verbatim>\<open>XDR_SETPOS(xdrs, 0)\<close>) and the direction changes.
\<close>

definition ioq_transfer ::
    "(xdr_ioq \<Rightarrow> bool \<times> 'v \<times> xdr_ioq) \<Rightarrow> (xdr_ioq \<Rightarrow> bool \<times> 'w \<times> xdr_ioq) \<Rightarrow> xdr_ioq \<Rightarrow> 'w option" where
  "ioq_transfer enc dec x =
     (case enc x of
        (False, _, x) \<Rightarrow> None
      | (True, _, x) \<Rightarrow>
          (case xdr_ioq_setpos x 0 of
             (False, x) \<Rightarrow> None
           | (True, x) \<Rightarrow> (case dec (x\<lparr>x_op := XDR_DECODE\<rparr>) of (b, w, x) \<Rightarrow> if b then Some w else None)))"

lemma ioq_w_at_bytes:
  assumes x: "ioq_w_at x pre cur"
  shows "bufs_bytes (heap x) (ioq_synced x cur) (uvqh x) = ioq_wr x"
    "\<forall>i \<in> set (butlast (uvqh x)). ioquv_length (ioq_synced x cur i) mod 4 = 0"
proof -
  have a: "ioq_at x pre cur []" "x_v x = vios x cur" "uvqh x = pre @ [cur]" "cur \<notin> set pre" "vio_tail (vios x cur) \<le> x_data x"
    using x by (auto simp: ioq_w_at_def ioq_at_def)
  then show "bufs_bytes (heap x) (ioq_synced x cur) (uvqh x) = ioq_wr x"
    by (simp add: ioq_wr_def vio_bytes_def ioquv_length_def max_absorb2)
  show "\<forall>i \<in> set (butlast (uvqh x)). ioquv_length (ioq_synced x cur i) mod 4 = 0"
    using x a by (auto simp: ioq_w_at_def)
qed

lemma ioq_transfer_any:
  assumes enc: "ioq_w.encodes_any enc E m v" and d: "\<And>e. E e \<Longrightarrow> ioq_r.decodes dec e w"
    and x: "ioq_w.writable x" "ioq_wr x = []" "ioq_fits x m" and m: "m < 2 ^ 32"
  shows "ioq_transfer enc dec x = Some w"
proof -
  have "ioq_w.writable x \<and> ioq_fits x (m + 0)" using x by simp
  from enc [unfolded ioq_w.encodes_any_def, rule_format, OF this]
  obtain e x1 where e: "E e" "length e = m" "enc x = (True, v, x1)" "ioq_w.writable x1" "ioq_wr x1 = e"
    by (auto simp: x(2))
  then obtain pre cur where x1: "ioq_w_at x1 pre cur" by (auto simp: ioq_w.writable_def ioq_winv_def)
  then have a: "ioq_at x1 pre cur []" by (simp add: ioq_w_at_def)
  note b = ioq_w_at_bytes [OF x1]
  have t: "bufs_length (ioq_synced x1 cur) (uvqh x1) = m"
    using b(1) e(2,5) by (metis bufs_simps(8))
  obtain x2 pre' cur' post' where x2: "xdr_ioq_setpos x1 0 = (True, x2)" "ioq_at x2 pre' cur' post'"
      "x_data x2 \<le> vio_tail (x_v x2)" "ioq_rd x2 = e" "vios x2 = ioq_synced x1 cur" "uvqh x2 = uvqh x1"
      "x_data x2 - vio_head (x_v x2) = 0"
  proof (rule ioq_setpos_ok [OF a, of 0])
    show "bufs_length (ioq_synced x1 cur) (uvqh x1) < 2 ^ 32" using t m by simp
    have "uvqh x1 = pre @ [cur]" using a by (simp add: ioq_at_def)
    then have "ioquv_length (ioq_synced x1 cur cur) \<le> m" using t by simp
    with t show "unat (0 :: u32) < bufs_length (ioq_synced x1 cur) (uvqh x1) \<or> [] = [] \<and>
        unat (0 :: u32) = bufs_length (ioq_synced x1 cur) (uvqh x1) \<and>
        ioquv_length (ioq_synced x1 cur cur) \<le> unat (of_nat (vio_wrap (x_v x1)) - of_nat (vio_head (x_v x1)) :: u32)"
      by auto
  qed (use b(1) e(5) in auto)
  have "\<forall>i \<in> set (butlast (cur' # post')). i \<in> set (butlast (uvqh x1))"
    using x2(2,6) by (auto simp: ioq_at_def butlast_append)
  with b(2) have "\<forall>i \<in> set (butlast (cur' # post')). ioquv_length (vios x2 i) mod 4 = 0"
    unfolding x2(5) by blast
  then have "ioq_rinv x2" by (rule ioq_rinvI [OF x2(2,3)])
  then have "ioq_rinv (x2\<lparr>x_op := XDR_DECODE\<rparr>)" by (simp add: ioq_rinv_def ioq_at_def)
  moreover have "ioq_rd (x2\<lparr>x_op := XDR_DECODE\<rparr>) = e @ []" using x2(4) by (simp add: ioq_rd_def following_def)
  moreover have "ioq_phase (x2\<lparr>x_op := XDR_DECODE\<rparr>) = 0" using x2(7) by (simp add: ioq_phase_def)
  ultimately have "ioq_r.ready (x2\<lparr>x_op := XDR_DECODE\<rparr>)" by (simp add: ioq_r.ready_def)
  from ioq_r.decodesE [OF d [OF e(1)] this \<open>ioq_rd _ = e @ []\<close>] obtain x3 where "dec (x2\<lparr>x_op := XDR_DECODE\<rparr>) = (True, w, x3)"
    by blast
  with e(3) x2(1) show ?thesis by (simp add: ioq_transfer_def)
qed

section \<open>The invariant under any calls\<close>

text \<open>
  A queue that grows by new buffers.  \<open>owned\<close> are the addresses of its buffers; \<open>ioq_acct l x\<close> says that
  the queue holds the only reference to each of its buffers and that \<open>l\<close> bytes are allocated besides
  them.  \<open>ioq_frame\<close> says that a call keeps to the buffers and to memory it has allocated, and that it
  keeps these accounts.
\<close>

definition ioq_ok :: "xdr_ioq \<Rightarrow> bool" where
  "ioq_ok x \<longleftrightarrow> (\<exists>pre cur post. ioq_at x pre cur post) \<and> 0 < min_bsize x \<and>
     (\<forall>i \<in> set (uvqh x). \<not> flag (u_flags (uvs x i)) UIO_FLAG_REALLOC)"

definition owned :: "xdr_ioq \<Rightarrow> addr \<Rightarrow> bool" where
  "owned x a \<longleftrightarrow> (\<exists>i \<in> set (uvqh x). vio_base (vios x i) \<le> a \<and> a < vio_wrap (vios x i))"

definition bufs_size :: "(nat \<Rightarrow> xdr_vio) \<Rightarrow> nat list \<Rightarrow> nat" where
  "bufs_size vs q = sum_list (map (\<lambda>i. ioquv_size (vs i)) q)"

lemma bufs_size_simps [simp]:
  "bufs_size vs [] = 0" "bufs_size vs (i # q) = ioquv_size (vs i) + bufs_size vs q"
  "bufs_size vs (p @ q) = bufs_size vs p + bufs_size vs q"
  by (simp_all add: bufs_size_def)

lemma bufs_size_cong:
  "(\<And>i. i \<in> set q \<Longrightarrow> vio_base (vs i) = vio_base (ws i) \<and> vio_wrap (vs i) = vio_wrap (ws i)) \<Longrightarrow> bufs_size vs q = bufs_size ws q"
  by (auto simp: bufs_size_def ioquv_size_def intro!: arg_cong [where f = sum_list])

definition ioq_acct :: "int \<Rightarrow> xdr_ioq \<Rightarrow> bool" where
  "ioq_acct l x \<longleftrightarrow> (\<forall>i \<in> set (uvqh x). u_references (uvs x i) = 1 \<and> \<not> u_release (uvs x i) \<and>
       flag (u_flags (uvs x i)) UIO_FLAG_FREE \<and> \<not> flag (u_flags (uvs x i)) UIO_FLAG_REFER) \<and>
     mem_live (mlog x) = l + int (bufs_size (vios x) (uvqh x))"

definition ioq_frame :: "xdr_ioq \<Rightarrow> xdr_ioq \<Rightarrow> bool" where
  "ioq_frame x y \<longleftrightarrow> brk x \<le> brk y \<and> (\<forall>a < brk x. owned y a \<longrightarrow> owned x a) \<and>
     (\<forall>a < brk x. \<not> owned x a \<longrightarrow> heap y a = heap x a) \<and> (\<forall>l. ioq_acct l x \<longrightarrow> ioq_acct l y)"

text \<open>
  The calls of the operations table that read, write and move in a queue, and the inline fast path: a
  caller asks for \<open>n\<close> bytes of the current buffer and, when they are there, reads them or stores all of
  them through the pointer.  Not among the steps are reads and positions that are refused (they leave the
  counters behind the last buffer), a position that \<^verbatim>\<open>xdr_ioq_setpos\<close> accepts outside the memory of the
  buffer it ends in, and \<^verbatim>\<open>xdr_ioq_putbufs\<close> and \<^verbatim>\<open>xdr_ioq_allochdrs\<close>, which put buffers of other owners or
  buffers between the others into the queue.
\<close>

inductive ioq_step :: "xdr_ioq \<Rightarrow> xdr_ioq \<Rightarrow> bool" where
  getunit: "xdr_ioq_getunit x p = (True, u, y) \<Longrightarrow> ioq_step x y"
| getbytes: "xdr_ioq_getbytes x n = (True, bs, y) \<Longrightarrow> ioq_step x y"
| putunit: "xdr_ioq_putunit x v = Some (b, y) \<Longrightarrow> ioq_step x y"
| putbytes: "xdr_ioq_putbytes x bs = Some (b, y) \<Longrightarrow> ioq_step x y"
| newbuf: "xdr_ioq_newbuf x = (b, y) \<Longrightarrow> ioq_step x y"
| getpos: "xdr_ioq_getpos x = (p, y) \<Longrightarrow> ioq_step x y"
| setpos: "xdr_ioq_setpos x p = (True, y) \<Longrightarrow> x_data y \<le> vio_wrap (x_v y) \<Longrightarrow>
    bufs_length (vios (xdr_tail_update x)) (uvqh x) < 2 ^ 32 \<Longrightarrow> ioq_step x y"
| inline_get: "xdr_inline_decode x n = (buf, y) \<Longrightarrow> ioq_step x y"
| inline_put: "xdr_inline_encode x (length bs) = (buf, y) \<Longrightarrow> buf \<noteq> NULL \<Longrightarrow>
    ioq_step x (y\<lparr>heap := write_bytes (heap y) buf bs\<rparr>)"
| inline_full: "xdr_inline_encode x n = (NULL, y) \<Longrightarrow> ioq_step x y"
| iovcount: "xdr_ioq_iovcount x start datalen = (n, y) \<Longrightarrow> ioq_step x y"
| fillbufs: "xdr_ioq_fillbufs x start vec datalen = (b, vec', y) \<Longrightarrow> ioq_step x y"

definition ioq_keeps :: "xdr_ioq \<Rightarrow> xdr_ioq \<Rightarrow> bool" where
  "ioq_keeps x y \<longleftrightarrow> (ioq_ok x \<longrightarrow> ioq_ok y \<and> ioq_frame x y)"

lemma ioq_frame_refl: "ioq_frame x x"
  by (simp add: ioq_frame_def)

lemma ioq_keeps_refl: "ioq_keeps x x"
  by (simp add: ioq_keeps_def ioq_frame_refl)

lemma ioq_frame_trans: "ioq_frame x y \<Longrightarrow> ioq_frame y z \<Longrightarrow> ioq_frame x z"
  unfolding ioq_frame_def by (metis le_trans less_le_trans)

lemma ioq_keeps_trans [trans]: "ioq_keeps x y \<Longrightarrow> ioq_keeps y z \<Longrightarrow> ioq_keeps x z"
  unfolding ioq_keeps_def using ioq_frame_trans by blast

lemma ioq_frame_same:
  "brk y = brk x \<Longrightarrow> heap y = heap x \<Longrightarrow> uvqh y = uvqh x \<Longrightarrow> uvs y = uvs x \<Longrightarrow> mlog y = mlog x \<Longrightarrow>
   (\<And>i. vio_base (vios y i) = vio_base (vios x i) \<and> vio_wrap (vios y i) = vio_wrap (vios x i)) \<Longrightarrow> ioq_frame x y"
  using bufs_size_cong [of "uvqh x" "vios y" "vios x"] by (simp add: ioq_frame_def owned_def ioq_acct_def)

lemma ioq_keeps_tail: "ioq_keeps x (xdr_tail_update x)"
  unfolding ioq_keeps_def
proof
  assume x: "ioq_ok x"
  then obtain pre cur post where a: "ioq_at x pre cur post" by (auto simp: ioq_ok_def)
  note t = ioq_at_tail_update [OF a]
  have "ioq_frame x (xdr_tail_update x)" by (rule ioq_frame_same) (simp_all add: t)
  with x t show "ioq_ok (xdr_tail_update x) \<and> ioq_frame x (xdr_tail_update x)"
    by (auto simp: ioq_ok_def)
qed

lemma ioq_keeps_update:
  assumes a: "ioq_at x pre cur (u # us)"
  shows "ioq_keeps x (xdr_ioq_uv_update u (snd (xdr_ioq_uv_advance x)))"
proof -
  let ?y = "xdr_ioq_uv_update u (snd (xdr_ioq_uv_advance x))"
  note n = ioq_at_next [OF a]
  have q: "uvqh ?y = uvqh x" using n(1) a by (simp add: ioq_at_def)
  have "ioq_frame x ?y" by (rule ioq_frame_same) (simp_all add: n q)
  then show ?thesis using n(1) by (auto simp: ioq_keeps_def ioq_ok_def n(8,10) q)
qed

lemma ioq_keeps_next: "ioq_keeps x (snd (xdr_ioq_uv_next IOQ_FLAG_BALLOC x))"
proof (cases "ioq_ok x")
  case True
  then obtain pre cur post where a: "ioq_at x pre cur post" by (auto simp: ioq_ok_def)
  show ?thesis
  proof (cases post)
    case (Cons u us)
    then show ?thesis
      using ioq_keeps_update [of x pre cur u us] a ioq_at_advance [OF a] by (simp add: xdr_ioq_uv_next_def)
  next
    case Nil
    have f: "\<not> flag (u_flags (uvs x cur)) UIO_FLAG_REALLOC" "0 < min_bsize x" using True a by (auto simp: ioq_ok_def ioq_at_def)
    let ?y = "snd (xdr_ioq_uv_next IOQ_FLAG_BALLOC x)"
    note n = ioq_at_append [OF a [unfolded Nil] f]
    have q: "uvqh ?y = uvqh x @ [next_uv x]" using n(1) a Nil by (simp add: ioq_at_def)
    have new: "next_uv x \<notin> set (uvqh x)" using a by (auto simp: ioq_at_def bufs_ok_def)
    have o: "owned ?y a = (owned x a \<or> brk x \<le> a \<and> a < brk x + min_bsize x)" for a
      using new by (auto simp: owned_def q n(2))
    have "bufs_size (vios ?y) (uvqh x) = bufs_size (vios x) (uvqh x)"
      using new by (intro bufs_size_cong) (auto simp: n(2))
    moreover have "ioquv_size (vios ?y (next_uv x)) = min_bsize x" by (simp add: n(2) ioquv_size_def)
    ultimately have "ioq_acct l x \<Longrightarrow> ioq_acct l ?y" for l
      using new by (auto simp: ioq_acct_def q n(7,9) flag_def)
    then have "ioq_frame x ?y" by (auto simp: ioq_frame_def o n(5,8))
    moreover have "ioq_ok ?y"
      unfolding ioq_ok_def using n(1) True new by (auto simp: q n(9,10) ioq_ok_def flag_def)
    ultimately show ?thesis by (simp add: ioq_keeps_def)
  qed
qed (simp add: ioq_keeps_def)

lemma ioq_keeps_inline:
  assumes a: "ioq_at x pre cur post" and n: "x_data x + length bs \<le> vio_wrap (x_v x)"
  shows "ioq_keeps x (x\<lparr>heap := write_bytes (heap x) (x_data x) bs, x_data := x_data x + length bs\<rparr>)"
proof -
  let ?y = "x\<lparr>heap := write_bytes (heap x) (x_data x) bs, x_data := x_data x + length bs\<rparr>"
  have at: "ioq_at ?y pre cur post" using a n by (auto simp: ioq_at_def)
  have "vio_base (vios x cur) \<le> x_data x" "x_v x = vios x cur" "cur \<in> set (uvqh x)"
    using a by (auto simp: ioq_at_def bufs_ok_def vio_ok_def)
  then have "owned x b" if "x_data x \<le> b" "b < x_data x + length bs" for b
    using that n unfolding owned_def by (intro bexI [of _ cur]) auto
  then have "ioq_frame x ?y"
    by (auto simp: ioq_frame_def owned_def write_bytes_def ioq_acct_def)
  with at show ?thesis by (auto simp: ioq_keeps_def ioq_ok_def)
qed

lemma ioq_keeps_data:
  assumes a: "ioq_at x pre cur post" and n: "x_data x + n \<le> vio_tail (x_v x)"
  shows "ioq_keeps x (x\<lparr>x_data := x_data x + n\<rparr>)"
proof -
  have "ioq_frame x (x\<lparr>x_data := x_data x + n\<rparr>)" by (rule ioq_frame_same) simp_all
  then show ?thesis using ioq_inline_at [OF a n] by (auto simp: ioq_keeps_def ioq_ok_def)
qed

lemma ioq_keeps_getunit:
  "ioq_at x pre cur post \<Longrightarrow> xdr_ioq_getunit_loop post x p = (True, u, y) \<Longrightarrow> ioq_keeps x y"
proof (induction post arbitrary: x pre cur)
  case Nil
  then show ?case
    using ioq_keeps_data [OF Nil.prems(1), of 4]
    by (subst (asm) xdr_ioq_getunit_loop.simps) (auto split: if_splits)
next
  case (Cons v us)
  have l: "xdr_ioq_getunit_loop us (xdr_ioq_uv_update v (snd (xdr_ioq_uv_advance x))) p = (True, u, y)"
    if "vio_tail (x_v x) < x_data x + 4"
    using Cons.prems(2) that by (subst (asm) xdr_ioq_getunit_loop.simps) (auto split: if_splits)
  show ?case
  proof (cases "vio_tail (x_v x) < x_data x + 4")
    case True
    from Cons.IH [OF ioq_at_next(1) [OF Cons.prems(1)] l [OF True]] ioq_keeps_update [OF Cons.prems(1)]
    show ?thesis by (metis ioq_keeps_trans)
  next
    case False
    with Cons.prems(2) have "y = x\<lparr>x_data := x_data x + 4\<rparr>"
      by (subst (asm) xdr_ioq_getunit_loop.simps) simp
    with ioq_keeps_data [OF Cons.prems(1), of 4] False show ?thesis by simp
  qed
qed

lemma ioq_keeps_putunit:
  assumes "xdr_ioq_putunit x v = Some r"
  shows "ioq_keeps x (snd r)"
proof (rule xdr_ioq_putunit.raw_induct [OF _ assms])
  fix f x v r
  assume ih: "\<And>x v r. f x v = Some r \<Longrightarrow> ioq_keeps x (snd r)"
    and b: "(let future = x_data x + 4 in
      if future > vio_wrap (x_v x) then f (snd (xdr_ioq_uv_next IOQ_FLAG_BALLOC x)) v
      else Some (True, x\<lparr>heap := store32 (heap x) (x_data x) v, x_data := future\<rparr>)) = Some r"
  show "ioq_keeps x (snd r)"
  proof (cases "ioq_ok x \<and> \<not> vio_wrap (x_v x) < x_data x + 4")
    case True
    then obtain pre cur post where "ioq_at x pre cur post" by (auto simp: ioq_ok_def)
    from ioq_keeps_inline [OF this, of "be32 v"] True b show ?thesis by auto
  next
    case False
    then consider "\<not> ioq_ok x" | "f (snd (xdr_ioq_uv_next IOQ_FLAG_BALLOC x)) v = Some r" using b by auto
    then show ?thesis
      by cases (simp add: ioq_keeps_def, rule ioq_keeps_trans [OF ioq_keeps_next ih])
  qed
qed

lemma ioq_keeps_putbytes:
  assumes "xdr_ioq_putbytes x bs = Some r"
  shows "ioq_keeps x (snd r)"
proof (rule xdr_ioq_putbytes.raw_induct [OF _ assms])
  fix f x bs r
  let ?y = "snd (xdr_ioq_uv_next IOQ_FLAG_BALLOC x)"
  let ?z = "\<lambda>d. x\<lparr>heap := write_bytes (heap x) (x_data x) (take d bs), x_data := x_data x + d\<rparr>"
  assume ih: "\<And>x bs r. f x bs = Some r \<Longrightarrow> ioq_keeps x (snd r)"
    and b: "(if bs = [] then Some (True, x)
      else if x_data x > vio_wrap (x_v x) then None
      else
        let delta = vio_wrap (x_v x) - x_data x;
            delta = (if delta > length bs then length bs else delta) in
        if delta = 0 then f ?y bs else f (?z delta) (drop delta bs)) = Some r"
  define d where "d = min (vio_wrap (x_v x) - x_data x) (length bs)"
  have d: "(if vio_wrap (x_v x) - x_data x > length bs then length bs else vio_wrap (x_v x) - x_data x) = d"
    by (auto simp: d_def)
  consider "bs = []" "snd r = x" | "f ?y bs = Some r" | "f (?z d) (drop d bs) = Some r" "x_data x \<le> vio_wrap (x_v x)"
    using b by (auto simp: d split: if_splits)
  then show "ioq_keeps x (snd r)"
  proof cases
    case 1
    then show ?thesis by (simp add: ioq_keeps_refl)
  next
    case 2
    show ?thesis by (rule ioq_keeps_trans [OF ioq_keeps_next ih [OF 2]])
  next
    case 3
    show ?thesis
    proof (cases "ioq_ok x")
      case True
      then obtain pre cur post where a: "ioq_at x pre cur post" by (auto simp: ioq_ok_def)
      have "length (take d bs) = d" "x_data x + d \<le> vio_wrap (x_v x)" using 3(2) by (auto simp: d_def)
      with ioq_keeps_inline [OF a, of "take d bs"] have "ioq_keeps x (?z d)" by simp
      then show ?thesis by (rule ioq_keeps_trans [OF _ ih [OF 3(1)]])
    qed (simp add: ioq_keeps_def)
  qed
qed

lemma ioq_keeps_getbytes:
  "ioq_at x pre cur post \<Longrightarrow> xdr_ioq_getbytes_loop post x n got = (True, bs, y) \<Longrightarrow> ioq_keeps x y"
proof (induction post arbitrary: x pre cur n got)
  case Nil
  note a = Nil.prems(1)
  have pq: "pcount x < qcount x" using a by (simp add: ioq_at_def)
  consider "n = 0" | "0 < n" "vio_tail (x_v x) < x_data x" | "x_data x + n \<le> vio_tail (x_v x)"
    | "x_data x \<le> vio_tail (x_v x)" "vio_tail (x_v x) < x_data x + n"
    by linarith
  then show ?case
  proof cases
    case 4
    let ?x = "x\<lparr>x_data := x_data x + (vio_tail (x_v x) - x_data x)\<rparr>"
    have "ioq_at ?x pre cur []" using 4 by (intro ioq_inline_at [OF a]) simp
    from ioq_getbytes_end [OF this] ioq_getbytes_drain [OF a 4] Nil.prems(2) 4 show ?thesis by simp
  qed (use Nil.prems(2) pq ioq_getbytes_within [OF a] ioq_keeps_data [OF a] in
      \<open>auto simp: ioq_keeps_refl xdr_ioq_getbytes_loop.simps [of _ x] split: if_splits\<close>)
next
  case (Cons u us)
  note a = Cons.prems(1)
  have pq: "pcount x < qcount x" using a by (simp add: ioq_at_def)
  consider "n = 0" | "0 < n" "vio_tail (x_v x) < x_data x" | "0 < n" "x_data x + n \<le> vio_tail (x_v x)"
    | "x_data x \<le> vio_tail (x_v x)" "vio_tail (x_v x) < x_data x + n"
    by linarith
  then show ?case
  proof cases
    case 3
    with Cons.prems(2) ioq_getbytes_within [OF a 3(2)] ioq_keeps_data [OF a 3(2)] show ?thesis by simp
  next
    case 4
    let ?k = "vio_tail (x_v x) - x_data x"
    let ?x = "x\<lparr>x_data := x_data x + ?k\<rparr>"
    let ?y = "xdr_ioq_uv_update u (snd (xdr_ioq_uv_advance ?x))"
    have x: "ioq_at ?x pre cur (u # us)" using 4 by (intro ioq_inline_at [OF a]) simp
    have "xdr_ioq_getbytes_loop us ?y (n - ?k) (got @ read_bytes (heap x) (x_data x) ?k) = (True, bs, y)"
      using ioq_getbytes_end [OF x, of "n - ?k"] ioq_getbytes_drain [OF a 4] Cons.prems(2) 4 by simp
    from Cons.IH [OF ioq_at_next(1) [OF x] this] have "ioq_keeps ?y y" .
    with ioq_keeps_update [OF x] have "ioq_keeps ?x y" by (rule ioq_keeps_trans)
    moreover have "ioq_keeps x ?x" using 4 by (intro ioq_keeps_data [OF a]) simp
    ultimately show ?thesis using ioq_keeps_trans by blast
  qed (use Cons.prems(2) pq in \<open>auto simp: ioq_keeps_refl xdr_ioq_getbytes_loop.simps [of _ x] split: if_splits\<close>)
qed

lemma ioq_setpos_loop_same:
  "xdr_ioq_setpos_loop q z p = (b, y) \<Longrightarrow> heap y = heap z \<and> vios y = vios z \<and> uvqh y = uvqh z \<and> uvs y = uvs z \<and>
     brk y = brk z \<and> min_bsize y = min_bsize z \<and> mlog y = mlog z"
proof (induction q arbitrary: z p)
  case (Cons u us)
  let ?len = "of_nat (ioquv_length (vios z u)) :: u32"
  show ?case
  proof (cases "p < ?len \<or> us = [] \<and> p \<le> of_nat (vio_wrap (x_v z)) - of_nat (vio_head (x_v z))")
    case True
    with Cons.prems show ?thesis by auto
  next
    case False
    with Cons.prems have "xdr_ioq_setpos_loop us (z\<lparr>plength := plength z + unat ?len, pcount := pcount z + 1\<rparr>) (p - ?len) = (b, y)"
      by simp
    from Cons.IH [OF this] show ?thesis by simp
  qed
qed simp

lemma ioq_setpos_loop_lands:
  assumes "xdr_ioq_setpos_loop uvl z p = (True, y)" "bufs_length (vios z) uvl < 2 ^ 32"
  shows "\<exists>pre cur post n. uvl = pre @ cur # post \<and>
    y = z\<lparr>plength := plength z + bufs_length (vios z) pre, pcount := pcount z + length pre,
      x_data := vio_head (vios z cur) + n, x_base := VioAt cur, x_v := vios z cur\<rparr>"
  using assms
proof (induction uvl arbitrary: z p)
  case (Cons u us)
  let ?len = "of_nat (ioquv_length (vios z u)) :: u32"
  have l: "unat ?len = ioquv_length (vios z u)" using Cons.prems(2) by (simp add: unat_of_nat_small)
  show ?case
  proof (cases "p < ?len \<or> us = [] \<and> p \<le> of_nat (vio_wrap (x_v z)) - of_nat (vio_head (x_v z))")
    case True
    with Cons.prems(1) show ?thesis
      by (intro exI [of _ "[]"] exI [of _ u] exI [of _ us] exI [of _ "unat p"]) auto
  next
    case False
    let ?z = "z\<lparr>plength := plength z + unat ?len, pcount := pcount z + 1\<rparr>"
    from False Cons.prems(1) have "xdr_ioq_setpos_loop us ?z (p - ?len) = (True, y)" by auto
    moreover have "bufs_length (vios ?z) us < 2 ^ 32" using Cons.prems(2) by simp
    ultimately obtain pre cur post n where "us = pre @ cur # post"
        "y = ?z\<lparr>plength := plength ?z + bufs_length (vios ?z) pre, pcount := pcount ?z + length pre,
          x_data := vio_head (vios ?z cur) + n, x_base := VioAt cur, x_v := vios ?z cur\<rparr>"
      using Cons.IH by blast
    with l show ?thesis
      by (intro exI [of _ "u # pre"] exI [of _ cur] exI [of _ post] exI [of _ n]) (simp add: add.assoc)
  qed
qed simp

lemma ioq_keeps_setpos:
  assumes s: "xdr_ioq_setpos x p = (True, y)" and d: "x_data y \<le> vio_wrap (x_v y)"
    and t: "bufs_length (vios (xdr_tail_update x)) (uvqh x) < 2 ^ 32"
  shows "ioq_keeps x y"
proof (cases "ioq_ok x")
  case True
  then obtain pre cur post where a: "ioq_at x pre cur post" by (auto simp: ioq_ok_def)
  note u = ioq_at_tail_update [OF a]
  define z where "z = (xdr_tail_update x)\<lparr>plength := 0, pcount := 0\<rparr>"
  have q: "uvqh (xdr_tail_update x) = uvqh x" by (simp add: u)
  have "xdr_ioq_setpos_loop (uvqh x) z p = (True, y)" using s by (simp add: xdr_ioq_setpos_def z_def q)
  moreover have "bufs_length (vios z) (uvqh x) < 2 ^ 32" using t by (simp add: z_def)
  ultimately obtain pre' cur' post' n where l: "uvqh x = pre' @ cur' # post'"
      "y = z\<lparr>plength := plength z + bufs_length (vios z) pre', pcount := pcount z + length pre',
        x_data := vio_head (vios z cur') + n, x_base := VioAt cur', x_v := vios z cur'\<rparr>"
    using ioq_setpos_loop_lands by blast
  have ok: "uvqh z = pre' @ cur' # post'" "distinct (pre' @ cur' # post')" "qcount z = length (pre' @ cur' # post')"
      "bufs_ok (vios z) (pre' @ cur' # post') (brk z) (next_uv z)"
    using u(1) by (auto simp: ioq_at_def z_def q simp flip: l(1))
  have "ioq_at y pre' cur' post'" using ok d unfolding l(2) ioq_at_def by (simp add: z_def)
  moreover have "heap y = heap x" "vios y = vios (xdr_tail_update x)" "uvqh y = uvqh x" "uvs y = uvs x" "brk y = brk x"
      "min_bsize y = min_bsize x" "mlog y = mlog x"
    using s ioq_setpos_loop_same [of "uvqh (xdr_tail_update x)" _ p True y] u by (auto simp: xdr_ioq_setpos_def)
  moreover from this have "ioq_frame x y" by (intro ioq_frame_same) (simp_all add: u(2))
  ultimately show ?thesis by (auto simp: ioq_keeps_def ioq_ok_def)
qed (simp add: ioq_keeps_def)

lemma ioq_keeps_inline_encode:
  assumes a: "ioq_at x pre cur post" and e: "xdr_inline_encode x (length bs) = (buf, y)"
  shows "ioq_keeps x (if buf = NULL then y else y\<lparr>heap := write_bytes (heap y) buf bs\<rparr>)"
proof (cases "x_data x + length bs \<le> vio_wrap (x_v x)")
  case True
  let ?y = "x\<lparr>x_data := x_data x + length bs\<rparr>" and ?w = "\<lambda>x. x\<lparr>heap := write_bytes (heap x) (x_data x) bs, x_data := x_data x + length bs\<rparr>"
  have at: "ioq_at ?y pre cur post" using a True by (auto simp: ioq_at_def)
  from True e have b: "buf = x_data x" "y = xdr_tail_update ?y" by (auto simp: xdr_inline_encode_def Let_def)
  have "xdr_tail_update (?w x) = (xdr_tail_update ?y)\<lparr>heap := write_bytes (heap x) (x_data x) bs\<rparr>"
    by (simp add: xdr_tail_update_def Let_def split: vio_ptr.split)
  with ioq_keeps_trans [OF ioq_keeps_inline [OF a True] ioq_keeps_tail]
  have "ioq_keeps x (y\<lparr>heap := write_bytes (heap y) buf bs\<rparr>)" by (simp add: b ioq_at_tail_update [OF at])
  moreover have "ioq_keeps x y" if "buf = NULL"
    using a that b(1) by (auto simp: ioq_at_def bufs_ok_def vio_ok_def)
  ultimately show ?thesis by simp
next
  case False
  with e have "buf = NULL" "y = x" by (auto simp: xdr_inline_encode_def Let_def)
  then show ?thesis by (simp add: ioq_keeps_refl)
qed

lemma ioq_step_keeps: "ioq_step x y \<Longrightarrow> ioq_keeps x y"
proof (cases "ioq_ok x")
  case True
  then obtain pre cur post where a: "ioq_at x pre cur post" by (auto simp: ioq_ok_def)
  assume "ioq_step x y"
  then show ?thesis
  proof cases
    case (putunit v b)
    then show ?thesis using ioq_keeps_putunit by fastforce
  next
    case (putbytes bs b)
    then show ?thesis using ioq_keeps_putbytes by fastforce
  next
    case (setpos p)
    then show ?thesis by (rule ioq_keeps_setpos)
  next
    case (inline_get n buf)
    then show ?thesis
      using ioq_keeps_data [OF a, of n] by (auto simp: xdr_inline_decode_def Let_def ioq_keeps_refl split: if_splits)
  next
    case (inline_put bs buf y')
    then show ?thesis using ioq_keeps_inline_encode [OF a inline_put(2)] by simp
  next
    case (inline_full n)
    then show ?thesis using ioq_keeps_inline_encode [OF a, of "replicate n 0" NULL y] by simp
  qed (use a ioq_keeps_getunit ioq_keeps_getbytes ioq_keeps_next [of x] ioq_keeps_tail [of x] in
      \<open>auto simp: xdr_ioq_getunit_def xdr_ioq_getbytes_def xdr_ioq_newbuf_def xdr_ioq_getpos_def xdr_ioq_iovcount_def
        xdr_ioq_fillbufs_def split: prod.splits\<close>)
qed (simp add: ioq_keeps_def)

text \<open>Objects for the witnesses: the rest of the process, and a queue of 8-byte buffers.\<close>

definition ioq_blank :: xdr_ioq where
  "ioq_blank = \<lparr>x_data = 0, x_base = VioNull, x_v = \<lparr>vio_base = 0, vio_head = 0, vio_tail = 0, vio_wrap = 0, vio_length = 0,
       vio_type = VIO_HEADER\<rparr>, x_handy = 0, x_flags = 0, x_op = XDR_ENCODE, heap = (\<lambda>_. 0),
     vios = (\<lambda>_. \<lparr>vio_base = 0, vio_head = 0, vio_tail = 0, vio_wrap = 0, vio_length = 0, vio_type = VIO_HEADER\<rparr>),
     fresh = (\<lambda>_. 0), mlog = [], uvqh = [], qcount = 0, min_bsize = 0, max_bsize = 0, plength = 0, pcount = 0,
     ioq_pool = False, uvs = (\<lambda>_. \<lparr>u_flags = 0, u_references = 0, u_release = False\<rparr>), next_uv = 1, brk = 64, ulog = []\<rparr>"

definition ioq_demo :: "nat \<Rightarrow> u32 \<Rightarrow> xdr_ioq" where
  "ioq_demo minb flags = xdr_ioq_create minb 64 (flags OR UIO_FLAG_FREE) ioq_blank"

lemma ioq_demo_at:
  assumes "0 < minb" "flags \<in> {UIO_FLAG_NONE, UIO_FLAG_REALLOC}"
  shows "ioq_at (ioq_demo minb flags) [] 1 []" "min_bsize (ioq_demo minb flags) = minb" "uvqh (ioq_demo minb flags) = [1]"
    "u_flags (uvs (ioq_demo minb flags) 1) = flags OR UIO_FLAG_FREE" "max_bsize (ioq_demo minb flags) = 64"
    "x_data (ioq_demo minb flags) = 64" "vio_wrap (x_v (ioq_demo minb flags)) = 64 + minb"
    "vio_tail (x_v (ioq_demo minb flags)) = 64" "vio_head (x_v (ioq_demo minb flags)) = 64"
    "vio_base (x_v (ioq_demo minb flags)) = 64"
proof -
  have "0 < brk ioq_blank" "next_uv ioq_blank = 1" "brk ioq_blank = 64" "\<not> flag (flags OR UIO_FLAG_FREE) UIO_FLAG_BUFQ"
    using assms(2) by (auto simp: ioq_blank_def flag_def)
  with xdr_ioq_create_at [OF assms(1), of ioq_blank "flags OR UIO_FLAG_FREE" 64]
  show "ioq_at (ioq_demo minb flags) [] 1 []" "min_bsize (ioq_demo minb flags) = minb" "uvqh (ioq_demo minb flags) = [1]"
    "u_flags (uvs (ioq_demo minb flags) 1) = flags OR UIO_FLAG_FREE" "max_bsize (ioq_demo minb flags) = 64"
    "x_data (ioq_demo minb flags) = 64" "vio_wrap (x_v (ioq_demo minb flags)) = 64 + minb"
    "vio_tail (x_v (ioq_demo minb flags)) = 64" "vio_head (x_v (ioq_demo minb flags)) = 64"
    "vio_base (x_v (ioq_demo minb flags)) = 64"
    by (simp_all add: ioq_demo_def)
qed

section \<open>Properties\<close>

text \<open>
  C22: Any sequence of reads and writes of units and bytes (\<^verbatim>\<open>getunit\<close>, \<^verbatim>\<open>getbytes\<close>, \<^verbatim>\<open>putunit\<close>, \<^verbatim>\<open>putbytes\<close>),
  of inline reads and writes, of \<^verbatim>\<open>newbuf\<close>, \<^verbatim>\<open>getpos\<close>, \<^verbatim>\<open>setpos\<close>, \<^verbatim>\<open>iovcount\<close> and \<^verbatim>\<open>fillbufs\<close> on a queue that grows
  by new buffers keeps it well formed (buffers in shape and apart, the cached vector and the counters
  \<^verbatim>\<open>plength\<close>, \<^verbatim>\<open>pcount\<close> and \<^verbatim>\<open>qcount\<close> true), and writes to no byte outside its buffers and the memory it allocates.
  The reads and positions are those that succeed, an inline write stores all the bytes it asked for, and a
  position ends inside the memory of its buffer in a queue of less than \<open>2 ^ 32\<close> bytes.  The calls
  \<^verbatim>\<open>putbufs\<close> and \<^verbatim>\<open>allochdrs\<close> are not among them.
\<close>

theorem ioq_calls_keep_invariant:
  assumes "ioq_step\<^sup>*\<^sup>* x y" "ioq_ok x"
  shows "ioq_ok y \<and> ioq_frame x y"
proof -
  from assms(1) have "ioq_keeps x y"
    by (induction rule: rtranclp_induct) (auto intro: ioq_keeps_refl ioq_keeps_trans ioq_step_keeps)
  with assms(2) show ?thesis by (simp add: ioq_keeps_def)
qed

theorem ioq_calls_keep_invariant_witness:
  "\<exists>y. xdr_ioq_putbytes (ioq_demo 8 0) [1, 2, 3, 4, 5, 6, 7, 8, 9, 10] = Some (True, y) \<and> ioq_ok y \<and> ioq_frame (ioq_demo 8 0) y"
proof -
  have ok: "ioq_ok (ioq_demo 8 0)"
    using ioq_demo_at [of 8 0] by (auto simp: ioq_ok_def flag_def)
  have "ioq_winv (ioq_demo 8 0)" "ioq_fits (ioq_demo 8 0) (length [1, 2, 3, 4, 5, 6, 7, 8, 9, 10 :: u8] + 0)"
    using ioq_demo_at [of 8 0] by (auto simp: ioq_winv_def ioq_w_at_def ioq_fits_def ioq_at_def IOQV_def flag_def)
  from ioq_putbytes_ok [OF this] obtain y where
    y: "xdr_ioq_putbytes (ioq_demo 8 0) [1, 2, 3, 4, 5, 6, 7, 8, 9, 10] = Some (True, y)" by blast
  then have "ioq_step\<^sup>*\<^sup>* (ioq_demo 8 0) y" by (blast intro: ioq_step.putbytes)
  from ioq_calls_keep_invariant [OF this ok] y show ?thesis by blast
qed

text \<open>
  C23: Setting a position inside the data of a queue, whatever buffer it is in, succeeds; the position
  reads back as set, and what is read from there are the bytes of the stream from that position on.
\<close>

theorem ioq_setpos_getpos:
  assumes "ioq_ok x" "bufs_length (vios (xdr_tail_update x)) (uvqh x) < 2 ^ 32"
    and "unat pos < bufs_length (vios (xdr_tail_update x)) (uvqh x)"
  shows "\<exists>y. xdr_ioq_setpos x pos = (True, y) \<and> fst (xdr_ioq_getpos y) = pos \<and>
    ioq_rd y = drop (unat pos) (bufs_bytes (heap x) (vios (xdr_tail_update x)) (uvqh x))"
proof -
  obtain pre cur post where a: "ioq_at x pre cur post" using assms(1) by (auto simp: ioq_ok_def)
  note u = ioq_at_tail_update(2) [OF a]
  show ?thesis
    by (rule ioq_setpos_ok [OF a assms(2) [unfolded u] disjI1 [OF assms(3) [unfolded u]]]) (auto simp: u)
qed

lemma ioq_demo_put:
  "\<exists>y. xdr_ioq_putbytes (ioq_demo 8 0) [1, 2, 3, 4, 5, 6, 7, 8, 9, 10] = Some (True, y) \<and> ioq_ok y \<and>
     bufs_bytes (heap y) (vios (xdr_tail_update y)) (uvqh y) = [1, 2, 3, 4, 5, 6, 7, 8, 9, 10]"
proof -
  have "ioq_winv (ioq_demo 8 0)" "ioq_fits (ioq_demo 8 0) (length [1, 2, 3, 4, 5, 6, 7, 8, 9, 10 :: u8] + 0)" "ioq_wr (ioq_demo 8 0) = []"
    using ioq_demo_at [of 8 0] by (auto simp: ioq_winv_def ioq_w_at_def ioq_fits_def ioq_at_def IOQV_def flag_def ioq_wr_def preceding_def)
  with ioq_putbytes_ok [OF this(1,2)] obtain y where
    y: "xdr_ioq_putbytes (ioq_demo 8 0) [1, 2, 3, 4, 5, 6, 7, 8, 9, 10] = Some (True, y)" "ioq_winv y"
      "ioq_wr y = [1, 2, 3, 4, 5, 6, 7, 8, 9, 10]" by auto
  have "ioq_ok (ioq_demo 8 0)" using ioq_demo_at [of 8 0] by (auto simp: ioq_ok_def flag_def)
  with ioq_keeps_putbytes [OF y(1)] have "ioq_ok y" by (simp add: ioq_keeps_def)
  moreover obtain pre cur where a: "ioq_w_at y pre cur" using y(2) by (auto simp: ioq_winv_def)
  ultimately show ?thesis
    using y ioq_w_at_bytes(1) [OF a] ioq_at_tail_update(2) [of y pre cur "[]"] by (auto simp: ioq_w_at_def)
qed

theorem ioq_setpos_getpos_witness:
  "\<exists>x y. xdr_ioq_putbytes (ioq_demo 8 0) [1, 2, 3, 4, 5, 6, 7, 8, 9, 10] = Some (True, x) \<and>
     xdr_ioq_setpos x 7 = (True, y) \<and> fst (xdr_ioq_getpos y) = 7 \<and> ioq_rd y = [8, 9, 10]"
proof -
  obtain x where x: "xdr_ioq_putbytes (ioq_demo 8 0) [1, 2, 3, 4, 5, 6, 7, 8, 9, 10] = Some (True, x)" "ioq_ok x"
      "bufs_bytes (heap x) (vios (xdr_tail_update x)) (uvqh x) = [1, 2, 3, 4, 5, 6, 7, 8, 9, 10]"
    using ioq_demo_put by blast
  have "length (bufs_bytes (heap x) (vios (xdr_tail_update x)) (uvqh x)) = 10" unfolding x(3) by simp
  then have "bufs_length (vios (xdr_tail_update x)) (uvqh x) = 10" by simp
  with ioq_setpos_getpos [OF x(2), of 7] x show ?thesis by simp
qed

text \<open>
  C24: A position past the end is refused, but the refusal leaves the counters behind the last buffer,
  and from then on \<^verbatim>\<open>xdr_ioq_getbytes\<close> reports success for any length without reading a byte.
\<close>

theorem ioq_failed_setpos_blinds_getbytes:
  assumes "ioq_ok x" "xdr_ioq_setpos x pos = (False, y)"
  shows "xdr_ioq_getbytes y len = (True, [], y)"
proof -
  have fail: "pcount y = pcount z + length q \<and> qcount y = qcount z" if "xdr_ioq_setpos_loop q z p = (False, y)" for q z p
    using that by (induction q arbitrary: z p) (auto split: if_splits)
  obtain pre cur post where a: "ioq_at x pre cur post" using assms(1) by (auto simp: ioq_ok_def)
  note u = ioq_at_tail_update [OF a]
  have "pcount y = length (uvqh x)" "qcount y = length (uvqh x)"
    using assms(2) fail [of "uvqh x"] u a by (auto simp: xdr_ioq_setpos_def ioq_at_def)
  then show ?thesis
    unfolding xdr_ioq_getbytes_def by (subst xdr_ioq_getbytes_loop.simps) simp
qed

theorem ioq_failed_setpos_blinds_getbytes_witness:
  "\<exists>x y. xdr_ioq_putbytes (ioq_demo 8 0) [1, 2, 3, 4, 5, 6, 7, 8, 9, 10] = Some (True, x) \<and>
     xdr_ioq_setpos x 100 = (False, y) \<and> xdr_ioq_getbytes y 4 = (True, [], y)"
proof -
  obtain x where x: "xdr_ioq_putbytes (ioq_demo 8 0) [1, 2, 3, 4, 5, 6, 7, 8, 9, 10] = Some (True, x)" "ioq_ok x"
    using ioq_demo_put by blast
  have "fst (xdr_ioq_setpos (snd (the (xdr_ioq_putbytes (ioq_demo 8 0) [1, 2, 3, 4, 5, 6, 7, 8, 9, 10]))) 100) = False"
    by code_simp
  then obtain y where "xdr_ioq_setpos x 100 = (False, y)" using x(1) by (cases "xdr_ioq_setpos x 100") simp
  with ioq_failed_setpos_blinds_getbytes [OF x(2)] x(1) show ?thesis by blast
qed

text \<open>
  C25: On a queue that is being written at a unit boundary, \<^verbatim>\<open>xdr_ioq_putunit\<close> returns exactly when there is
  room: always when new buffers can be appended, and never, looping for ever, when the last buffer is
  one that is reallocated (\<^verbatim>\<open>UIO_FLAG_REALLOC\<close>) and \<^verbatim>\<open>max_bsize\<close> bytes do not suffice.
\<close>

theorem ioq_putunit_returns_iff:
  assumes "ioq_w.writable x"
  shows "((\<exists>y. xdr_ioq_putunit x v = Some (True, y) \<and> ioq_wr y = ioq_wr x @ be32 v) \<longleftrightarrow> ioq_fits x 4) \<and>
    (xdr_ioq_putunit x v = None \<longleftrightarrow> \<not> ioq_fits x 4)"
proof -
  obtain pre cur where x: "ioq_w_at x pre cur" "ioq_phase x = 0"
    using assms by (auto simp: ioq_w.writable_def ioq_winv_def)
  from ioq_putunit_ok [OF x, of 0 v] ioq_putunit_full [OF x(1), of v] show ?thesis
    by (cases "ioq_fits x 4") auto
qed

theorem ioq_putunit_returns_iff_witness:
  "xdr_ioq_putunit (ioq_demo 8 0) 7 \<noteq> None \<and>
   (\<exists>x. xdr_ioq_putbytes (ioq_demo 64 UIO_FLAG_REALLOC) (replicate 64 9) = Some (True, x) \<and> xdr_ioq_putunit x 7 = None)"
proof -
  have w: "ioq_w.writable (ioq_demo n f)" "ioq_fits (ioq_demo n f) n" if "0 < n" "n mod 4 = 0" "f \<in> {0, UIO_FLAG_REALLOC}" for n f
    using ioq_demo_at [OF that(1,3)] that xdr_ioq_create_writable(1) [OF that(1,2), of 64 ioq_blank "f OR UIO_FLAG_FREE"]
    by (auto simp: ioq_demo_def ioq_fits_def ioq_blank_def flag_def)
  obtain x where x: "xdr_ioq_putbytes (ioq_demo 64 UIO_FLAG_REALLOC) (replicate 64 9) = Some (True, x)" "ioq_w.writable x"
    using ioq_putbytes_ok [of "ioq_demo 64 UIO_FLAG_REALLOC" "replicate 64 9" 0] w [of 64 UIO_FLAG_REALLOC]
    by (auto simp: ioq_w.writable_def)
  have "\<not> ioq_fits (snd (the (xdr_ioq_putbytes (ioq_demo 64 UIO_FLAG_REALLOC) (replicate 64 9)))) 4"
    by code_simp
  with x have "\<not> ioq_fits x 4" by simp
  moreover have "ioq_fits (ioq_demo 8 0) 4" using ioq_demo_at [of 8 0] by (simp add: ioq_fits_def)
  ultimately show ?thesis
    using ioq_putunit_returns_iff [OF x(2), of 7] ioq_putunit_returns_iff [of "ioq_demo 8 0" 7] x(1) w(1) [of 8 0] by auto
qed

lemma xdr_ioq_release_loop_ok:
  assumes "ioq_acct l x" "uvqh x = q" "distinct q" "qcount x = length q"
  shows "\<exists>y. xdr_ioq_release_loop q x = Some y \<and> uvqh y = [] \<and> qcount y = 0 \<and> mem_live (mlog y) = l"
  using assms
proof (induction q arbitrary: x)
  case Nil
  then show ?case by (simp add: ioq_acct_def)
next
  case (Cons i q)
  let ?x = "x\<lparr>uvqh := q, qcount := qcount x - 1\<rparr>"
  let ?y = "?x\<lparr>uvs := (uvs x)(i := (uvs x i)\<lparr>u_references := 0\<rparr>), mlog := Mem_free (ioquv_size (vios x i)) # mlog x,
    ulog := Uv_free i # ulog x\<rparr>"
  have i: "u_references (uvs x i) = 1" "\<not> u_release (uvs x i)" "flag (u_flags (uvs x i)) UIO_FLAG_FREE"
      "\<not> flag (u_flags (uvs x i)) UIO_FLAG_REFER"
    using Cons.prems(1,2) by (auto simp: ioq_acct_def)
  then have "xdr_ioq_uv_release i ?x = Some ?y" by (simp add: xdr_ioq_uv_release_def)
  moreover have "ioq_acct l ?y" using Cons.prems by (auto simp: ioq_acct_def)
  ultimately show ?case using Cons.IH [of ?y] Cons.prems by simp
qed

text \<open>
  C26: Whatever calls of the kinds \<open>ioq_step\<close> names (reads and positions that succeed, writes, the inline
  fast path, new buffers; not \<^verbatim>\<open>putbufs\<close> and \<^verbatim>\<open>allochdrs\<close>) have been made on a queue that was created with
  \<^verbatim>\<open>UIO_FLAG_FREE\<close> and a buffer size above 0, releasing it gives back every buffer: the number of bytes
  allocated is what it was before the queue was created, and no buffer remains.
\<close>

theorem ioq_release_balanced:
  assumes "ioq_step\<^sup>*\<^sup>* (xdr_ioq_create minb maxb UIO_FLAG_FREE x0) x" "0 < minb" "0 < brk x0"
  shows "\<exists>y. xdr_ioq_release x = Some y \<and> uvqh y = [] \<and> qcount y = 0 \<and> mem_live (mlog y) = mem_live (mlog x0)"
proof -
  let ?c = "xdr_ioq_create minb maxb UIO_FLAG_FREE x0"
  have f: "\<not> flag UIO_FLAG_FREE UIO_FLAG_BUFQ" by (simp add: flag_def)
  note c = xdr_ioq_create_at [OF assms(2,3) f, of maxb]
  have "mlog ?c = Mem_alloc minb # mlog x0"
    using f assms(2) by (simp add: xdr_ioq_create_def xdr_ioq_setup_def xdr_ioq_uv_create_def xdr_ioq_reset_def xdr_ioq_uv_reset_def)
  then have acct: "ioq_acct (mem_live (mlog x0)) ?c"
    by (simp add: ioq_acct_def c(8-10) ioquv_size_def flag_def)
  have ok: "ioq_ok ?c" using c(1) assms(2) by (auto simp: ioq_ok_def c(6,8,10) flag_def)
  from assms(1) have "ioq_keeps ?c x"
    by (induction rule: rtranclp_induct) (auto intro: ioq_keeps_refl ioq_keeps_trans ioq_step_keeps)
  with ok acct have x: "ioq_ok x" "ioq_acct (mem_live (mlog x0)) x" by (auto simp: ioq_keeps_def ioq_frame_def)
  then obtain pre cur post where "ioq_at x pre cur post" by (auto simp: ioq_ok_def)
  then have "distinct (uvqh x)" "qcount x = length (uvqh x)" by (auto simp: ioq_at_def)
  from xdr_ioq_release_loop_ok [OF x(2) refl this] show ?thesis by (simp add: xdr_ioq_release_def)
qed

theorem ioq_release_balanced_witness:
  "\<exists>x y. xdr_ioq_putbytes (xdr_ioq_create 8 64 UIO_FLAG_FREE ioq_blank) (replicate 20 9) = Some (True, x) \<and>
     length (uvqh x) = 3 \<and> xdr_ioq_release x = Some y \<and> uvqh y = [] \<and> mem_live (mlog y) = 0"
proof -
  let ?c = "xdr_ioq_create 8 64 UIO_FLAG_FREE ioq_blank"
  have d: "?c = ioq_demo 8 0" by (simp add: ioq_demo_def)
  have "length (uvqh (snd (the (xdr_ioq_putbytes ?c (replicate 20 9))))) = 3" by code_simp
  moreover have "ioq_winv ?c" "ioq_fits ?c (length (replicate 20 (9 :: u8)) + 0)"
    unfolding d using ioq_demo_at [of 8 0]
    by (auto simp: ioq_winv_def ioq_w_at_def ioq_fits_def ioq_at_def IOQV_def flag_def)
  from ioq_putbytes_ok [OF this] obtain x where x: "xdr_ioq_putbytes ?c (replicate 20 9) = Some (True, x)" by blast
  moreover from x have "ioq_step\<^sup>*\<^sup>* ?c x" by (blast intro: ioq_step.putbytes)
  from ioq_release_balanced [OF this] have "\<exists>y. xdr_ioq_release x = Some y \<and> uvqh y = [] \<and> mem_live (mlog y) = 0"
    by (auto simp: ioq_blank_def)
  ultimately show ?thesis by auto
qed

end
