(* ===== verification/Ioq_Vec.thy ===== *)
theory Ioq_Vec
  imports Ioq_Props
begin

text \<open>
  The vector interface of the buffer queue (\<^verbatim>\<open>src/src/xdr_ioq.c\<close>): \<^verbatim>\<open>xdr_ioq_iovcount\<close> counts the buffers that
  hold a range of the data and \<^verbatim>\<open>xdr_ioq_fillbufs\<close> describes them in an array of vectors.  The two walk the
  queue separately; here they are shown to agree with each other and with the range of the byte stream.
  \<^verbatim>\<open>xdr_ioq_allochdrs\<close> reserves room for headers and trailers around the data; where it misplaces the trailer is
  shown for queues in general.
\<close>

section \<open>Vectors over the data\<close>

text \<open>
  The buffers of the queue as a list of vectors: their bytes, their length, and how many of them it takes
  to cover \<open>d\<close> bytes.
\<close>

definition vl_bytes :: "mem \<Rightarrow> xdr_vio list \<Rightarrow> bytes" where
  "vl_bytes m vl = concat (map (vio_bytes m) vl)"

definition vl_length :: "xdr_vio list \<Rightarrow> nat" where
  "vl_length vl = sum_list (map ioquv_length vl)"

fun vl_need :: "xdr_vio list \<Rightarrow> nat \<Rightarrow> nat" where
  "vl_need [] d = 0"
| "vl_need (v # vl) d = (if d \<le> ioquv_length v then 1 else 1 + vl_need vl (d - ioquv_length v))"

lemma vl_simps [simp]:
  "vl_bytes m [] = []" "vl_bytes m (v # vl) = vio_bytes m v @ vl_bytes m vl"
  "vl_length [] = 0" "vl_length (v # vl) = ioquv_length v + vl_length vl" "length (vl_bytes m vl) = vl_length vl"
  by (simp_all add: vl_bytes_def vl_length_def) (induction vl, simp_all)

lemma vl_of_queue:
  "vl_bytes m (map vs q) = bufs_bytes m vs q" "vl_length (map vs q) = bufs_length vs q"
  by (simp_all add: vl_bytes_def vl_length_def bufs_bytes_def bufs_length_def comp_def)

lemma unat_len_less: "ioquv_length v < 2 ^ 32 \<Longrightarrow> unat (of_nat (ioquv_length v) :: u32) = ioquv_length v"
  by (simp add: unat_of_nat_small)

lemma iovcount_found:
  assumes "0 < n" "0 < d" "vl_length vl < 2 ^ 32"
  shows "(unat d \<le> vl_length vl \<longrightarrow> xdr_ioq_iovcount_loop vl n 0 d = (n + int (vl_need vl (unat d)), 0)) \<and>
    (vl_length vl < unat d \<longrightarrow> snd (xdr_ioq_iovcount_loop vl n 0 d) \<noteq> 0)"
  using assms
proof (induction vl arbitrary: n d)
  case (Cons v vl)
  let ?l = "of_nat (ioquv_length v) :: u32"
  have l: "unat ?l = ioquv_length v" using Cons.prems(3) by (intro unat_len_less) simp
  show ?case
  proof (cases "d \<le> ?l")
    case True
    then show ?thesis using l Cons.prems by (simp add: word_le_nat_alt)
  next
    case False
    then have s: "unat (d - ?l) = unat d - ioquv_length v" "0 < d - ?l" "\<not> unat d \<le> ioquv_length v"
      using l by (simp_all add: unat_sub word_le_nat_alt word_less_nat_alt)
    have "xdr_ioq_iovcount_loop (v # vl) n 0 d = xdr_ioq_iovcount_loop vl (n + 1) 0 (d - ?l)"
      using False Cons.prems(1) by simp
    with Cons.IH [of "n + 1" "d - ?l"] Cons.prems s show ?thesis by auto
  qed
qed (auto simp: word_less_nat_alt)

lemma fillbufs_found:
  assumes "0 < d \<or> vl \<noteq> []" "vl_length vl < 2 ^ 32" "unat d \<le> vl_length vl" "idx + vl_need vl (unat d) \<le> length vec"
    and "\<forall>v \<in> set vl. vio_head v \<le> vio_tail v"
  shows "\<exists>vec'. xdr_ioq_fillbufs_loop vl True idx 0 vec d = (True, vec', 0) \<and> length vec' = length vec \<and>
    take idx vec' = take idx vec \<and> vl_bytes m (take (vl_need vl (unat d)) (drop idx vec')) = take (unat d) (vl_bytes m vl) \<and>
    (\<forall>v \<in> set (take (vl_need vl (unat d)) (drop idx vec')). unat (vio_length v) = ioquv_length v) \<and>
    (vl \<noteq> [] \<longrightarrow> 0 < d \<longrightarrow> 0 < ioquv_length (hd vl) \<longrightarrow> 0 < ioquv_length (vec' ! idx))"
  using assms
proof (induction vl arbitrary: d idx vec)
  case (Cons v vl)
  let ?l = "of_nat (ioquv_length v) :: u32"
  have l: "unat ?l = ioquv_length v" using Cons.prems(2) by (intro unat_len_less) simp
  have i: "idx < length vec" using Cons.prems(4) by (auto split: if_splits)
  have b: "vio_bytes m (v\<lparr>vio_type := VIO_DATA, vio_length := n\<rparr>) = vio_bytes m v" for n
    by (simp add: vio_bytes_def ioquv_length_def)
  have u: "drop idx (vec[idx := w]) = w # drop (idx + 1) vec" "vec[idx := w] ! idx = w" for w
    using i by (simp_all add: drop_update_swap flip: Cons_nth_drop_Suc)
  consider "d < ?l" | "d = ?l" | "?l < d" by (metis linorder_less_linear)
  then show ?case
  proof cases
    case 1
    let ?v = "v\<lparr>vio_type := VIO_DATA, vio_length := d, vio_tail := vio_head v + unat d\<rparr>"
    have "vio_bytes m ?v = take (unat d) (vio_bytes m v)" "ioquv_length ?v = unat d"
      using 1 l by (simp_all add: vio_bytes_def ioquv_length_def take_read_bytes word_less_nat_alt)
    with 1 l i show ?thesis
      by (intro exI [of _ "vec[idx := ?v]"]) (simp add: word_less_nat_alt u)
  next
    case 2
    moreover have "ioquv_length (v\<lparr>vio_type := VIO_DATA, vio_length := ?l\<rparr>) = ioquv_length v" by (simp add: ioquv_length_def)
    ultimately show ?thesis using l i b
      by (intro exI [of _ "vec[idx := v\<lparr>vio_type := VIO_DATA, vio_length := ?l\<rparr>]"]) (simp add: u word_less_nat_alt)
  next
    case 3
    let ?v = "v\<lparr>vio_type := VIO_DATA, vio_length := ?l\<rparr>"
    have s: "unat (d - ?l) = unat d - ioquv_length v" "0 < d - ?l"
      using 3 l by (simp_all add: unat_sub word_le_nat_alt word_less_nat_alt)
    have n: "\<not> unat d \<le> ioquv_length v" "unat d - ioquv_length v \<le> vl_length vl"
      using 3 l Cons.prems(3) by (simp_all add: word_less_nat_alt)
    obtain vec' where v: "xdr_ioq_fillbufs_loop vl True (idx + 1) 0 (vec[idx := ?v]) (d - ?l) = (True, vec', 0)"
        "length vec' = length vec" "take (idx + 1) vec' = take (idx + 1) (vec[idx := ?v])"
        "vl_bytes m (take (vl_need vl (unat d - ioquv_length v)) (drop (idx + 1) vec')) = take (unat d - ioquv_length v) (vl_bytes m vl)"
        "\<forall>v \<in> set (take (vl_need vl (unat d - ioquv_length v)) (drop (idx + 1) vec')). unat (vio_length v) = ioquv_length v"
      using Cons.IH [of "d - ?l" "idx + 1" "vec[idx := ?v]"] Cons.prems s n by auto
    have vi: "vec' ! idx = ?v" using v(3) i by (metis length_list_update nth_list_update_eq nth_take lessI Suc_eq_plus1)
    then have dr: "drop idx vec' = ?v # drop (idx + 1) vec'" using i v(2) by (metis Cons_nth_drop_Suc Suc_eq_plus1)
    have t: "take idx vec' = take idx vec" using v(3) i by (metis Suc_eq_plus1 le_add1 min.absorb1 take_take take_update_cancel order_refl)
    have "xdr_ioq_fillbufs_loop (v # vl) True idx 0 vec d = (True, vec', 0)" using v(1) 3 by auto
    moreover have "unat (vio_length ?v) = ioquv_length ?v" "ioquv_length ?v = ioquv_length v" using l by (simp_all add: ioquv_length_def)
    ultimately show ?thesis using v(2,4,5) vi dr t n b by (simp add: take_append del: xdr_ioq_fillbufs_loop.simps)
  qed
qed (simp add: word_less_nat_alt)

text \<open>The buffers from position \<open>s\<close> on.\<close>

fun vl_from :: "xdr_vio list \<Rightarrow> nat \<Rightarrow> xdr_vio list" where
  "vl_from [] s = []"
| "vl_from (v # vl) s = (if s < ioquv_length v then v\<lparr>vio_head := vio_head v + s\<rparr> # vl else vl_from vl (s - ioquv_length v))"

lemma vl_from_bytes: "vl_bytes m (vl_from vl s) = drop s (vl_bytes m vl)"
  by (induction vl s rule: vl_from.induct) (auto simp: vio_bytes_def ioquv_length_def drop_read_bytes)

lemma vl_from_length: "vl_length (vl_from vl s) = vl_length vl - s"
  using arg_cong [OF vl_from_bytes [of undefined vl s], of length] by simp

lemma vl_from_Nil: "vl_from vl s = [] \<longleftrightarrow> vl_length vl \<le> s"
  by (induction vl s rule: vl_from.induct) auto

lemma vl_from_hd: "vl_from vl s = v # vl' \<Longrightarrow> 0 < ioquv_length v"
  by (induction vl s rule: vl_from.induct) (auto simp: ioquv_length_def split: if_splits)

text \<open>To the end of the data, a later start needs no more buffers.\<close>

lemma vl_need_from: "t < vl_length vl \<Longrightarrow> vl_need (vl_from vl t) (vl_length vl - t) \<le> vl_need vl (vl_length vl)"
proof (induction vl arbitrary: t)
  case (Cons v vl)
  show ?case
  proof (cases "t < ioquv_length v")
    case True
    then show ?thesis using Cons.prems by (auto simp: ioquv_length_def)
  next
    case False
    then obtain t' where "t = ioquv_length v + t'" by (auto simp: not_less le_iff_add)
    with Cons.IH [of t'] Cons.prems show ?thesis by auto
  qed
qed simp

lemma vl_need_later:
  assumes "s \<le> t" "t < vl_length vl"
  shows "vl_need (vl_from vl t) (vl_length vl - t) \<le> vl_need (vl_from vl s) (vl_length vl - s)"
  using assms
proof (induction vl arbitrary: s t)
  case (Cons v vl)
  consider "t < ioquv_length v" | "s < ioquv_length v" "ioquv_length v \<le> t" | "ioquv_length v \<le> s" by linarith
  then show ?case
  proof cases
    case 1
    then show ?thesis using Cons.prems by (auto simp: ioquv_length_def)
  next
    case 2
    then obtain t' where t: "t = ioquv_length v + t'" by (auto simp: le_iff_add)
    have "ioquv_length (v\<lparr>vio_head := vio_head v + s\<rparr>) = ioquv_length v - s" by (simp add: ioquv_length_def)
    then show ?thesis using 2 t Cons.prems vl_need_from [of t' vl] by auto
  next
    case 3
    then obtain s' t' where "s = ioquv_length v + s'" "t = ioquv_length v + t'" using Cons.prems(1) by (metis le_trans le_iff_add)
    then show ?thesis using Cons.prems Cons.IH [of s' t'] by auto
  qed
qed simp

text \<open>Until the start is found the two loops only skip buffers.\<close>

lemma vio_update_swap: "v\<lparr>vio_type := t, vio_head := h\<rparr> = v\<lparr>vio_head := h, vio_type := t\<rparr>"
  by (cases v) simp

lemma loops_skip:
  assumes "vl_length vl < 2 ^ 32"
  shows "case vl_from vl (unat s) of
      [] \<Rightarrow> xdr_ioq_iovcount_loop vl (-1) s d = (-1, d) \<and> xdr_ioq_fillbufs_loop vl False idx s vec d = (False, vec, d)
    | v # vl' \<Rightarrow>
      xdr_ioq_iovcount_loop vl (-1) s d =
        (if d \<le> of_nat (ioquv_length v) then (1, 0) else xdr_ioq_iovcount_loop vl' 1 0 (d - of_nat (ioquv_length v))) \<and>
      xdr_ioq_fillbufs_loop vl False idx s vec d = xdr_ioq_fillbufs_loop (v # vl') True idx 0 vec d"
  using assms
proof (induction vl arbitrary: s)
  case (Cons w vl)
  let ?l = "of_nat (ioquv_length w) :: u32"
  have l: "unat ?l = ioquv_length w" using Cons.prems by (intro unat_len_less) simp
  show ?case
  proof (cases "s < ?l")
    case True
    then have s: "unat s < ioquv_length w" "of_nat (ioquv_length (w\<lparr>vio_head := vio_head w + unat s\<rparr>)) = ?l - s"
      using l by (simp_all add: word_less_nat_alt ioquv_length_def of_nat_diff)
    then show ?thesis using True by (simp add: Let_def word_gt_0 vio_update_swap)
  next
    case False
    then have "unat (s - ?l) = unat s - ioquv_length w" "\<not> unat s < ioquv_length w"
      using l by (simp_all add: unat_sub word_less_nat_alt word_le_nat_alt)
    then have "vl_from (w # vl) (unat s) = vl_from vl (unat (s - ?l))"
        "xdr_ioq_iovcount_loop (w # vl) (-1) s d = xdr_ioq_iovcount_loop vl (-1) (s - ?l) d"
        "xdr_ioq_fillbufs_loop (w # vl) False idx s vec d = xdr_ioq_fillbufs_loop vl False idx (s - ?l) vec d"
      using False by simp_all
    then show ?thesis using Cons.IH [of "s - ?l"] Cons.prems by (simp only:) simp
  qed
qed simp


lemma fillbufs_short:
  assumes "vl_length vl < unat d" "vl_length vl < 2 ^ 32"
  shows "snd (snd (xdr_ioq_fillbufs_loop vl True idx 0 vec d)) \<noteq> 0"
  using assms
proof (induction vl arbitrary: d idx vec)
  case (Cons v vl)
  let ?l = "of_nat (ioquv_length v) :: u32"
  have l: "unat ?l = ioquv_length v" using Cons.prems by (intro unat_len_less) simp
  then have d: "\<not> d < ?l" "d \<noteq> ?l" "vl_length vl < unat (d - ?l)"
    using Cons.prems(1) by (auto simp: word_less_nat_alt word_le_nat_alt unat_sub)
  then show ?case using Cons.IH Cons.prems(2) by (simp add: Let_def)
qed auto

lemma vl_from_props:
  "v \<in> set (vl_from vl s) \<Longrightarrow> \<forall>v \<in> set vl. vio_head v \<le> vio_tail v \<Longrightarrow> vio_head v \<le> vio_tail v"
  by (induction vl s rule: vl_from.induct) (auto simp: ioquv_length_def split: if_splits)

lemma vectors_of_range:
  assumes "vl_length vl < 2 ^ 32" "unat s < vl_length vl" "unat s + unat d \<le> vl_length vl"
  defines "k \<equiv> vl_need (vl_from vl (unat s)) (unat d)"
  shows "xdr_ioq_iovcount_loop vl (-1) s d = (int k, 0)" "0 < k"
    and "k \<le> length vec \<Longrightarrow> \<forall>v \<in> set vl. vio_head v \<le> vio_tail v \<Longrightarrow>
      \<exists>vec'. xdr_ioq_fillbufs_loop vl False 0 s vec d = (True, vec', 0) \<and> length vec' = length vec \<and>
        vl_bytes m (take k vec') = take (unat d) (drop (unat s) (vl_bytes m vl)) \<and>
        (\<forall>v \<in> set (take k vec'). unat (vio_length v) = ioquv_length v) \<and> (0 < d \<longrightarrow> 0 < ioquv_length (vec' ! 0))"
proof -
  obtain v vl' where f: "vl_from vl (unat s) = v # vl'" using vl_from_Nil [of vl "unat s"] assms(2) by (cases "vl_from vl (unat s)") auto
  let ?l = "of_nat (ioquv_length v) :: u32"
  have n: "vl_length (v # vl') = vl_length vl - unat s" using vl_from_length [of vl "unat s"] f by simp
  have l: "unat ?l = ioquv_length v" using n assms(1) by (intro unat_len_less) simp
  note loops = loops_skip [OF assms(1), of s d, unfolded f list.case]
  show "0 < k" by (simp add: k_def f)
  show "xdr_ioq_iovcount_loop vl (-1) s d = (int k, 0)"
  proof (cases "d \<le> ?l")
    case True
    then show ?thesis using loops l f by (simp add: k_def word_le_nat_alt)
  next
    case False
    then have "unat (d - ?l) = unat d - ioquv_length v" "0 < d - ?l" "\<not> unat d \<le> ioquv_length v"
      using l by (simp_all add: unat_sub word_le_nat_alt word_less_nat_alt)
    with False loops iovcount_found [of 1 "d - ?l" vl'] n assms(1,3) show ?thesis by (simp add: k_def f)
  qed
  show "\<exists>vec'. xdr_ioq_fillbufs_loop vl False 0 s vec d = (True, vec', 0) \<and> length vec' = length vec \<and>
        vl_bytes m (take k vec') = take (unat d) (drop (unat s) (vl_bytes m vl)) \<and>
        (\<forall>v \<in> set (take k vec'). unat (vio_length v) = ioquv_length v) \<and> (0 < d \<longrightarrow> 0 < ioquv_length (vec' ! 0))"
    if "k \<le> length vec" "\<forall>v \<in> set vl. vio_head v \<le> vio_tail v"
  proof -
    have "\<forall>w \<in> set (v # vl'). vio_head w \<le> vio_tail w" using vl_from_props [of _ vl "unat s"] that(2) f by metis
    moreover have "unat d \<le> vl_length (v # vl')" "vl_length (v # vl') < 2 ^ 32" using n assms(1,3) by linarith+
    moreover have "0 + vl_need (v # vl') (unat d) \<le> length vec" using that(1) by (simp only: k_def f)
    ultimately have "\<exists>vec'. xdr_ioq_fillbufs_loop (v # vl') True 0 0 vec d = (True, vec', 0) \<and> length vec' = length vec \<and>
        take 0 vec' = take 0 vec \<and> vl_bytes m (take (vl_need (v # vl') (unat d)) (drop 0 vec')) = take (unat d) (vl_bytes m (v # vl')) \<and>
        (\<forall>v \<in> set (take (vl_need (v # vl') (unat d)) (drop 0 vec')). unat (vio_length v) = ioquv_length v) \<and>
        (v # vl' \<noteq> [] \<longrightarrow> 0 < d \<longrightarrow> 0 < ioquv_length (hd (v # vl')) \<longrightarrow> 0 < ioquv_length (vec' ! 0))"
      by (intro fillbufs_found) blast+
    moreover have "0 < ioquv_length (hd (v # vl'))" using vl_from_hd [OF f] by simp
    ultimately show ?thesis
      using loops [of 0 vec] vl_from_bytes [of m vl "unat s"] by (simp only: k_def f drop_0) blast
  qed
qed

lemma vectors_outside:
  assumes "vl_length vl < 2 ^ 32" "\<not> (unat s < vl_length vl \<and> unat s + unat d \<le> vl_length vl)"
  shows "(case xdr_ioq_iovcount_loop vl (-1) s d of (b, r) \<Rightarrow> r \<noteq> 0 \<or> b = -1) \<and>
    (case xdr_ioq_fillbufs_loop vl False 0 s vec d of (found, vec', r) \<Rightarrow> r \<noteq> 0 \<or> \<not> found)"
proof -
  consider "vl_from vl (unat s) = []" | v vl' where "vl_from vl (unat s) = v # vl'" "vl_length vl < unat s + unat d" "unat s < vl_length vl"
    using assms(2) vl_from_Nil [of vl "unat s"] by (cases "vl_from vl (unat s)") auto
  then show ?thesis
  proof cases
    case 1
    then show ?thesis using loops_skip [OF assms(1), of s d 0 vec] by simp
  next
    case (2 v vl')
    let ?l = "of_nat (ioquv_length v) :: u32"
    have n: "vl_length (v # vl') = vl_length vl - unat s" using vl_from_length [of vl "unat s"] 2 by simp
    have l: "unat ?l = ioquv_length v" using n assms(1) by (intro unat_len_less) simp
    have d: "vl_length (v # vl') < unat d" using n 2 by simp
    then have "\<not> d \<le> ?l" "unat (d - ?l) = unat d - ioquv_length v" "0 < d - ?l"
      using l by (simp_all add: word_le_nat_alt word_less_nat_alt unat_sub)
    then show ?thesis
      using loops_skip [OF assms(1), of s d 0 vec] 2(1) iovcount_found [of 1 "d - ?l" vl'] fillbufs_short [of "v # vl'" d 0 vec] d n assms(1)
      by (simp add: split_beta del: xdr_ioq_fillbufs_loop.simps)
  qed
qed


text \<open>The two calls on a well-formed queue, inside and outside of its data.\<close>

lemma ioq_vector_calls:
  assumes "ioq_at x pre cur post"
  defines "vl \<equiv> map (vios (xdr_tail_update x)) (uvqh x)"
  shows "xdr_ioq_iovcount x start datalen =
      (case xdr_ioq_iovcount_loop vl (-1) start datalen of (b, r) \<Rightarrow> if r \<noteq> 0 then -1 else b, xdr_tail_update x)"
    "xdr_ioq_fillbufs x start vector datalen =
      (case xdr_ioq_fillbufs_loop vl False 0 start vector datalen of (f, v, r) \<Rightarrow> (if r \<noteq> 0 then False else f, v, xdr_tail_update x))"
    "vl_bytes (heap x) vl = bufs_bytes (heap x) (vios (xdr_tail_update x)) (uvqh x)"
    "\<forall>v \<in> set vl. vio_head v \<le> vio_tail v"
proof -
  note u = ioq_at_tail_update [OF assms(1)]
  show "xdr_ioq_iovcount x start datalen =
      (case xdr_ioq_iovcount_loop vl (-1) start datalen of (b, r) \<Rightarrow> if r \<noteq> 0 then -1 else b, xdr_tail_update x)"
    "xdr_ioq_fillbufs x start vector datalen =
      (case xdr_ioq_fillbufs_loop vl False 0 start vector datalen of (f, v, r) \<Rightarrow> (if r \<noteq> 0 then False else f, v, xdr_tail_update x))"
    by (simp_all add: xdr_ioq_iovcount_def xdr_ioq_fillbufs_def u(3) vl_def Let_def split_beta)
  show "\<forall>v \<in> set vl. vio_head v \<le> vio_tail v" using u(1) u(3) by (auto simp: vl_def ioq_at_def bufs_ok_def vio_ok_def)
qed (simp add: vl_def vl_of_queue)

lemma ioq_range_vectors:
  assumes "ioq_at x pre cur post"
  defines "stream \<equiv> bufs_bytes (heap x) (vios (xdr_tail_update x)) (uvqh x)"
  assumes "length stream < 2 ^ 32" "unat start < length stream" "unat start + unat datalen \<le> length stream"
  defines "n \<equiv> vl_need (vl_from (map (vios (xdr_tail_update x)) (uvqh x)) (unat start)) (unat datalen)"
  shows "0 < n" "xdr_ioq_iovcount x start datalen = (int n, xdr_tail_update x)"
    "n \<le> length vector \<Longrightarrow>
      \<exists>vector'. xdr_ioq_fillbufs x start vector datalen = (True, vector', xdr_tail_update x) \<and>
        length vector' = length vector \<and>
        concat (map (vio_bytes (heap x)) (take n vector')) = take (unat datalen) (drop (unat start) stream) \<and>
        (\<forall>v \<in> set (take n vector'). unat (vio_length v) = ioquv_length v) \<and> (0 < datalen \<longrightarrow> 0 < ioquv_length (vector' ! 0))"
proof -
  note calls = ioq_vector_calls [OF assms(1)]
  define vl where "vl = map (vios (xdr_tail_update x)) (uvqh x)"
  have "vl_length vl = length stream" using calls(3) by (metis stream_def vl_def vl_simps(5))
  with assms(3-5) have b: "vl_length vl < 2 ^ 32" "unat start < vl_length vl" "unat start + unat datalen \<le> vl_length vl" by simp_all
  show "0 < n" "xdr_ioq_iovcount x start datalen = (int n, xdr_tail_update x)"
    using vectors_of_range(1,2) [OF b] by (simp_all add: calls(1) vl_def n_def)
  assume "n \<le> length vector"
  with vectors_of_range(3) [OF b, of vector "heap x"] calls(4) obtain vec' where
    "xdr_ioq_fillbufs_loop vl False 0 start vector datalen = (True, vec', 0)" "length vec' = length vector"
    "vl_bytes (heap x) (take n vec') = take (unat datalen) (drop (unat start) (vl_bytes (heap x) vl))"
    "\<forall>v \<in> set (take n vec'). unat (vio_length v) = ioquv_length v" "0 < datalen \<longrightarrow> 0 < ioquv_length (vec' ! 0)"
    unfolding vl_def n_def by blast
  then show "\<exists>vector'. xdr_ioq_fillbufs x start vector datalen = (True, vector', xdr_tail_update x) \<and> length vector' = length vector \<and>
      concat (map (vio_bytes (heap x)) (take n vector')) = take (unat datalen) (drop (unat start) stream) \<and>
      (\<forall>v \<in> set (take n vector'). unat (vio_length v) = ioquv_length v) \<and> (0 < datalen \<longrightarrow> 0 < ioquv_length (vector' ! 0))"
    using calls(3) by (simp add: calls(2) vl_def [symmetric] vl_bytes_def stream_def)
qed

section \<open>Properties\<close>

text \<open>
  C27: \<^verbatim>\<open>xdr_ioq_iovcount\<close> and \<^verbatim>\<open>xdr_ioq_fillbufs\<close>, two separate walks over the queue, agree.  A range of the
  data (its start before the end, its end not behind it) gives a positive count, any other range gives -1 and
  is not described.  A vector with as many entries as were counted is filled with exactly the bytes of the range.
\<close>

theorem ioq_vectors_cover_range:
  assumes "ioq_ok x"
  defines "stream \<equiv> bufs_bytes (heap x) (vios (xdr_tail_update x)) (uvqh x)"
  assumes "length stream < 2 ^ 32"
  shows "if unat start < length stream \<and> unat start + unat datalen \<le> length stream
    then 0 < fst (xdr_ioq_iovcount x start datalen) \<and>
      (fst (xdr_ioq_iovcount x start datalen) \<le> int (length vector) \<longrightarrow>
        (\<exists>vector' y. xdr_ioq_fillbufs x start vector datalen = (True, vector', y) \<and>
          concat (map (vio_bytes (heap x)) (take (nat (fst (xdr_ioq_iovcount x start datalen))) vector')) =
            take (unat datalen) (drop (unat start) stream)))
    else fst (xdr_ioq_iovcount x start datalen) = -1 \<and> \<not> fst (xdr_ioq_fillbufs x start vector datalen)"
proof -
  obtain pre cur post where a: "ioq_at x pre cur post" using assms(1) by (auto simp: ioq_ok_def)
  show ?thesis
  proof (cases "unat start < length stream \<and> unat start + unat datalen \<le> length stream")
    case True
    with ioq_range_vectors(1,2) [OF a, of start datalen] ioq_range_vectors(3) [OF a, of start datalen vector] assms(3)
    show ?thesis unfolding stream_def by auto
  next
    case False
    let ?vl = "map (vios (xdr_tail_update x)) (uvqh x)"
    note calls = ioq_vector_calls [OF a]
    have "vl_length ?vl = length stream" using calls(3) by (metis stream_def vl_simps(5))
    with False vectors_outside [of ?vl start datalen vector] assms(3) show ?thesis
      unfolding calls(1,2) by (auto split: prod.splits)
  qed
qed

theorem ioq_vectors_cover_range_witness:
  "\<exists>x vector y. xdr_ioq_putbytes (ioq_demo 8 0) [1, 2, 3, 4, 5, 6, 7, 8, 9, 10] = Some (True, x) \<and>
     0 < fst (xdr_ioq_iovcount x 3 6) \<and> fst (xdr_ioq_iovcount x 3 8) = -1 \<and>
     xdr_ioq_fillbufs x 3 (replicate 2 (vios x 0)) 6 = (True, vector, y) \<and>
     concat (map (vio_bytes (heap x)) (take 2 vector)) = [4, 5, 6, 7, 8, 9]"
proof -
  obtain x where x: "xdr_ioq_putbytes (ioq_demo 8 0) [1, 2, 3, 4, 5, 6, 7, 8, 9, 10] = Some (True, x)" "ioq_ok x"
      "bufs_bytes (heap x) (vios (xdr_tail_update x)) (uvqh x) = [1, 2, 3, 4, 5, 6, 7, 8, 9, 10]"
    using ioq_demo_put by blast
  have "fst (xdr_ioq_iovcount (snd (the (xdr_ioq_putbytes (ioq_demo 8 0) [1, 2, 3, 4, 5, 6, 7, 8, 9, 10]))) 3 6) = 2"
    by code_simp
  with x(1) have n: "fst (xdr_ioq_iovcount x 3 6) = 2" by simp
  note t = ioq_vectors_cover_range [OF x(2), unfolded x(3)]
  from t [of 3 6 "replicate 2 (vios x 0)"] n obtain vector y where
    v: "xdr_ioq_fillbufs x 3 (replicate 2 (vios x 0)) 6 = (True, vector, y)" "concat (map (vio_bytes (heap x)) (take 2 vector)) = [4, 5, 6, 7, 8, 9]"
    by auto
  with t [of 3 8] n x(1) show ?thesis by auto
qed

section \<open>Headers and trailers\<close>

text \<open>A queue of two buffers, the first one full, and a second one that another owner lends to the queue.\<close>

definition ioq_two :: xdr_ioq where
  "ioq_two = (let x = snd (the (xdr_ioq_putbytes (ioq_demo 8 0) [1, 2, 3, 4, 5, 6, 7, 8])) in
     snd (the (xdr_ioq_putbytes (snd (xdr_ioq_newbuf x)) [9, 10, 11, 12])))"

definition vec_demo :: "vio_type_t \<Rightarrow> xdr_vio" where
  "vec_demo t = \<lparr>vio_base = 0, vio_head = 0, vio_tail = 0, vio_wrap = 0, vio_length = 4, vio_type = t\<rparr>"

definition ioq_lent :: xdr_ioq where
  "ioq_lent = (let x = snd (the (xdr_ioq_putbytes (ioq_demo 8 0) [1, 2, 3, 4, 5, 6, 7, 8]));
     v = \<lparr>vio_base = 1000, vio_head = 1000, vio_tail = 1002, vio_wrap = 1002, vio_length = 0, vio_type = VIO_DATA\<rparr> in
     snd (snd (the (xdr_ioq_putbufs x
       \<lparr>uio_release = True, uio_flags = 0, uio_references = 1, uio_vio = [v], uio_released = False\<rparr> 0))))"

lemma allochdrs_find_end:
  "unat start = bufs_length vs (pre @ [have]) \<Longrightarrow> 0 < ioquv_length (vs have) \<Longrightarrow>
   xdr_ioq_allochdrs_find vs (pre @ have # post) start = Some (have, 0)"
proof (induction pre arbitrary: start)
  case Nil
  then have "of_nat (ioquv_length (vs have)) = (of_nat (unat start) :: u32)" by simp
  then have "of_nat (ioquv_length (vs have)) = start" by simp
  then show ?case by simp
next
  case (Cons u us)
  let ?l = "of_nat (ioquv_length (vs u)) :: u32"
  have "ioquv_length (vs u) < unat start" using Cons.prems by simp
  moreover from this have l: "unat ?l = ioquv_length (vs u)" using unsigned_less [of start, where ?'a = nat] by (intro unat_len_less) simp
  ultimately have "\<not> start < ?l" "start - ?l \<noteq> 0" "unat (start - ?l) = unat start - ioquv_length (vs u)"
    by (auto simp: word_less_nat_alt word_le_nat_alt unat_sub)
  with Cons show ?case by simp
qed

lemma tailq_insert_after_at: "i \<notin> set pre \<Longrightarrow> tailq_insert_after (pre @ i # post) i j = pre @ i # j # post"
  by (induction pre) auto

text \<open>The buffer for a header goes behind \<open>have\<close>, and the trailer after one data entry behind the header.\<close>

lemma allochdrs_new_buffer:
  assumes a: "ioq_at x qre cur qost" and q: "uvqh x = pre @ have # post"
  defines "z \<equiv> xdr_tail_update x"
  assumes start: "unat start = bufs_length (vios z) (pre @ [have])" "0 < ioquv_length (vios z have)"
    and type: "vio_type h = VIO_HEADER" "vio_type d = VIO_DATA" "vio_type t = VIO_TRAILER"
    and room: "ioquv_more (vios z have) < unat (vio_length h)" "unat (vio_length h) + unat (vio_length t) \<le> min_bsize x"
  defines "uv \<equiv> next_uv x" and "b \<equiv> brk x" and "hl \<equiv> unat (vio_length h)" and "tlen \<equiv> unat (vio_length t)"
  shows "\<exists>y. xdr_ioq_allochdrs x start [h, d, t] =
      Some (True, [h\<lparr>vio_base := b, vio_head := b, vio_tail := b + hl, vio_wrap := b + min_bsize x\<rparr>, d,
        t\<lparr>vio_base := b, vio_head := b + hl, vio_tail := b + hl + tlen, vio_wrap := b + min_bsize x\<rparr>], y) \<and>
    heap y = heap x \<and> uvqh y = pre @ have # uv # post \<and> (\<forall>i. i \<noteq> uv \<longrightarrow> vios y i = vios z i) \<and>
    vio_head (vios y uv) = b \<and> vio_tail (vios y uv) = b + hl + tlen"
proof -
  note u = ioq_at_tail_update [OF a]
  have f: "xdr_ioq_allochdrs_find (vios z) (uvqh z) start = Some (have, 0)"
    using allochdrs_find_end [OF start, of post] u(3) q by (simp add: z_def del: fun_upd_apply)
  have dq: "distinct (pre @ have # post)" using a unfolding q [symmetric] by (auto simp: ioq_at_def)
  then have old: "have \<notin> set pre" "have \<notin> set post" by auto
  have new: "uv \<noteq> have" "uv \<notin> set pre" "uv \<notin> set post" "0 < b"
    using a q by (auto simp: ioq_at_def bufs_ok_def uv_def b_def)
  have z: "uvqh z = pre @ have # post" "next_uv z = uv" "brk z = b" "min_bsize z = min_bsize x" "heap z = heap x"
    by (simp_all add: z_def u q uv_def b_def)
  have m: "min_bsize x \<noteq> 0" using room by simp
  define h' where "h' = h\<lparr>vio_base := b, vio_head := b, vio_tail := b + hl, vio_wrap := b + min_bsize x\<rparr>"
  define t' where "t' = t\<lparr>vio_base := b, vio_head := b + hl, vio_tail := b + hl + tlen, vio_wrap := b + min_bsize x\<rparr>"
  let ?v = "\<lambda>e. \<lparr>vio_base = b, vio_head = b, vio_tail = e, vio_wrap = b + min_bsize x, vio_length = 0, vio_type = VIO_HEADER\<rparr>"
  define z1 where "z1 = (snd (xdr_ioq_uv_create (min_bsize x) UIO_FLAG_FREE z))\<lparr>qcount := qcount z + 1,
    uvqh := pre @ have # uv # post, vios := (vios z)(uv := ?v (b + hl))\<rparr>"
  have c: "xdr_ioq_uv_create (min_bsize x) UIO_FLAG_FREE z = (uv, z\<lparr>next_uv := uv + 1, vios := (vios z)(uv := ?v b),
      uvs := (uvs z)(uv := \<lparr>u_flags = UIO_FLAG_FREE, u_references = 1, u_release = False\<rparr>), brk := b + min_bsize x,
      mlog := Mem_alloc (min_bsize x) # mlog z\<rparr>)"
    using m by (simp add: xdr_ioq_uv_create_def z Let_def)
  have one: "xdr_ioq_use_or_allocate [h, d, t] 0 have z = (uv, [h', d, t], z1)"
    using room(1) type(1) unfolding xdr_ioq_use_or_allocate_def
    by (simp add: c z1_def h'_def hl_def [symmetric] z tailq_insert_after_at old new Let_def)
  define z2 where "z2 = z1\<lparr>vios := (vios z)(uv := ?v (b + hl + tlen))\<rparr>"
  have two: "xdr_ioq_use_or_allocate [h', d, t] (Suc (Suc 0)) uv z1 = (uv, [h', d, t'], z2)"
  proof -
    have "vios z1 uv = ?v (b + hl)" by (simp add: z1_def)
    moreover have "tlen \<le> ioquv_more (?v (b + hl))" using room(2) by (simp add: ioquv_more_def hl_def tlen_def)
    ultimately show ?thesis using type(3) unfolding xdr_ioq_use_or_allocate_def
      by (simp add: t'_def tlen_def [symmetric] z2_def z1_def)
  qed
  have nx: "tailq_next (pre @ have # uv # post) have = Some uv"
    using new dq tailq_next_at [of pre "have" "uv # post"] by simp
  have q1: "uvqh z1 = pre @ have # uv # post" by (simp add: z1_def)
  have "xdr_ioq_allochdrs x start [h, d, t] =
      Some (True, [h', d, t'], snd (xdr_ioq_setpos z2 (start + vio_length h' + vio_length d + vio_length t')))"
    unfolding xdr_ioq_allochdrs_def z_def [symmetric] Let_def f
    by (simp add: type one q1 nx two eval_nat_numeral)
  moreover
  define p where "p = start + vio_length h' + vio_length d + vio_length t'"
  have "x_v z = vios z cur" using u(1) by (simp add: ioq_at_def z_def)
  then have "\<not> vio_tail (x_v z) < x_data z" by (simp add: z_def u(2))
  then have "xdr_tail_update z2 = z2" by (simp add: xdr_tail_update_def z2_def z1_def c)
  then obtain o' y where y: "xdr_ioq_setpos z2 p = (o', y)" "heap y = heap z2" "vios y = vios z2" "uvqh y = uvqh z2"
    using ioq_setpos_loop_same [of "uvqh z2" "z2\<lparr>plength := 0, pcount := 0\<rparr>" p]
    by (cases "xdr_ioq_setpos z2 p") (simp add: xdr_ioq_setpos_def Let_def)
  ultimately show ?thesis
    by (intro exI [of _ y]) (simp add: p_def [symmetric] h'_def [symmetric] t'_def [symmetric], simp add: z2_def z1_def c z)
qed

lemma ioq_two_ok: "ioq_ok ioq_two"
proof -
  have "ioq_at ioq_two [1] 2 []" by code_simp
  have "0 < min_bsize ioq_two \<and> (\<forall>i \<in> set (uvqh ioq_two). \<not> flag (u_flags (uvs ioq_two i)) UIO_FLAG_REALLOC)"
    by code_simp
  with \<open>ioq_at ioq_two [1] 2 []\<close> show ?thesis by (auto simp: ioq_ok_def)
qed

text \<open>
  C28: When \<^verbatim>\<open>xdr_ioq_allochdrs\<close> has to append a buffer for the header, it goes on from the buffer before it,
  takes the new buffer for the data and puts the trailer directly behind the header.  In any well-formed queue,
  for a header between two buffers (\<open>start\<close> is the end of a buffer that is not empty) with no room behind that
  buffer's data, one data entry and a trailer that fits behind the header into a new buffer of \<^verbatim>\<open>min_bsize\<close>
  bytes: the call reports success, the trailer begins where the header ends, and in the stream that results the
  data, which should lie between them, follows both.
\<close>

theorem ioq_allochdrs_trailer_before_data:
  assumes "ioq_ok x" and "uvqh x = pre @ have # post"
  defines "vs \<equiv> vios (xdr_tail_update x)"
  defines "stream \<equiv> bufs_bytes (heap x) vs (uvqh x)"
  assumes "unat start = bufs_length vs (pre @ [have])" "0 < ioquv_length (vs have)"
    and "vio_type h = VIO_HEADER" "vio_type d = VIO_DATA" "vio_type t = VIO_TRAILER"
    and "ioquv_more (vs have) < unat (vio_length h)" "unat (vio_length h) + unat (vio_length t) \<le> min_bsize x"
  shows "\<exists>h' t' y. xdr_ioq_allochdrs x start [h, d, t] = Some (True, [h', d, t'], y) \<and>
    vio_tail h' = vio_head h' + unat (vio_length h) \<and> vio_head t' = vio_tail h' \<and>
    vio_tail t' = vio_head t' + unat (vio_length t) \<and>
    bufs_bytes (heap y) (vios y) (uvqh y) =
      take (unat start) stream @ vio_bytes (heap y) h' @ vio_bytes (heap y) t' @ drop (unat start) stream"
proof -
  obtain qre cur qost where a: "ioq_at x qre cur qost" using assms(1) by (auto simp: ioq_ok_def)
  let ?b = "brk x" and ?hl = "unat (vio_length h)" and ?tl = "unat (vio_length t)" and ?uv = "next_uv x"
  let ?h = "h\<lparr>vio_base := ?b, vio_head := ?b, vio_tail := ?b + ?hl, vio_wrap := ?b + min_bsize x\<rparr>"
  let ?t = "t\<lparr>vio_base := ?b, vio_head := ?b + ?hl, vio_tail := ?b + ?hl + ?tl, vio_wrap := ?b + min_bsize x\<rparr>"
  obtain y where y: "xdr_ioq_allochdrs x start [h, d, t] = Some (True, [?h, d, ?t], y)"
      "heap y = heap x" "uvqh y = pre @ have # ?uv # post" "\<forall>i. i \<noteq> ?uv \<longrightarrow> vios y i = vs i"
      "vio_head (vios y ?uv) = ?b" "vio_tail (vios y ?uv) = ?b + ?hl + ?tl"
    using allochdrs_new_buffer [OF a assms(2) assms(5-11) [unfolded vs_def]] unfolding vs_def by blast
  have "?uv \<notin> set (uvqh x)" using a by (auto simp: ioq_at_def bufs_ok_def)
  then have q: "bufs_bytes (heap x) (vios y) q = bufs_bytes (heap x) vs q" if "set q \<subseteq> set (uvqh x)" for q
    using that y(4) unfolding bufs_bytes_def by (intro arg_cong [where f = concat] map_cong refl) (metis subsetD)
  have n: "vio_bytes (heap x) (vios y ?uv) = vio_bytes (heap x) ?h @ vio_bytes (heap x) ?t"
    by (simp add: vio_bytes_def ioquv_length_def y(5,6) read_bytes_add [symmetric])
  have "bufs_bytes (heap y) (vios y) (uvqh y) =
      bufs_bytes (heap x) (vios y) (pre @ [have]) @ vio_bytes (heap x) (vios y ?uv) @ bufs_bytes (heap x) (vios y) post"
    by (simp add: y(2,3))
  also have "\<dots> = bufs_bytes (heap x) vs (pre @ [have]) @ vio_bytes (heap x) (vios y ?uv) @ bufs_bytes (heap x) vs post"
    by (subst q, use assms(2) in force, subst q, use assms(2) in force, rule refl)
  also have "bufs_bytes (heap x) vs (pre @ [have]) = take (unat start) stream"
    using assms(5) by (simp add: stream_def assms(2))
  also have "bufs_bytes (heap x) vs post = drop (unat start) stream"
    using assms(5) by (simp add: stream_def assms(2))
  finally have "bufs_bytes (heap y) (vios y) (uvqh y) =
      take (unat start) stream @ vio_bytes (heap y) ?h @ vio_bytes (heap y) ?t @ drop (unat start) stream"
    by (simp add: n y(2))
  with y(1) show ?thesis by (intro exI conjI) (assumption | simp)+
qed

theorem ioq_allochdrs_trailer_before_data_witness:
  "\<exists>header trailer y. xdr_ioq_allochdrs ioq_two 8 [vec_demo VIO_HEADER, vec_demo VIO_DATA, vec_demo VIO_TRAILER] =
      Some (True, [header, vec_demo VIO_DATA, trailer], y) \<and> vio_head trailer = vio_tail header \<and>
    bufs_bytes (heap y) (vios y) (uvqh y) =
      [1, 2, 3, 4, 5, 6, 7, 8] @ vio_bytes (heap y) header @ vio_bytes (heap y) trailer @ [9, 10, 11, 12]"
proof -
  have q: "uvqh ioq_two = [] @ 1 # [2]" by code_simp
  have vs: "vios (xdr_tail_update ioq_two) 1 = \<lparr>vio_base = 64, vio_head = 64, vio_tail = 72, vio_wrap = 72, vio_length = 0, vio_type = VIO_HEADER\<rparr>"
    by code_simp
  have s: "bufs_bytes (heap ioq_two) (vios (xdr_tail_update ioq_two)) (uvqh ioq_two) = [1, 2, 3, 4, 5, 6, 7, 8, 9, 10, 11, 12]"
    by code_simp
  have m: "min_bsize ioq_two = 8" by code_simp
  from ioq_allochdrs_trailer_before_data [OF ioq_two_ok q, of 8 "vec_demo VIO_HEADER" "vec_demo VIO_DATA" "vec_demo VIO_TRAILER"]
  show ?thesis by (simp add: vs [unfolded One_nat_def] s m vec_demo_def ioquv_length_def ioquv_more_def) blast
qed

text \<open>
  The room behind the data that \<^verbatim>\<open>xdr_ioq_setpos\<close> allows in the last buffer is computed from the current
  buffer: when the last one is smaller, a position outside its memory is accepted.
\<close>

lemma ioq_setpos_outside_last_buffer:
  "let x = snd (xdr_ioq_setpos ioq_lent 0); (ok, y) = xdr_ioq_setpos x 14 in
   ok \<and> vio_wrap (x_v y) = 1002 \<and> x_data y = 1006"
  by code_simp

end
