(* ===== verification/Svc_Zc.thy ===== *)
theory Svc_Zc
  imports Prelude
begin

text \<open>
  Completions of zero-copy sends, the first half of \<^verbatim>\<open>src/svc_ioq.c\<close>.  The kernel numbers the sends of a
  connection with 32-bit cookies that wrap around and reports ranges of completed cookies in any order; a
  reply may be freed only when every one of its sends is completed.  \<open>rpc_dplx_rec\<close> holds the fields of
  \<^verbatim>\<open>struct rpc_dplx_rec\<close> that keep the account; a reply (\<^verbatim>\<open>struct xdr_ioq\<close>) is a number, \<open>zc_ioqs\<close> holds its two
  counters, and the queue \<^verbatim>\<open>zcq\<close> is the list of the replies on it.  \<open>zlog\<close> records what is done to replies and
  connection, most recent first.
\<close>

section \<open>State\<close>

record zc_ioq =
  zc_cookie_lo :: u32
  zc_outstanding :: u32

datatype zc_event = Xdr_destroy nat | Svc_release | Shutdown

record rpc_dplx_rec =
  zcq :: "nat list"
  zc_inflight :: u32
  zc_next_cookie :: u32
  zc_acked :: u32
  zc_ooo_bits :: "u64 list"
  zc_window_drops :: u32
  zc_sock_ok :: bool
  zc_ioqs :: "nat \<Rightarrow> zc_ioq"
  zlog :: "zc_event list"

abbreviation SVC_ZC_ACK_WINDOW :: nat where "SVC_ZC_ACK_WINDOW \<equiv> 256"
abbreviation SVC_ZC_ACK_WORDS :: nat where "SVC_ZC_ACK_WORDS \<equiv> 4"

definition rpc_dplx_rec_init :: "rpc_dplx_rec \<Rightarrow> rpc_dplx_rec" where
  "rpc_dplx_rec_init r = r\<lparr>zcq := [], zc_inflight := 0, zc_next_cookie := 0, zc_acked := 0,
     zc_ooo_bits := replicate SVC_ZC_ACK_WORDS 0, zc_window_drops := 0, zc_sock_ok := False\<rparr>"

text \<open>Comparisons of cookies are modular: the difference is read as a signed number.\<close>

definition ZC_COOKIE_LT :: "u32 \<Rightarrow> u32 \<Rightarrow> bool" where
  "ZC_COOKIE_LT a b \<longleftrightarrow> sint (a - b) < 0"

definition ZC_COOKIE_GE :: "u32 \<Rightarrow> u32 \<Rightarrow> bool" where
  "ZC_COOKIE_GE a b \<longleftrightarrow> sint (a - b) \<ge> 0"

section \<open>Sends and the completion window\<close>

definition svc_ioq_zc_note_send :: "nat \<Rightarrow> rpc_dplx_rec \<Rightarrow> rpc_dplx_rec" where
  "svc_ioq_zc_note_send xioq r =
     (let q = zc_ioqs r xioq;
          q = (if zc_outstanding q = 0 then q\<lparr>zc_cookie_lo := zc_next_cookie r\<rparr> else q) in
      r\<lparr>zc_next_cookie := zc_next_cookie r + 1,
        zc_ioqs := (zc_ioqs r)(xioq := q\<lparr>zc_outstanding := zc_outstanding q + 1\<rparr>)\<rparr>)"

definition svc_ioq_zc_xioq_done :: "rpc_dplx_rec \<Rightarrow> nat \<Rightarrow> bool" where
  "svc_ioq_zc_xioq_done r xioq =
     (let q = zc_ioqs r xioq in
      if zc_outstanding q = 0 then True
      else let last = zc_cookie_lo q + zc_outstanding q in ZC_COOKIE_GE (zc_acked r) last)"

text \<open>The loop visits the entries that were on the queue when it began.\<close>

fun svc_ioq_zc_harvest_loop :: "nat list \<Rightarrow> rpc_dplx_rec \<Rightarrow> nat list \<Rightarrow> nat \<Rightarrow> nat \<times> nat list \<times> rpc_dplx_rec" where
  "svc_ioq_zc_harvest_loop [] r harvest_list count = (count, harvest_list, r)"
| "svc_ioq_zc_harvest_loop (have # nexts) r harvest_list count =
     (if svc_ioq_zc_xioq_done r have then
        svc_ioq_zc_harvest_loop nexts
          (r\<lparr>zcq := remove1 have (zcq r), zc_inflight := zc_inflight r - 1,
             zc_ioqs := (zc_ioqs r)(have := (zc_ioqs r have)\<lparr>zc_outstanding := 0\<rparr>)\<rparr>)
          (harvest_list @ [have]) (count + 1)
      else svc_ioq_zc_harvest_loop nexts r harvest_list count)"

definition svc_ioq_zc_harvest_locked :: "rpc_dplx_rec \<Rightarrow> nat list \<Rightarrow> nat \<times> nat list \<times> rpc_dplx_rec" where
  "svc_ioq_zc_harvest_locked r harvest_list = svc_ioq_zc_harvest_loop (zcq r) r harvest_list 0"

definition svc_ioq_zc_destroy_harvested :: "nat list \<Rightarrow> rpc_dplx_rec \<Rightarrow> rpc_dplx_rec" where
  "svc_ioq_zc_destroy_harvested harvest_list r = r\<lparr>zlog := rev (map Xdr_destroy harvest_list) @ zlog r\<rparr>"

definition svc_ioq_zc_bit_test :: "u64 list \<Rightarrow> u32 \<Rightarrow> bool" where
  "svc_ioq_zc_bit_test bits off \<longleftrightarrow> bits ! unat (drop_bit 6 off) AND push_bit (unat (off AND 63)) 1 \<noteq> 0"

definition svc_ioq_zc_bit_set :: "u64 list \<Rightarrow> u32 \<Rightarrow> u64 list" where
  "svc_ioq_zc_bit_set bits off =
     (let i = unat (drop_bit 6 off) in bits[i := bits ! i OR push_bit (unat (off AND 63)) 1])"

definition svc_ioq_zc_slide_word :: "nat \<Rightarrow> nat \<Rightarrow> u64 list \<Rightarrow> nat \<Rightarrow> u64 list" where
  "svc_ioq_zc_slide_word words bits ooo i =
     (let v = (if i + words < SVC_ZC_ACK_WORDS then ooo ! (i + words) else 0);
          v = (if bits \<noteq> 0 then
                 let v = drop_bit bits v in
                 if i + words + 1 < SVC_ZC_ACK_WORDS then v OR push_bit (64 - bits) (ooo ! (i + words + 1)) else v
               else v) in
      ooo[i := v])"

definition svc_ioq_zc_window_slide :: "u64 list \<Rightarrow> u32 \<Rightarrow> u64 list" where
  "svc_ioq_zc_window_slide ooo n =
     (let words = unat (drop_bit 6 n); bits = unat (n AND 63) in
      if words \<ge> SVC_ZC_ACK_WORDS then replicate SVC_ZC_ACK_WORDS 0
      else foldl (svc_ioq_zc_slide_word words bits) ooo [0..<SVC_ZC_ACK_WORDS])"

text \<open>The two loops of \<^verbatim>\<open>svc_ioq_zc_absorb_ooo\<close>: whole words, then single bits.\<close>

function svc_ioq_zc_absorb_words :: "u64 list \<Rightarrow> nat \<Rightarrow> nat" where
  "svc_ioq_zc_absorb_words ooo advance =
     (if advance \<le> SVC_ZC_ACK_WINDOW - 64 \<and> ooo ! (advance div 64) = NOT 0
      then svc_ioq_zc_absorb_words ooo (advance + 64) else advance)"
  by pat_completeness auto

termination svc_ioq_zc_absorb_words
  by (relation "measure (\<lambda>(ooo, advance). SVC_ZC_ACK_WINDOW - advance)") auto

function svc_ioq_zc_absorb_bits :: "u64 list \<Rightarrow> nat \<Rightarrow> nat" where
  "svc_ioq_zc_absorb_bits ooo advance =
     (if advance < SVC_ZC_ACK_WINDOW \<and> svc_ioq_zc_bit_test ooo (of_nat advance)
      then svc_ioq_zc_absorb_bits ooo (advance + 1) else advance)"
  by pat_completeness auto

termination svc_ioq_zc_absorb_bits
  by (relation "measure (\<lambda>(ooo, advance). SVC_ZC_ACK_WINDOW - advance)") auto

declare svc_ioq_zc_absorb_words.simps [simp del] svc_ioq_zc_absorb_bits.simps [simp del]

definition svc_ioq_zc_absorb_ooo :: "rpc_dplx_rec \<Rightarrow> rpc_dplx_rec" where
  "svc_ioq_zc_absorb_ooo r =
     (let advance = svc_ioq_zc_absorb_bits (zc_ooo_bits r) (svc_ioq_zc_absorb_words (zc_ooo_bits r) 0) in
      if advance = 0 then r
      else r\<lparr>zc_acked := zc_acked r + of_nat advance,
             zc_ooo_bits := svc_ioq_zc_window_slide (zc_ooo_bits r) (of_nat advance)\<rparr>)"

text \<open>The loop that records a range ahead of the watermark, from cookie \<open>c\<close> on.\<close>

function svc_ioq_zc_record :: "u32 \<Rightarrow> u32 \<Rightarrow> rpc_dplx_rec \<Rightarrow> rpc_dplx_rec" where
  "svc_ioq_zc_record c hi r =
     (let off = c - zc_acked r in
      if off \<ge> of_nat SVC_ZC_ACK_WINDOW then r\<lparr>zc_window_drops := zc_window_drops r + 1\<rparr>
      else
        let r = r\<lparr>zc_ooo_bits := svc_ioq_zc_bit_set (zc_ooo_bits r) off\<rparr> in
        if c = hi then r else svc_ioq_zc_record (c + 1) hi r)"
  by pat_completeness auto

lemma unat_diff_step: "c \<noteq> hi \<Longrightarrow> unat (hi - (c + 1)) < unat (hi - c)" for c hi :: u32
  by (metis diff_diff_add eq_iff_diff_eq_0 measure_unat)

termination svc_ioq_zc_record
  by (relation "measure (\<lambda>(c, hi, r). unat (hi - c))") (auto simp: unat_diff_step)

declare svc_ioq_zc_record.simps [simp del]

definition svc_ioq_zc_complete_locked ::
    "rpc_dplx_rec \<Rightarrow> u32 \<Rightarrow> u32 \<Rightarrow> nat list \<Rightarrow> nat \<times> nat list \<times> rpc_dplx_rec" where
  "svc_ioq_zc_complete_locked r lo hi harvest_list =
     (if ZC_COOKIE_LT hi lo then (0, harvest_list, r)
      else if ZC_COOKIE_LT hi (zc_acked r) then (0, harvest_list, r)
      else
        let lo = (if ZC_COOKIE_LT lo (zc_acked r) then zc_acked r else lo);
            r = (if lo = zc_acked r then
                   let span = hi - lo + 1 in
                   r\<lparr>zc_acked := zc_acked r + span, zc_ooo_bits := svc_ioq_zc_window_slide (zc_ooo_bits r) span\<rparr>
                 else svc_ioq_zc_record lo hi r);
            r = svc_ioq_zc_absorb_ooo r in
        svc_ioq_zc_harvest_locked r harvest_list)"

section \<open>The error queue\<close>

text \<open>
  A control message as \<^verbatim>\<open>recvmsg\<close> returns it, with the \<^verbatim>\<open>struct sock_extended_err\<close> that it carries.  The constants
  are those of Linux; \<^verbatim>\<open>CMSG_LEN(sizeof(struct sock_extended_err))\<close> is 32.
\<close>

record cmsghdr =
  cmsg_level :: u32
  cmsg_type :: u32
  cmsg_len :: nat
  ee_origin :: u8
  ee_code :: u8
  ee_info :: u32
  ee_data :: u32

abbreviation SOL_IP :: u32 where "SOL_IP \<equiv> 0"
abbreviation IP_RECVERR :: u32 where "IP_RECVERR \<equiv> 11"
abbreviation SOL_IPV6 :: u32 where "SOL_IPV6 \<equiv> 41"
abbreviation IPV6_RECVERR :: u32 where "IPV6_RECVERR \<equiv> 25"
abbreviation SO_EE_ORIGIN_ZEROCOPY :: u8 where "SO_EE_ORIGIN_ZEROCOPY \<equiv> 5"
abbreviation SO_EE_CODE_ZEROCOPY_COPIED :: u8 where "SO_EE_CODE_ZEROCOPY_COPIED \<equiv> 1"
abbreviation CMSG_LEN_serr :: nat where "CMSG_LEN_serr \<equiv> 32"

definition svc_ioq_zc_parse_serr :: "cmsghdr \<Rightarrow> (u32 \<times> u32 \<times> bool) option" where
  "svc_ioq_zc_parse_serr cmsg =
     (if cmsg_level cmsg = SOL_IP \<and> cmsg_type cmsg \<noteq> IP_RECVERR then None
      else if cmsg_level cmsg = SOL_IPV6 \<and> cmsg_type cmsg \<noteq> IPV6_RECVERR then None
      else if cmsg_level cmsg \<noteq> SOL_IP \<and> cmsg_level cmsg \<noteq> SOL_IPV6 then None
      else if cmsg_len cmsg < CMSG_LEN_serr then None
      else if ee_origin cmsg \<noteq> SO_EE_ORIGIN_ZEROCOPY then None
      else Some (ee_info cmsg, ee_data cmsg, ee_code cmsg AND SO_EE_CODE_ZEROCOPY_COPIED \<noteq> 0))"

fun svc_ioq_zc_drain_cmsgs :: "cmsghdr list \<Rightarrow> rpc_dplx_rec \<Rightarrow> nat list \<Rightarrow> nat \<Rightarrow> nat \<times> nat list \<times> rpc_dplx_rec" where
  "svc_ioq_zc_drain_cmsgs [] r harvest_list n = (n, harvest_list, r)"
| "svc_ioq_zc_drain_cmsgs (cmsg # cmsgs) r harvest_list n =
     (case svc_ioq_zc_parse_serr cmsg of
        None \<Rightarrow> svc_ioq_zc_drain_cmsgs cmsgs r harvest_list n
      | Some (lo, hi, copied) \<Rightarrow>
          (case svc_ioq_zc_complete_locked r lo hi harvest_list of
             (k, harvest_list, r) \<Rightarrow>
               svc_ioq_zc_drain_cmsgs cmsgs
                 (if copied \<and> zc_sock_ok r then r\<lparr>zc_sock_ok := False\<rparr> else r) harvest_list (n + k)))"

text \<open>\<open>errqueue\<close> are the messages that \<^verbatim>\<open>recvmsg\<close> returns before it fails.\<close>

fun svc_ioq_zc_drain_msgs :: "cmsghdr list list \<Rightarrow> rpc_dplx_rec \<Rightarrow> nat list \<Rightarrow> nat \<Rightarrow> nat \<times> nat list \<times> rpc_dplx_rec" where
  "svc_ioq_zc_drain_msgs [] r harvest_list total_n = (total_n, harvest_list, r)"
| "svc_ioq_zc_drain_msgs (msg # errqueue) r harvest_list total_n =
     (case svc_ioq_zc_drain_cmsgs msg r harvest_list 0 of
        (n, harvest_list, r) \<Rightarrow> svc_ioq_zc_drain_msgs errqueue r harvest_list (total_n + n))"

definition svc_ioq_zc_drain_collect ::
    "bool \<Rightarrow> cmsghdr list list \<Rightarrow> rpc_dplx_rec \<Rightarrow> nat list \<Rightarrow> nat \<times> nat list \<times> rpc_dplx_rec" where
  "svc_ioq_zc_drain_collect tcp_zerocopy_enabled errqueue r harvest_list =
     (if \<not> tcp_zerocopy_enabled then (0, harvest_list, r)
      else if \<not> zc_sock_ok r \<and> zc_inflight r = 0 then (0, harvest_list, r)
      else svc_ioq_zc_drain_msgs errqueue r harvest_list 0)"

definition svc_ioq_zc_drain_release :: "nat list \<Rightarrow> nat \<Rightarrow> rpc_dplx_rec \<Rightarrow> rpc_dplx_rec" where
  "svc_ioq_zc_drain_release harvest_list release_count r =
     (let r = svc_ioq_zc_destroy_harvested harvest_list r in
      r\<lparr>zlog := replicate release_count Svc_release @ zlog r\<rparr>)"

definition svc_ioq_zc_drain :: "bool \<Rightarrow> cmsghdr list list \<Rightarrow> rpc_dplx_rec \<Rightarrow> rpc_dplx_rec" where
  "svc_ioq_zc_drain tcp_zerocopy_enabled errqueue r =
     (case svc_ioq_zc_drain_collect tcp_zerocopy_enabled errqueue r [] of
        (release_count, harvest_list, r) \<Rightarrow>
          if release_count > 0 then svc_ioq_zc_drain_release harvest_list release_count r else r)"

text \<open>
  Tearing down: at most \<^verbatim>\<open>SVC_ZC_TEARDOWN_TRIES\<close> drains, the queue after each try in \<open>errqueues\<close>, then
  everything left is freed.
\<close>

abbreviation SVC_ZC_TEARDOWN_TRIES :: nat where "SVC_ZC_TEARDOWN_TRIES \<equiv> 20"

fun svc_ioq_zc_teardown :: "bool \<Rightarrow> cmsghdr list list list \<Rightarrow> rpc_dplx_rec \<Rightarrow> rpc_dplx_rec" where
  "svc_ioq_zc_teardown tcp_zerocopy_enabled [] r = r"
| "svc_ioq_zc_teardown tcp_zerocopy_enabled (errqueue # errqueues) r =
     (let r = svc_ioq_zc_drain tcp_zerocopy_enabled errqueue r in
      if zc_inflight r = 0 then r else svc_ioq_zc_teardown tcp_zerocopy_enabled errqueues r)"

definition svc_ioq_zc_release_all ::
    "bool \<Rightarrow> bool \<Rightarrow> cmsghdr list list list \<Rightarrow> rpc_dplx_rec \<Rightarrow> rpc_dplx_rec" where
  "svc_ioq_zc_release_all tcp_zerocopy_enabled any_fd errqueues r =
     (let r = (if tcp_zerocopy_enabled \<and> zc_inflight r > 0 \<and> \<not> any_fd then
                 svc_ioq_zc_teardown tcp_zerocopy_enabled (take SVC_ZC_TEARDOWN_TRIES errqueues)
                   (r\<lparr>zlog := Shutdown # zlog r\<rparr>)
               else r);
          harvest_list = zcq r;
          r = r\<lparr>zcq := [], zc_inflight := zc_inflight r - of_nat (length harvest_list),
                zc_ooo_bits := replicate SVC_ZC_ACK_WORDS 0\<rparr>;
          r = svc_ioq_zc_destroy_harvested harvest_list r in
      r\<lparr>zlog := replicate (length harvest_list) Svc_release @ zlog r\<rparr>)"

text \<open>
  What \<^verbatim>\<open>svc_ioq_write\<close> does with a reply when all of it has been handed to the kernel: free it, or leave that
  to the completions.
\<close>

definition svc_ioq_write_finish :: "nat \<Rightarrow> rpc_dplx_rec \<Rightarrow> rpc_dplx_rec" where
  "svc_ioq_write_finish xioq r =
     (let q = zc_ioqs r xioq in
      if zc_outstanding q > 0 \<and> \<not> svc_ioq_zc_xioq_done r xioq then
        r\<lparr>zcq := zcq r @ [xioq], zc_inflight := zc_inflight r + 1\<rparr>
      else
        r\<lparr>zc_ioqs := (zc_ioqs r)(xioq := q\<lparr>zc_outstanding := 0\<rparr>),
          zlog := Xdr_destroy xioq # Svc_release # zlog r\<rparr>)"

section \<open>The window as a set of cookies\<close>

definition zc_window :: "u64 list \<Rightarrow> nat \<Rightarrow> bool" where
  "zc_window bits k \<longleftrightarrow> k < SVC_ZC_ACK_WINDOW \<and> bit (bits ! (k div 64)) (k mod 64)"

lemma and_63: "unat ((n :: u32) AND 63) = unat n mod 64"
proof -
  have "n AND 63 = take_bit 6 n" by (simp add: take_bit_eq_mask mask_eq_exp_minus_1)
  then show ?thesis by (simp add: take_bit_eq_mod unat_mod)
qed

lemma shift_6: "unat (drop_bit 6 (n :: u32)) = unat n div 64"
  by (simp add: drop_bit_eq_div unat_div)

lemma zc_bit_test: "unat off < SVC_ZC_ACK_WINDOW \<Longrightarrow> svc_ioq_zc_bit_test bits off \<longleftrightarrow> zc_window bits (unat off)"
  by (simp add: svc_ioq_zc_bit_test_def zc_window_def and_63 shift_6 and_exp_eq_0_iff_not_bit)

lemma zc_bit_set:
  assumes "unat off < SVC_ZC_ACK_WINDOW" "length bits = SVC_ZC_ACK_WORDS"
  shows "zc_window (svc_ioq_zc_bit_set bits off) k \<longleftrightarrow> zc_window bits k \<or> k = unat off"
    "length (svc_ioq_zc_bit_set bits off) = SVC_ZC_ACK_WORDS"
proof -
  have "k = unat off \<longleftrightarrow> k div 64 = unat off div 64 \<and> k mod 64 = unat off mod 64"
    by (metis mult_div_mod_eq)
  moreover have "unat off div 64 < SVC_ZC_ACK_WORDS" using assms(1) by simp
  ultimately show "zc_window (svc_ioq_zc_bit_set bits off) k \<longleftrightarrow> zc_window bits k \<or> k = unat off"
    using assms by (auto simp: svc_ioq_zc_bit_set_def zc_window_def and_63 shift_6 nth_list_update bit_simps)
qed (use assms in \<open>simp add: svc_ioq_zc_bit_set_def\<close>)

text \<open>The words of the window that has moved by \<open>n\<close>: \<open>words\<close> whole words and \<open>bits\<close> more bits.\<close>

definition slided :: "u64 list \<Rightarrow> nat \<Rightarrow> nat \<Rightarrow> nat \<Rightarrow> u64" where
  "slided ooo words bits i = svc_ioq_zc_slide_word words bits ooo i ! i"

lemma slide_words:
  assumes "length ooo = SVC_ZC_ACK_WORDS" "words < SVC_ZC_ACK_WORDS"
  shows "foldl (svc_ioq_zc_slide_word words bits) ooo [0..<SVC_ZC_ACK_WORDS] = map (slided ooo words bits) [0..<SVC_ZC_ACK_WORDS]"
proof -
  obtain a b c d where ooo: "ooo = [a, b, c, d]" using assms(1) by (auto simp: numeral_eq_Suc length_Suc_conv)
  have u: "[0..<4] = [0, 1, 2, 3 :: nat]" by (simp add: upt_rec)
  from assms(2) consider "words = 0" | "words = 1" | "words = 2" | "words = 3" by linarith
  then show ?thesis unfolding u ooo by cases (simp_all add: slided_def svc_ioq_zc_slide_word_def)
qed

lemma div_mod_64: "r < 64 \<Longrightarrow> (64 * q + r) div 64 = q" "r < 64 \<Longrightarrow> (64 * q + r) mod 64 = r" for q r :: nat
  by simp_all

lemma bit_slided:
  assumes "length ooo = SVC_ZC_ACK_WORDS" "i < SVC_ZC_ACK_WORDS" "bits < 64" "j < 64"
  shows "bit (slided ooo words bits i) j \<longleftrightarrow> zc_window ooo (64 * (i + words) + (j + bits))"
proof (cases "j + bits < 64")
  case True
  then have "(64 * (i + words) + (j + bits)) div 64 = i + words" "(64 * (i + words) + (j + bits)) mod 64 = j + bits"
    by (rule div_mod_64)+
  moreover have "64 * (i + words) + (j + bits) < SVC_ZC_ACK_WINDOW \<longleftrightarrow> i + words < SVC_ZC_ACK_WORDS" using True by auto
  ultimately show ?thesis
    using True assms by (auto simp: slided_def svc_ioq_zc_slide_word_def zc_window_def bit_simps add.commute)
next
  case False
  then have e: "64 * (i + words) + (j + bits) = 64 * (i + words + 1) + (j + bits - 64)" "j + bits - 64 < 64" "0 < bits"
    using assms by simp_all
  then have "(64 * (i + words) + (j + bits)) div 64 = i + words + 1" "(64 * (i + words) + (j + bits)) mod 64 = j + bits - 64"
    by (simp_all only: div_mod_64)
  moreover have "64 * (i + words) + (j + bits) < SVC_ZC_ACK_WINDOW \<longleftrightarrow> i + words + 1 < SVC_ZC_ACK_WORDS" using e by auto
  moreover have "bit (ooo ! (i + words)) (bits + j) = False" using False by (auto dest: bit_imp_le_length)
  ultimately show ?thesis
    using False assms e(3) by (auto simp: slided_def svc_ioq_zc_slide_word_def zc_window_def bit_simps)
qed

lemma zc_window_slide:
  assumes "length ooo = SVC_ZC_ACK_WORDS"
  shows "zc_window (svc_ioq_zc_window_slide ooo n) k \<longleftrightarrow> zc_window ooo (k + unat n)"
    "length (svc_ioq_zc_window_slide ooo n) = SVC_ZC_ACK_WORDS"
proof -
  show "length (svc_ioq_zc_window_slide ooo n) = SVC_ZC_ACK_WORDS"
    by (simp add: svc_ioq_zc_window_slide_def slide_words [OF assms])
  show "zc_window (svc_ioq_zc_window_slide ooo n) k \<longleftrightarrow> zc_window ooo (k + unat n)"
  proof (cases "unat n div 64 < SVC_ZC_ACK_WORDS")
    case True
    have e: "64 * (k div 64 + unat n div 64) + (k mod 64 + unat n mod 64) = k + unat n" by simp
    have "bit (slided ooo (unat n div 64) (unat n mod 64) (k div 64)) (k mod 64) \<longleftrightarrow> zc_window ooo (k + unat n)"
      if "k < SVC_ZC_ACK_WINDOW"
      using bit_slided [OF assms, of "k div 64" "unat n mod 64" "k mod 64" "unat n div 64"] that unfolding e by auto
    moreover have "zc_window ooo (k + unat n) \<Longrightarrow> k < SVC_ZC_ACK_WINDOW" by (simp add: zc_window_def)
    moreover have "svc_ioq_zc_window_slide ooo n = map (slided ooo (unat n div 64) (unat n mod 64)) [0..<SVC_ZC_ACK_WORDS]"
      using True by (simp add: svc_ioq_zc_window_slide_def shift_6 and_63 slide_words [OF assms])
    ultimately show ?thesis by (auto simp: zc_window_def [of "map _ _"])
  next
    case False
    then show ?thesis by (auto simp: svc_ioq_zc_window_slide_def shift_6 zc_window_def)
  qed
qed

text \<open>The watermark advances to the first cookie that is not confirmed.\<close>

lemma absorb_words:
  assumes "start mod 64 = 0" "start \<le> SVC_ZC_ACK_WINDOW"
  shows "start \<le> svc_ioq_zc_absorb_words ooo start \<and> svc_ioq_zc_absorb_words ooo start \<le> SVC_ZC_ACK_WINDOW \<and>
    (\<forall>k. start \<le> k \<longrightarrow> k < svc_ioq_zc_absorb_words ooo start \<longrightarrow> zc_window ooo k)"
  using assms
proof (induction ooo start rule: svc_ioq_zc_absorb_words.induct)
  case (1 ooo start)
  show ?case
  proof (cases "start \<le> SVC_ZC_ACK_WINDOW - 64 \<and> ooo ! (start div 64) = NOT 0")
    case True
    define b where "b = svc_ioq_zc_absorb_words ooo (start + 64)"
    have b: "start + 64 \<le> b" "b \<le> SVC_ZC_ACK_WINDOW" "\<forall>k. start + 64 \<le> k \<longrightarrow> k < b \<longrightarrow> zc_window ooo k"
      using "1.IH" [OF True] "1.prems" True by (simp_all add: b_def mod_add_eq [symmetric])
    have "zc_window ooo k" if "start \<le> k" "k < start + 64" for k
    proof -
      have "k div 64 = start div 64"
        using that \<open>start mod 64 = 0\<close> by (auto elim!: dvdE simp: dvd_eq_mod_eq_0 [symmetric])
      then show ?thesis using that True by (simp add: zc_window_def bit_simps)
    qed
    moreover have "svc_ioq_zc_absorb_words ooo start = b"
      using True by (subst svc_ioq_zc_absorb_words.simps) (simp add: b_def)
    ultimately show ?thesis using b by (metis add_leE not_less)
  next
    case False
    then have "svc_ioq_zc_absorb_words ooo start = start" by (subst svc_ioq_zc_absorb_words.simps) auto
    then show ?thesis using "1.prems" by simp
  qed
qed

lemma absorb_bits:
  assumes "start \<le> SVC_ZC_ACK_WINDOW"
  shows "start \<le> svc_ioq_zc_absorb_bits ooo start \<and> svc_ioq_zc_absorb_bits ooo start \<le> SVC_ZC_ACK_WINDOW \<and>
    (\<forall>k. start \<le> k \<longrightarrow> k < svc_ioq_zc_absorb_bits ooo start \<longrightarrow> zc_window ooo k) \<and>
    \<not> zc_window ooo (svc_ioq_zc_absorb_bits ooo start)"
  using assms
proof (induction ooo start rule: svc_ioq_zc_absorb_bits.induct)
  case (1 ooo start)
  have u: "unat (of_nat start :: u32) = start" using "1.prems"(1) by (intro unat_of_nat_small) simp
  have t: "start < SVC_ZC_ACK_WINDOW \<Longrightarrow> svc_ioq_zc_bit_test ooo (of_nat start) \<longleftrightarrow> zc_window ooo start"
    using zc_bit_test [of "of_nat start" ooo] u by simp
  show ?case
  proof (cases "start < SVC_ZC_ACK_WINDOW \<and> svc_ioq_zc_bit_test ooo (of_nat start)")
    case True
    then have "svc_ioq_zc_absorb_bits ooo start = svc_ioq_zc_absorb_bits ooo (start + 1)"
      by (subst svc_ioq_zc_absorb_bits.simps) simp
    with "1.IH" [OF True] True t show ?thesis by (simp add: Suc_le_eq) (metis le_neq_implies_less)
  next
    case False
    then have "svc_ioq_zc_absorb_bits ooo start = start" by (subst svc_ioq_zc_absorb_bits.simps) auto
    then show ?thesis using "1.prems"(1) False t by (auto simp: zc_window_def)
  qed
qed

lemma absorb_advance:
  "\<exists>a. svc_ioq_zc_absorb_bits ooo (svc_ioq_zc_absorb_words ooo 0) = a \<and> a \<le> SVC_ZC_ACK_WINDOW \<and>
     (\<forall>k < a. zc_window ooo k) \<and> \<not> zc_window ooo a"
  using absorb_words [of 0 ooo] absorb_bits [of "svc_ioq_zc_absorb_words ooo 0" ooo] by (metis le0 mod_0 not_less)

section \<open>Cookies without wrap-around\<close>

lemma sint_diff: "a < b + 2 ^ 31 \<Longrightarrow> b < a + 2 ^ 31 \<Longrightarrow> sint (of_nat a - of_nat b :: u32) = int a - int b" for a b :: nat
proof -
  assume "a < b + 2 ^ 31" "b < a + 2 ^ 31"
  then have "signed_take_bit 31 (int a - int b) = int a - int b"
    by (intro signed_take_bit_int_eq_self) simp_all
  moreover have "(of_nat a - of_nat b :: u32) = word_of_int (int a - int b)" by simp
  ultimately show ?thesis by (simp only: sint_sbintrunc') simp
qed

lemma ZC_COOKIE_nat:
  assumes "a < b + 2 ^ 31" "b < a + 2 ^ 31"
  shows "ZC_COOKIE_LT (of_nat a) (of_nat b) \<longleftrightarrow> a < b" "ZC_COOKIE_GE (of_nat a) (of_nat b) \<longleftrightarrow> b \<le> a"
  using sint_diff [OF assms] by (simp_all add: ZC_COOKIE_LT_def ZC_COOKIE_GE_def)

text \<open>
  The account with cookies that do not wrap: \<open>W\<close> is the watermark, \<open>N\<close> the number of sends and \<open>C\<close> the set of
  cookies the kernel has confirmed.  \<open>zc_account\<close> says that the fields of the record stand for them and claim
  nothing that is not confirmed, \<open>zc_exact\<close> that nothing confirmed is missing.
\<close>

definition zc_account :: "nat \<Rightarrow> nat \<Rightarrow> nat set \<Rightarrow> rpc_dplx_rec \<Rightarrow> bool" where
  "zc_account W N C r \<longleftrightarrow> zc_acked r = of_nat W \<and> W \<le> N \<and> N < W + 2 ^ 31 \<and>
     length (zc_ooo_bits r) = SVC_ZC_ACK_WORDS \<and> {..<W} \<subseteq> C \<and> C \<subseteq> {..<N} \<and>
     (\<forall>k. zc_window (zc_ooo_bits r) k \<longrightarrow> W + k \<in> C)"

definition zc_exact :: "nat \<Rightarrow> nat set \<Rightarrow> rpc_dplx_rec \<Rightarrow> bool" where
  "zc_exact W C r \<longleftrightarrow> W \<notin> C \<and> (\<forall>c \<in> C. c < W \<or> zc_window (zc_ooo_bits r) (c - W))"

lemma zc_record_step:
  assumes "zc_acked r = of_nat W" "length (zc_ooo_bits r) = SVC_ZC_ACK_WORDS" "W < c" "c < W + 2 ^ 31"
  defines "bits \<equiv> svc_ioq_zc_bit_set (zc_ooo_bits r) (of_nat c - of_nat W)"
  shows "svc_ioq_zc_record (of_nat c) hi r =
      (if c < W + SVC_ZC_ACK_WINDOW then
         if of_nat c = hi then r\<lparr>zc_ooo_bits := bits\<rparr> else svc_ioq_zc_record (of_nat (c + 1)) hi (r\<lparr>zc_ooo_bits := bits\<rparr>)
       else r\<lparr>zc_window_drops := zc_window_drops r + 1\<rparr>)"
    and "c < W + SVC_ZC_ACK_WINDOW \<Longrightarrow> length bits = SVC_ZC_ACK_WORDS \<and>
      (\<forall>k. zc_window bits k \<longleftrightarrow> zc_window (zc_ooo_bits r) k \<or> W + k = c)"
proof -
  have u: "unat (of_nat c - of_nat W :: u32) = c - W" using assms(3,4) by (intro unat_of_nat_diff) simp_all
  have w: "of_nat SVC_ZC_ACK_WINDOW \<le> (of_nat c - of_nat W :: u32) \<longleftrightarrow> \<not> c < W + SVC_ZC_ACK_WINDOW"
    using u assms(3) by (auto simp: word_le_nat_alt)
  show "svc_ioq_zc_record (of_nat c) hi r =
      (if c < W + SVC_ZC_ACK_WINDOW then
         if of_nat c = hi then r\<lparr>zc_ooo_bits := bits\<rparr> else svc_ioq_zc_record (of_nat (c + 1)) hi (r\<lparr>zc_ooo_bits := bits\<rparr>)
       else r\<lparr>zc_window_drops := zc_window_drops r + 1\<rparr>)"
    using w assms(1) by (subst svc_ioq_zc_record.simps) (simp add: bits_def add.commute)
  assume "c < W + SVC_ZC_ACK_WINDOW"
  then have lt: "unat (of_nat c - of_nat W :: u32) < SVC_ZC_ACK_WINDOW" using u assms(3) by simp
  show "length bits = SVC_ZC_ACK_WORDS \<and> (\<forall>k. zc_window bits k \<longleftrightarrow> zc_window (zc_ooo_bits r) k \<or> W + k = c)"
    using zc_bit_set [OF lt assms(2)] u assms(3) by (auto simp: bits_def)
qed

lemma zc_record:
  assumes "zc_acked r = of_nat W" "length (zc_ooo_bits r) = SVC_ZC_ACK_WORDS" "W < c" "c \<le> b" "b < W + 2 ^ 31"
  shows "\<exists>bits. svc_ioq_zc_record (of_nat c) (of_nat b) r =
      r\<lparr>zc_ooo_bits := bits, zc_window_drops := zc_window_drops r + (if b < W + SVC_ZC_ACK_WINDOW then 0 else 1)\<rparr> \<and>
    length bits = SVC_ZC_ACK_WORDS \<and>
    (\<forall>k. zc_window bits k \<longleftrightarrow> zc_window (zc_ooo_bits r) k \<or> k < SVC_ZC_ACK_WINDOW \<and> c \<le> W + k \<and> W + k \<le> b)"
  using assms
proof (induction "b - c" arbitrary: c r)
  case (0 c r)
  then have c: "c = b" by simp
  let ?bits = "if c < W + SVC_ZC_ACK_WINDOW then svc_ioq_zc_bit_set (zc_ooo_bits r) (of_nat c - of_nat W) else zc_ooo_bits r"
  have "W + k = c \<longleftrightarrow> k < SVC_ZC_ACK_WINDOW \<and> c \<le> W + k \<and> W + k \<le> b" if "c < W + SVC_ZC_ACK_WINDOW" for k
    using c that by auto
  then show ?case
    using zc_record_step(1) [OF "0.prems"(1-3), of "of_nat b"] zc_record_step(2) [OF "0.prems"(1-3)] "0.prems" c
    by (intro exI [of _ ?bits]) auto
next
  case (Suc n c r)
  let ?bits = "svc_ioq_zc_bit_set (zc_ooo_bits r) (of_nat c - of_nat W)"
  let ?r = "r\<lparr>zc_ooo_bits := ?bits\<rparr>"
  have c: "c < W + 2 ^ 31" "c \<noteq> b" "n = b - (c + 1)" "c + 1 \<le> b" using Suc.hyps(2) Suc.prems(4,5) by auto
  have "(of_nat c :: u32) \<noteq> of_nat b"
  proof
    assume "(of_nat c :: u32) = of_nat b"
    then have "unat (of_nat b - of_nat c :: u32) = 0" by simp
    moreover have "unat (of_nat b - of_nat c :: u32) = b - c" using Suc.prems c by (intro unat_of_nat_diff) simp_all
    ultimately show False using c by simp
  qed
  note step = zc_record_step [OF Suc.prems(1-3) c(1)]
  show ?case
  proof (cases "c < W + SVC_ZC_ACK_WINDOW")
    case True
    note bits = step(2) [OF True]
    have e: "svc_ioq_zc_record (of_nat c) (of_nat b) r = svc_ioq_zc_record (of_nat (c + 1)) (of_nat b) ?r"
      using step(1) [of "of_nat b"] True \<open>(of_nat c :: u32) \<noteq> of_nat b\<close> by simp
    have "W + k = c \<or> k < SVC_ZC_ACK_WINDOW \<and> c + 1 \<le> W + k \<and> W + k \<le> b \<longleftrightarrow> k < SVC_ZC_ACK_WINDOW \<and> c \<le> W + k \<and> W + k \<le> b" for k
      using True c by auto
    then show ?thesis
      unfolding e using Suc.hyps(1) [OF c(3), of ?r] Suc.prems bits c(4) by (simp add: disj_assoc)
  next
    case False
    then show ?thesis
      using step(1) [of "of_nat b"] Suc.prems by (auto intro!: exI [of _ "zc_ooo_bits r"])
  qed
qed

lemma zc_absorb:
  assumes "zc_acked r = of_nat W" "length (zc_ooo_bits r) = SVC_ZC_ACK_WORDS"
  shows "\<exists>a bits. svc_ioq_zc_absorb_ooo r = r\<lparr>zc_acked := of_nat (W + a), zc_ooo_bits := bits\<rparr> \<and>
    length bits = SVC_ZC_ACK_WORDS \<and> (\<forall>k < a. zc_window (zc_ooo_bits r) k) \<and> \<not> zc_window (zc_ooo_bits r) a \<and>
    (\<forall>k. zc_window bits k \<longleftrightarrow> zc_window (zc_ooo_bits r) (k + a))"
proof -
  obtain a where a: "svc_ioq_zc_absorb_bits (zc_ooo_bits r) (svc_ioq_zc_absorb_words (zc_ooo_bits r) 0) = a"
      "a \<le> SVC_ZC_ACK_WINDOW" "\<forall>k < a. zc_window (zc_ooo_bits r) k" "\<not> zc_window (zc_ooo_bits r) a"
    using absorb_advance [of "zc_ooo_bits r"] by blast
  have u: "unat (of_nat a :: u32) = a" using a(2) by (intro unat_of_nat_small) simp
  show ?thesis
  proof (cases "a = 0")
    case True
    then show ?thesis using a assms by (intro exI [of _ 0] exI [of _ "zc_ooo_bits r"]) (simp add: svc_ioq_zc_absorb_ooo_def)
  next
    case False
    then show ?thesis
      using a assms zc_window_slide [OF assms(2), of "of_nat a"] u
      by (intro exI [of _ a] exI [of _ "svc_ioq_zc_window_slide (zc_ooo_bits r) (of_nat a)"])
        (simp add: svc_ioq_zc_absorb_ooo_def)
  qed
qed

text \<open>What \<^verbatim>\<open>svc_ioq_zc_complete_locked\<close> does to the account before it harvests, in its two stages.\<close>

definition zc_note :: "rpc_dplx_rec \<Rightarrow> u32 \<Rightarrow> u32 \<Rightarrow> rpc_dplx_rec" where
  "zc_note r lo hi =
     (let lo = (if ZC_COOKIE_LT lo (zc_acked r) then zc_acked r else lo) in
      if lo = zc_acked r then
        let span = hi - lo + 1 in
        r\<lparr>zc_acked := zc_acked r + span, zc_ooo_bits := svc_ioq_zc_window_slide (zc_ooo_bits r) span\<rparr>
      else svc_ioq_zc_record lo hi r)"

lemma complete_locked_stages:
  "svc_ioq_zc_complete_locked r lo hi h =
     (if ZC_COOKIE_LT hi lo \<or> ZC_COOKIE_LT hi (zc_acked r) then (0, h, r)
      else svc_ioq_zc_harvest_locked (svc_ioq_zc_absorb_ooo (zc_note r lo hi)) h)"
  by (simp add: svc_ioq_zc_complete_locked_def zc_note_def)

definition zc_listed :: "nat \<Rightarrow> nat set \<Rightarrow> rpc_dplx_rec \<Rightarrow> bool" where
  "zc_listed W C r \<longleftrightarrow> (\<forall>c \<in> C. c < W \<or> zc_window (zc_ooo_bits r) (c - W))"

lemma zc_note_ok:
  assumes "zc_account W N C r" "a \<le> b" "b < N" "N < a + 2 ^ 31" "W \<le> b"
  shows "\<exists>W' bits d. zc_note r (of_nat a) (of_nat b) =
      r\<lparr>zc_acked := of_nat W', zc_ooo_bits := bits, zc_window_drops := d\<rparr> \<and> W \<le> W' \<and> d \<in> {zc_window_drops r, zc_window_drops r + 1} \<and>
    zc_account W' N (C \<union> {a..b}) (zc_note r (of_nat a) (of_nat b)) \<and>
    (d = zc_window_drops r \<longrightarrow> zc_listed W C r \<longrightarrow> zc_listed W' (C \<union> {a..b}) (zc_note r (of_nat a) (of_nat b)))"
proof -
  have r: "zc_acked r = of_nat W" "length (zc_ooo_bits r) = SVC_ZC_ACK_WORDS" "N < W + 2 ^ 31" "W \<le> N" "{..<W} \<subseteq> C" "C \<subseteq> {..<N}"
    and win: "\<And>k. zc_window (zc_ooo_bits r) k \<Longrightarrow> W + k \<in> C"
    using assms(1) by (auto simp: zc_account_def)
  have lt: "ZC_COOKIE_LT (of_nat a) (zc_acked r) \<longleftrightarrow> a < W"
    unfolding r(1) using assms r by (intro ZC_COOKIE_nat) linarith+
  show ?thesis
  proof (cases "a \<le> W")
    case True
    let ?span = "of_nat b - of_nat W + 1 :: u32"
    have "?span = of_nat (b - W + 1)" using assms(5) by (simp add: of_nat_diff add.commute)
    moreover have "unat (of_nat (b - W + 1) :: u32) = b - W + 1"
      using assms(3) r(3) by (intro unat_of_nat_small) simp
    ultimately have span: "unat ?span = b - W + 1" by metis
    have span2: "of_nat W + ?span = of_nat (b + 1)" by simp
    have n: "zc_note r (of_nat a) (of_nat b) =
        r\<lparr>zc_acked := of_nat (b + 1), zc_ooo_bits := svc_ioq_zc_window_slide (zc_ooo_bits r) ?span, zc_window_drops := zc_window_drops r\<rparr>"
      using True lt span2 r(1) by (cases "a = W") (simp_all add: zc_note_def)
    have sl: "zc_window (svc_ioq_zc_window_slide (zc_ooo_bits r) ?span) k \<longleftrightarrow> zc_window (zc_ooo_bits r) (k + (b - W + 1))" for k
      using zc_window_slide(1) [OF r(2), of ?span k] unfolding span .
    have "{..<b + 1} \<subseteq> C \<union> {a..b}" using r(5) True by auto
    moreover have "b + 1 + k \<in> C \<union> {a..b}" if "zc_window (zc_ooo_bits r) (k + (b - W + 1))" for k
      using win [OF that] assms(5) by (simp add: algebra_simps)
    moreover have "zc_listed (b + 1) (C \<union> {a..b}) (zc_note r (of_nat a) (of_nat b))" if "zc_listed W C r"
    proof -
      have "c < b + 1 \<or> zc_window (zc_ooo_bits r) (c - (b + 1) + (b - W + 1))" if "c \<in> C \<union> {a..b}" for c
        using that \<open>zc_listed W C r\<close> assms(5) by (cases "c < b + 1") (auto simp: zc_listed_def Suc_diff_Suc Suc_le_eq)
      then show ?thesis by (auto simp: n zc_listed_def sl)
    qed
    ultimately show ?thesis
      using r assms(3,5) zc_window_slide(2) [OF r(2)]
      by (intro exI [of _ "b + 1"] exI [of _ "svc_ioq_zc_window_slide (zc_ooo_bits r) ?span"] exI [of _ "zc_window_drops r"])
        (auto simp: n zc_account_def sl)
  next
    case False
    have b: "W < a" "b < W + 2 ^ 31" using False assms(3) r(3) by simp_all
    have "unat (of_nat a - of_nat W :: u32) = a - W" using b assms(2) by (intro unat_of_nat_diff) simp_all
    then have ne: "(of_nat a :: u32) \<noteq> of_nat W" using b(1) by auto
    from zc_record [OF r(1,2) b(1) assms(2) b(2)] obtain bits where
      bits: "svc_ioq_zc_record (of_nat a) (of_nat b) r =
          r\<lparr>zc_ooo_bits := bits, zc_window_drops := zc_window_drops r + (if b < W + SVC_ZC_ACK_WINDOW then 0 else 1)\<rparr>"
        "length bits = SVC_ZC_ACK_WORDS"
        "\<And>k. zc_window bits k \<longleftrightarrow> zc_window (zc_ooo_bits r) k \<or> k < SVC_ZC_ACK_WINDOW \<and> a \<le> W + k \<and> W + k \<le> b" by blast
    have n: "zc_note r (of_nat a) (of_nat b) = r\<lparr>zc_acked := of_nat W, zc_ooo_bits := bits,
        zc_window_drops := zc_window_drops r + (if b < W + SVC_ZC_ACK_WINDOW then 0 else 1)\<rparr>"
      using lt False ne r(1) bits(1) by (simp add: zc_note_def)
    have "zc_listed W (C \<union> {a..b}) (zc_note r (of_nat a) (of_nat b))" if "b < W + SVC_ZC_ACK_WINDOW" "zc_listed W C r"
      using that b by (auto simp: n zc_listed_def bits(3))
    then show ?thesis
      using r assms(2,3) bits(2) win
      by (intro exI [of _ W] exI [of _ bits] exI [of _ "zc_window_drops r + (if b < W + SVC_ZC_ACK_WINDOW then 0 else 1)"])
        (auto simp: n zc_account_def bits(3))
  qed
qed

lemma zc_advance_ok:
  assumes "zc_account W N C r" "a \<le> b" "b < N" "N < a + 2 ^ 31" "W \<le> b"
  shows "\<exists>W' bits d. svc_ioq_zc_absorb_ooo (zc_note r (of_nat a) (of_nat b)) =
      r\<lparr>zc_acked := of_nat W', zc_ooo_bits := bits, zc_window_drops := d\<rparr> \<and> W \<le> W' \<and> d \<in> {zc_window_drops r, zc_window_drops r + 1} \<and>
    zc_account W' N (C \<union> {a..b}) (svc_ioq_zc_absorb_ooo (zc_note r (of_nat a) (of_nat b))) \<and>
    (d = zc_window_drops r \<longrightarrow> zc_exact W C r \<longrightarrow>
      zc_exact W' (C \<union> {a..b}) (svc_ioq_zc_absorb_ooo (zc_note r (of_nat a) (of_nat b))))"
proof -
  define n where "n = zc_note r (of_nat a) (of_nat b)"
  obtain W1 bits1 d where n: "n = r\<lparr>zc_acked := of_nat W1, zc_ooo_bits := bits1, zc_window_drops := d\<rparr>" "W \<le> W1" "d \<in> {zc_window_drops r, zc_window_drops r + 1}"
      "zc_account W1 N (C \<union> {a..b}) n" "d = zc_window_drops r \<longrightarrow> zc_listed W C r \<longrightarrow> zc_listed W1 (C \<union> {a..b}) n"
    using zc_note_ok [OF assms, folded n_def] by (elim exE conjE)
  then have n1: "zc_acked n = of_nat W1" "length (zc_ooo_bits n) = SVC_ZC_ACK_WORDS" by (simp_all add: zc_account_def)
  obtain k bits where m: "svc_ioq_zc_absorb_ooo n = n\<lparr>zc_acked := of_nat (W1 + k), zc_ooo_bits := bits\<rparr>"
      "length bits = SVC_ZC_ACK_WORDS" "\<forall>j < k. zc_window (zc_ooo_bits n) j" "\<not> zc_window (zc_ooo_bits n) k"
      "\<forall>j. zc_window bits j \<longleftrightarrow> zc_window (zc_ooo_bits n) (j + k)"
    using zc_absorb [OF n1] by blast
  have sub: "{..<W1 + k} \<subseteq> C \<union> {a..b}"
  proof
    fix c assume "c \<in> {..<W1 + k}"
    then have "c \<in> {..<W1} \<or> (\<exists>j < k. c = W1 + j)" by (cases "c < W1") (auto intro: exI [of _ "c - W1"])
    then show "c \<in> C \<union> {a..b}" using n(4) m(3) unfolding zc_account_def by blast
  qed
  then have "W1 + k \<le> N" using n(4) unfolding zc_account_def by (metis dual_order.trans lessThan_subset_iff)
  then have "zc_account (W1 + k) N (C \<union> {a..b}) (svc_ioq_zc_absorb_ooo n)"
    using n(4) m(1,2,5) sub by (auto simp: zc_account_def ac_simps)
  moreover have "zc_exact (W1 + k) (C \<union> {a..b}) (svc_ioq_zc_absorb_ooo n)" if "zc_listed W1 (C \<union> {a..b}) n"
  proof -
    have "c < W1 + k \<or> c \<noteq> W1 + k \<and> zc_window bits (c - (W1 + k))" if "c \<in> C \<union> {a..b}" for c
      using that \<open>zc_listed W1 (C \<union> {a..b}) n\<close> m(4,5) by (cases "c < W1 + k") (auto simp: zc_listed_def)
    then have "W1 + k \<notin> C \<union> {a..b} \<and> (\<forall>c \<in> C \<union> {a..b}. c < W1 + k \<or> zc_window bits (c - (W1 + k)))" by blast
    then show ?thesis by (simp add: zc_exact_def m(1))
  qed
  moreover have "zc_exact W C r \<longrightarrow> zc_listed W C r" by (simp add: zc_exact_def zc_listed_def)
  ultimately show ?thesis
    unfolding n_def [symmetric] using n m(1)
    by (intro exI [of _ "W1 + k"] exI [of _ bits] exI [of _ d]) auto
qed

text \<open>Harvesting takes exactly the replies that are done off the queue.\<close>

lemma zc_harvest_loop:
  assumes "distinct q" "distinct (zcq r)"
  defines "D \<equiv> filter (svc_ioq_zc_xioq_done r) q"
  shows "svc_ioq_zc_harvest_loop q r h n =
    (n + length D, h @ D,
     r\<lparr>zcq := filter (\<lambda>i. i \<notin> set D) (zcq r), zc_inflight := zc_inflight r - of_nat (length D),
       zc_ioqs := (\<lambda>i. if i \<in> set D then (zc_ioqs r i)\<lparr>zc_outstanding := 0\<rparr> else zc_ioqs r i)\<rparr>)"
  unfolding D_def using assms(1,2)
proof (induction q arbitrary: r h n)
  case (Cons i q)
  let ?r = "r\<lparr>zcq := remove1 i (zcq r), zc_inflight := zc_inflight r - 1,
    zc_ioqs := (zc_ioqs r)(i := (zc_ioqs r i)\<lparr>zc_outstanding := 0\<rparr>)\<rparr>"
  have f: "filter (svc_ioq_zc_xioq_done ?r) q = filter (svc_ioq_zc_xioq_done r) q"
    using Cons.prems(1) by (intro filter_cong) (auto simp: svc_ioq_zc_xioq_done_def)
  show ?case
  proof (cases "svc_ioq_zc_xioq_done r i")
    case True
    have "filter (\<lambda>j. j \<notin> set (filter (svc_ioq_zc_xioq_done r) q)) (remove1 i (zcq r)) =
        filter (\<lambda>j. j \<notin> set (filter (svc_ioq_zc_xioq_done r) (i # q))) (zcq r)"
      using True Cons.prems(2) by (auto simp: distinct_remove1_removeAll removeAll_filter_not_eq intro!: filter_cong)
    moreover have "zc_inflight r - 1 - of_nat k = zc_inflight r - of_nat (Suc k)" for k by simp
    ultimately show ?thesis
      using True Cons.IH [of ?r "h @ [i]" "n + 1"] Cons.prems f by (auto simp: fun_eq_iff)
  next
    case False
    then show ?thesis using Cons by simp
  qed
qed (simp add: fun_eq_iff)

section \<open>Replies and their cookies\<close>

text \<open>
  \<open>ck i\<close> are the cookies of reply \<open>i\<close>.  On the queue, some of them are not below the watermark; the counters
  of the reply give the end of their range.
\<close>

definition zc_queued :: "nat \<Rightarrow> nat \<Rightarrow> (nat \<Rightarrow> nat set) \<Rightarrow> rpc_dplx_rec \<Rightarrow> bool" where
  "zc_queued W N ck r \<longleftrightarrow> distinct (zcq r) \<and> (\<forall>i \<in> set (zcq r). \<exists>hi. ck i \<subseteq> {..<hi} \<and> W < hi \<and> hi \<le> N \<and>
     zc_cookie_lo (zc_ioqs r i) + zc_outstanding (zc_ioqs r i) = of_nat hi)"

definition zc_kept :: "nat \<Rightarrow> nat set \<Rightarrow> (nat \<Rightarrow> nat set) \<Rightarrow> bool \<Rightarrow> rpc_dplx_rec \<Rightarrow> bool" where
  "zc_kept N C ck lost r \<longleftrightarrow> (\<exists>W. zc_account W N C r \<and> (\<not> lost \<longrightarrow> zc_exact W C r) \<and> zc_queued W N ck r)"

lemma zc_done_iff:
  assumes "zc_acked r = of_nat W" "W \<le> N" "N < V + 2 ^ 31" "V < hi" "hi \<le> N" "V \<le> W"
    and "zc_cookie_lo (zc_ioqs r i) + zc_outstanding (zc_ioqs r i) = of_nat hi"
  shows "svc_ioq_zc_xioq_done r i \<longleftrightarrow> zc_outstanding (zc_ioqs r i) = 0 \<or> hi \<le> W"
  using ZC_COOKIE_nat(2) [of W hi] assms by (auto simp: svc_ioq_zc_xioq_done_def)

lemma zc_complete:
  assumes k: "zc_kept N C ck lost r" and ab: "a \<le> b" "b < N" "N < a + 2 ^ 31"
    and out: "\<forall>i \<in> set (zcq r). zc_outstanding (zc_ioqs r i) \<noteq> 0"
    and c: "svc_ioq_zc_complete_locked r (of_nat a) (of_nat b) h = (n, h', r')"
  shows "zc_kept N (C \<union> {a..b}) ck (lost \<or> zc_window_drops r' \<noteq> zc_window_drops r) r' \<and>
    (\<exists>D. h' = h @ D \<and> n = length D \<and> zcq r' = filter (\<lambda>i. i \<notin> set D) (zcq r) \<and> (\<forall>i \<in> set D. ck i \<subseteq> C \<union> {a..b})) \<and>
    zlog r' = zlog r \<and> (\<forall>i. i \<notin> set (zcq r) \<or> i \<in> set (zcq r') \<longrightarrow> zc_ioqs r' i = zc_ioqs r i) \<and>
    zc_next_cookie r' = zc_next_cookie r \<and> zc_window_drops r' \<in> {zc_window_drops r, zc_window_drops r + 1}"
proof -
  obtain W where W: "zc_account W N C r" "\<not> lost \<longrightarrow> zc_exact W C r" "zc_queued W N ck r"
    using k by (auto simp: zc_kept_def)
  have w: "W \<le> N" "N < W + 2 ^ 31" "{..<W} \<subseteq> C" "zc_acked r = of_nat W" using W(1) by (auto simp: zc_account_def)
  have lt: "\<not> ZC_COOKIE_LT (of_nat b) (of_nat a)" "ZC_COOKIE_LT (of_nat b) (zc_acked r) \<longleftrightarrow> b < W"
    using ab w ZC_COOKIE_nat(1) [of b a] ZC_COOKIE_nat(1) [of b W] by auto
  show ?thesis
  proof (cases "b < W")
    case True
    then have "(n, h', r') = (0, h, r)" using c lt by (simp add: complete_locked_stages)
    moreover have "C \<union> {a..b} = C" using True w(3) by auto
    ultimately show ?thesis using W by (auto simp: zc_kept_def)
  next
    case False
    define m where "m = svc_ioq_zc_absorb_ooo (zc_note r (of_nat a) (of_nat b))"
    obtain V bits d where m: "m = r\<lparr>zc_acked := of_nat V, zc_ooo_bits := bits, zc_window_drops := d\<rparr>" "W \<le> V"
        "d \<in> {zc_window_drops r, zc_window_drops r + 1}"
        "zc_account V N (C \<union> {a..b}) m" "d = zc_window_drops r \<longrightarrow> zc_exact W C r \<longrightarrow> zc_exact V (C \<union> {a..b}) m"
      using zc_advance_ok [OF W(1) ab leI [OF False], folded m_def] by (elim exE conjE)
    define D where "D = filter (svc_ioq_zc_xioq_done m) (zcq r)"
    have q: "distinct (zcq r)" "zcq m = zcq r" "zc_ioqs m = zc_ioqs r" "zlog m = zlog r" "zc_acked m = of_nat V"
        "zc_window_drops m = d" "zc_next_cookie m = zc_next_cookie r"
      using W(3) by (simp_all add: zc_queued_def m(1))
    have v: "V \<le> N" "{..<V} \<subseteq> C \<union> {a..b}" using m(4) by (auto simp: zc_account_def)
    have r': "(n, h', r') = (length D, h @ D, m\<lparr>zcq := filter (\<lambda>i. i \<notin> set D) (zcq r), zc_inflight := zc_inflight m - of_nat (length D),
        zc_ioqs := (\<lambda>i. if i \<in> set D then (zc_ioqs r i)\<lparr>zc_outstanding := 0\<rparr> else zc_ioqs r i)\<rparr>)"
    proof -
      have "(n, h', r') = svc_ioq_zc_harvest_loop (zcq m) m h 0"
        using c lt False by (simp add: complete_locked_stages svc_ioq_zc_harvest_locked_def m_def)
      also have "\<dots> = svc_ioq_zc_harvest_loop (zcq r) m h 0" by (simp only: q(2))
      also note zc_harvest_loop [of "zcq r" m h 0, unfolded q(2), OF q(1,1)]
      finally show ?thesis unfolding D_def q(3) add_0 .
    qed
    have d: "\<exists>hi. ck i \<subseteq> {..<hi} \<and> W < hi \<and> hi \<le> N \<and> (i \<in> set D \<longleftrightarrow> hi \<le> V) \<and>
        zc_cookie_lo (zc_ioqs r i) + zc_outstanding (zc_ioqs r i) = of_nat hi" if i: "i \<in> set (zcq r)" for i
    proof -
      obtain hi where hi: "ck i \<subseteq> {..<hi}" "W < hi" "hi \<le> N"
          "zc_cookie_lo (zc_ioqs r i) + zc_outstanding (zc_ioqs r i) = of_nat hi"
        using W(3) i by (auto simp: zc_queued_def)
      with zc_done_iff [of m V N W hi i] q v w m(2) i out have "i \<in> set D \<longleftrightarrow> hi \<le> V" by (auto simp: D_def)
      with hi show ?thesis by blast
    qed
    have "zc_queued V N ck r'"
    proof -
      have "\<exists>hi. ck i \<subseteq> {..<hi} \<and> V < hi \<and> hi \<le> N \<and> zc_cookie_lo (zc_ioqs r i) + zc_outstanding (zc_ioqs r i) = of_nat hi"
        if "i \<in> set (zcq r)" "i \<notin> set D" for i using d [OF that(1)] that(2) by (meson not_less)
      then show ?thesis using r' q(1) by (simp add: zc_queued_def)
    qed
    moreover have "zc_account V N (C \<union> {a..b}) r'" using m(4) r' by (simp add: zc_account_def)
    moreover have "d = zc_window_drops r \<longrightarrow> \<not> lost \<longrightarrow> zc_exact V (C \<union> {a..b}) r'"
      using m(5) W(2) r' by (simp add: zc_exact_def)
    ultimately have "zc_kept N (C \<union> {a..b}) ck (lost \<or> zc_window_drops r' \<noteq> zc_window_drops r) r'"
      using r' q(6) by (auto simp: zc_kept_def)
    moreover have "\<forall>i \<in> set D. ck i \<subseteq> C \<union> {a..b}"
    proof
      fix i assume i: "i \<in> set D"
      then have "i \<in> set (zcq r)" by (simp add: D_def)
      from d [OF this] i have "ck i \<subseteq> {..<V}" by fastforce
      then show "ck i \<subseteq> C \<union> {a..b}" using v(2) by blast
    qed
    ultimately show ?thesis using r' q m(3) by (auto simp: D_def)
  qed
qed

text \<open>
  A control message that reports the cookies in \<open>S\<close>, out of the last \<open>2 ^ 31\<close> of the \<open>N\<close> that were sent;
  messages of another kind report nothing.
\<close>

definition zc_reports :: "nat \<Rightarrow> cmsghdr \<Rightarrow> nat set \<Rightarrow> bool" where
  "zc_reports N cmsg S \<longleftrightarrow>
     (case svc_ioq_zc_parse_serr cmsg of
        None \<Rightarrow> S = {}
      | Some (lo, hi, _) \<Rightarrow>
          (\<exists>a b. lo = of_nat a \<and> hi = of_nat b \<and> a \<le> b \<and> b < N \<and> N < a + 2 ^ 31 \<and> S = {a..b}))"

definition zc_pending :: "rpc_dplx_rec \<Rightarrow> bool" where
  "zc_pending r \<longleftrightarrow> (\<forall>i \<in> set (zcq r). zc_outstanding (zc_ioqs r i) \<noteq> 0)"

definition zc_taken :: "nat set \<Rightarrow> (nat \<Rightarrow> nat set) \<Rightarrow> nat list \<Rightarrow> nat list \<Rightarrow> nat \<Rightarrow> nat \<Rightarrow> rpc_dplx_rec \<Rightarrow> rpc_dplx_rec \<Rightarrow> bool" where
  "zc_taken C ck h h' n n' r r' \<longleftrightarrow>
     (\<exists>D. h' = h @ D \<and> n' = n + length D \<and> zcq r' = filter (\<lambda>i. i \<notin> set D) (zcq r) \<and> (\<forall>i \<in> set D. ck i \<subseteq> C)) \<and>
     zlog r' = zlog r \<and> (\<forall>i. i \<notin> set (zcq r) \<or> i \<in> set (zcq r') \<longrightarrow> zc_ioqs r' i = zc_ioqs r i) \<and>
     zc_next_cookie r' = zc_next_cookie r"

lemma zc_taken_refl: "zc_taken C ck h h n n r r"
  by (auto simp: zc_taken_def)

lemma zc_taken_trans:
  assumes "zc_taken C ck h h' n n' r r'" "zc_taken C' ck h' h'' n' n'' r' r''" "C \<subseteq> C'"
  shows "zc_taken C' ck h h'' n n'' r r''"
proof -
  obtain D where D: "h' = h @ D" "n' = n + length D" "zcq r' = filter (\<lambda>i. i \<notin> set D) (zcq r)" "\<forall>i \<in> set D. ck i \<subseteq> C"
    using assms(1) by (auto simp: zc_taken_def)
  obtain E where E: "h'' = h' @ E" "n'' = n' + length E" "zcq r'' = filter (\<lambda>i. i \<notin> set E) (zcq r')" "\<forall>i \<in> set E. ck i \<subseteq> C'"
    using assms(2) by (auto simp: zc_taken_def)
  have "zcq r'' = filter (\<lambda>i. i \<notin> set (D @ E)) (zcq r)" unfolding D(3) E(3) by (simp add: conj_commute)
  then show ?thesis
    using assms D E unfolding zc_taken_def by (intro conjI exI [of _ "D @ E"]) auto
qed

lemma zc_pending_taken: "zc_pending r \<Longrightarrow> zc_taken C ck h h' n n' r r' \<Longrightarrow> zc_pending r'"
  by (auto simp: zc_pending_def zc_taken_def)

lemma zc_kept_sock: "zc_kept N C ck lost (r\<lparr>zc_sock_ok := v\<rparr>) = zc_kept N C ck lost r"
  by (simp add: zc_kept_def zc_account_def zc_exact_def zc_queued_def)

lemma zc_drain_cmsgs:
  assumes "list_all2 (zc_reports N) cmsgs Ss" "zc_kept N C ck lost r" "zc_pending r"
    and "svc_ioq_zc_drain_cmsgs cmsgs r h n = (n', h', r')"
  shows "\<exists>k \<le> length cmsgs. zc_window_drops r' = zc_window_drops r + of_nat k \<and>
    zc_kept N (C \<union> \<Union> (set Ss)) ck (lost \<or> 0 < k) r' \<and> zc_taken (C \<union> \<Union> (set Ss)) ck h h' n n' r r'"
  using assms
proof (induction cmsgs Ss arbitrary: C lost r h n rule: list_all2_induct)
  case Nil
  then show ?case by (auto simp: zc_taken_refl intro!: exI [of _ 0])
next
  case (Cons cmsg cmsgs S Ss)
  show ?case
  proof (cases "svc_ioq_zc_parse_serr cmsg")
    case None
    then have "S = {}" "svc_ioq_zc_drain_cmsgs cmsgs r h n = (n', h', r')"
      using Cons.hyps(1) Cons.prems(3) by (simp_all add: zc_reports_def)
    with Cons.IH [OF Cons.prems(1,2)] show ?thesis by (metis UN_insert Un_empty_left Union_insert le_SucI length_Cons list.simps(15))
  next
    case (Some p)
    then obtain a b copied where p: "svc_ioq_zc_parse_serr cmsg = Some (of_nat a, of_nat b, copied)"
        "a \<le> b" "b < N" "N < a + 2 ^ 31" "S = {a..b}"
      using Cons.hyps(1) by (auto simp: zc_reports_def split: prod.splits)
    obtain k1 h1 r1 where c: "svc_ioq_zc_complete_locked r (of_nat a) (of_nat b) h = (k1, h1, r1)" by (metis prod_cases3)
    note z = zc_complete [OF Cons.prems(1) p(2-4) _ c]
    let ?l = "lost \<or> zc_window_drops r1 \<noteq> zc_window_drops r"
    let ?r = "if copied \<and> zc_sock_ok r1 then r1\<lparr>zc_sock_ok := False\<rparr> else r1"
    have t: "zc_taken (C \<union> S) ck h h1 n (n + k1) r ?r" "zc_kept N (C \<union> S) ck ?l ?r"
        "zc_window_drops ?r \<in> {zc_window_drops r, zc_window_drops r + 1}"
      using z Cons.prems(2) p(5) by (auto simp: zc_taken_def zc_pending_def zc_kept_sock)
    have "svc_ioq_zc_drain_cmsgs cmsgs ?r h1 (n + k1) = (n', h', r')"
      using Cons.prems(3) p(1) c by simp
    with Cons.IH [OF t(2) zc_pending_taken [OF Cons.prems(2) t(1)]] obtain k where
      k: "k \<le> length cmsgs" "zc_window_drops r' = zc_window_drops ?r + of_nat k"
        "zc_kept N (C \<union> S \<union> \<Union> (set Ss)) ck (?l \<or> 0 < k) r'" "zc_taken (C \<union> S \<union> \<Union> (set Ss)) ck h1 h' (n + k1) n' ?r r'"
      by blast
    define j where "j = (if zc_window_drops r1 \<noteq> zc_window_drops r then 1 else 0 :: nat)"
    have "zc_window_drops ?r = zc_window_drops r + of_nat j" using t(3) by (auto simp: j_def split: if_splits)
    moreover have "?l \<or> 0 < k \<longleftrightarrow> lost \<or> 0 < j + k" by (auto simp: j_def)
    moreover have "zc_taken (C \<union> \<Union> (set (S # Ss))) ck h h' n n' r r'"
      using zc_taken_trans [OF t(1) k(4) Un_upper1] by (simp add: Un_assoc)
    ultimately show ?thesis
      using k(1-3) by (intro exI [of _ "j + k"]) (simp add: j_def Un_assoc)
  qed
qed

lemma zc_drain_msgs: "svc_ioq_zc_drain_msgs errqueue r h n = svc_ioq_zc_drain_cmsgs (concat errqueue) r h n"
proof -
  have add: "svc_ioq_zc_drain_cmsgs cmsgs r h (m + n) =
      (case svc_ioq_zc_drain_cmsgs cmsgs r h n of (n', x) \<Rightarrow> (m + n', x))" for cmsgs r h n m
    by (induction cmsgs arbitrary: r h n) (simp_all add: add.assoc split: option.split prod.split)
  have app: "svc_ioq_zc_drain_cmsgs (xs @ ys) r h n =
      (case svc_ioq_zc_drain_cmsgs xs r h n of (n', h', r') \<Rightarrow> svc_ioq_zc_drain_cmsgs ys r' h' n')" for xs ys r h n
    by (induction xs arbitrary: r h n) (auto split: option.split prod.split)
  show ?thesis
  proof (induction errqueue arbitrary: r h n)
    case (Cons m errqueue)
    show ?case using Cons add [of m r h n 0] by (simp add: app split: prod.split)
  qed simp
qed

section \<open>A connection\<close>

text \<open>
  The record together with what it does not know: the number of zero-copy sends, the cookies the kernel has
  confirmed, the cookies of each reply, the reply that is being written, whether the last \<^verbatim>\<open>sendmsg\<close> has not been noted
  yet, and whether a report was dropped because it was too far ahead.  One reply is written at a time, to its end;
  reports may be collected by other threads at any time, also between a \<^verbatim>\<open>sendmsg\<close> and its \<^verbatim>\<open>svc_ioq_zc_note_send\<close>.  The steps are those
  of a connection that is not torn down: \<^verbatim>\<open>svc_ioq_zc_release_all\<close>, which frees what is left when the peer has not answered in
  time, is not among them.
\<close>

record zc_sys =
  zrec :: rpc_dplx_rec
  sent :: nat
  confirmed :: "nat set"
  cookies :: "nat \<Rightarrow> nat set"
  writer :: "nat option"
  unnoted :: bool
  dropped :: bool

inductive zc_step :: "zc_sys \<Rightarrow> zc_sys \<Rightarrow> bool" where
  start: "writer s = None \<Longrightarrow> xioq \<notin> set (zcq (zrec s)) \<Longrightarrow> zc_outstanding (zc_ioqs (zrec s) xioq) = 0 \<Longrightarrow>
    zc_step s (s\<lparr>writer := Some xioq, cookies := (cookies s)(xioq := {})\<rparr>)"
| send: "writer s = Some xioq \<Longrightarrow> \<not> unnoted s \<Longrightarrow> unat (zc_next_cookie (zrec s) - zc_acked (zrec s)) < 2 ^ 31 - 1 \<Longrightarrow>
    zc_step s (s\<lparr>sent := sent s + 1, cookies := (cookies s)(xioq := insert (sent s) (cookies s xioq)), unnoted := True\<rparr>)"
| note_send: "writer s = Some xioq \<Longrightarrow> unnoted s \<Longrightarrow> unat (zc_outstanding (zc_ioqs (zrec s) xioq)) < 2 ^ 32 - 1 \<Longrightarrow>
    zc_step s (s\<lparr>zrec := svc_ioq_zc_note_send xioq (zrec s), unnoted := False\<rparr>)"
| finish: "writer s = Some xioq \<Longrightarrow> \<not> unnoted s \<Longrightarrow>
    zc_step s (s\<lparr>zrec := svc_ioq_write_finish xioq (zrec s), writer := None\<rparr>)"
| drain: "zc_sock_ok (zrec s) \<or> zc_inflight (zrec s) \<noteq> 0 \<Longrightarrow> list_all2 (zc_reports (sent s)) (concat errqueue) Ss \<Longrightarrow>
    length (concat errqueue) < 2 ^ 32 \<Longrightarrow>
    zc_step s (s\<lparr>zrec := svc_ioq_zc_drain True errqueue (zrec s), confirmed := confirmed s \<union> \<Union> (set Ss),
      dropped := dropped s \<or> zc_window_drops (svc_ioq_zc_drain True errqueue (zrec s)) \<noteq> zc_window_drops (zrec s)\<rparr>)"

definition zc_init :: "rpc_dplx_rec \<Rightarrow> zc_sys" where
  "zc_init r = \<lparr>zrec = rpc_dplx_rec_init r, sent = 0, confirmed = {}, cookies = (\<lambda>_. {}), writer = None, unnoted = False, dropped = False\<rparr>"

definition zc_inv :: "zc_sys \<Rightarrow> bool" where
  "zc_inv s \<longleftrightarrow> zc_kept (sent s) (confirmed s) (cookies s) (dropped s) (zrec s) \<and> zc_pending (zrec s) \<and>
     (unnoted s \<longrightarrow> 0 < sent s) \<and> zc_next_cookie (zrec s) = of_nat (if unnoted s then sent s - 1 else sent s) \<and>
     (\<forall>i. writer s = Some i \<longrightarrow> i \<notin> set (zcq (zrec s)) \<and> cookies s i \<subseteq> {..<sent s} \<and>
       (if zc_outstanding (zc_ioqs (zrec s) i) = 0 then unnoted s \<or> cookies s i = {}
        else zc_cookie_lo (zc_ioqs (zrec s) i) + zc_outstanding (zc_ioqs (zrec s) i) = zc_next_cookie (zrec s)))"

lemma zc_inv_init: "zc_inv (zc_init r)"
proof -
  have "\<not> zc_window (replicate SVC_ZC_ACK_WORDS 0) k" for k by (auto simp: zc_window_def)
  then have "zc_account 0 0 {} (rpc_dplx_rec_init r)" "zc_exact 0 {} (rpc_dplx_rec_init r)"
      "zc_queued 0 0 (\<lambda>_. {}) (rpc_dplx_rec_init r)"
    by (simp_all add: zc_account_def zc_exact_def zc_queued_def rpc_dplx_rec_init_def)
  then show ?thesis by (auto simp: zc_inv_def zc_init_def zc_kept_def zc_pending_def rpc_dplx_rec_init_def)
qed

definition zc_frees :: "zc_sys \<Rightarrow> zc_sys \<Rightarrow> bool" where
  "zc_frees s t \<longleftrightarrow> (\<exists>ev. zlog (zrec t) = ev @ zlog (zrec s) \<and>
     (\<forall>i. Xdr_destroy i \<in> set ev \<longrightarrow> cookies t i \<subseteq> confirmed t))"

lemma zc_kept_frame:
  assumes "zc_kept N C ck lost r" "zc_pending r"
    and "zc_acked r' = zc_acked r" "zc_ooo_bits r' = zc_ooo_bits r" "zcq r' = zcq r"
    and "\<forall>i \<in> set (zcq r). zc_ioqs r' i = zc_ioqs r i \<and> ck' i = ck i"
  shows "zc_kept N C ck' lost r'" "zc_pending r'"
  using assms unfolding zc_kept_def zc_account_def zc_exact_def zc_queued_def zc_pending_def by auto

lemma zc_send_keeps:
  assumes "zc_inv s" "writer s = Some i" "\<not> unnoted s" "unat (zc_next_cookie (zrec s) - zc_acked (zrec s)) < 2 ^ 31 - 1"
  shows "zc_inv (s\<lparr>sent := sent s + 1, cookies := (cookies s)(i := insert (sent s) (cookies s i)), unnoted := True\<rparr>)"
proof -
  let ?r = "zrec s" and ?N = "sent s"
  obtain W where W: "zc_account W ?N (confirmed s) ?r" "\<not> dropped s \<longrightarrow> zc_exact W (confirmed s) ?r"
      "zc_queued W ?N (cookies s) ?r"
    using assms(1) by (auto simp: zc_inv_def zc_kept_def)
  then have w: "zc_acked ?r = of_nat W" "W \<le> ?N" "?N < W + 2 ^ 31" by (auto simp: zc_account_def)
  have n: "zc_next_cookie ?r = of_nat ?N" using assms(1,3) by (simp add: zc_inv_def)
  have "unat (of_nat ?N - of_nat W :: u32) = ?N - W" using w by (intro unat_of_nat_diff) simp_all
  then have N: "?N + 1 < W + 2 ^ 31" using assms(4) w n by simp
  have i: "i \<notin> set (zcq ?r)" "cookies s i \<subseteq> {..<?N}" using assms(1,2) by (auto simp: zc_inv_def)
  have "zc_account W (?N + 1) (confirmed s) ?r" using W(1) N by (auto simp: zc_account_def)
  moreover have "zc_queued W (?N + 1) ((cookies s)(i := insert ?N (cookies s i))) ?r"
    using W(3) i(1) unfolding zc_queued_def by (metis fun_upd_other le_SucI Suc_eq_plus1)
  ultimately show ?thesis using W(2) i assms(1,2,3) n by (auto simp: zc_inv_def zc_kept_def less_Suc_eq)
qed

lemma zc_note_keeps:
  assumes "zc_inv s" "writer s = Some i" "unnoted s" "unat (zc_outstanding (zc_ioqs (zrec s) i)) < 2 ^ 32 - 1"
  shows "zc_inv (s\<lparr>zrec := svc_ioq_zc_note_send i (zrec s), unnoted := False\<rparr>)"
proof -
  let ?r = "zrec s" and ?N = "sent s"
  have n: "0 < ?N" "zc_next_cookie ?r = of_nat (?N - 1)" using assms(1,3) by (simp_all add: zc_inv_def)
  then have n1: "zc_next_cookie ?r + 1 = of_nat ?N" by (simp add: of_nat_diff)
  have i: "i \<notin> set (zcq ?r)" "cookies s i \<subseteq> {..<?N}" using assms(1,2) by (auto simp: zc_inv_def)
  let ?o = "zc_outstanding (zc_ioqs ?r i)"
  have "unat (?o + 1) = unat ?o + 1" using assms(4) by (simp add: unat_word_ariths)
  then have "?o + 1 \<noteq> 0" by auto
  let ?s = "svc_ioq_zc_note_send i ?r"
  have q: "zcq ?s = zcq ?r" "zc_acked ?s = zc_acked ?r" "zc_ooo_bits ?s = zc_ooo_bits ?r" "zc_next_cookie ?s = of_nat ?N"
      "\<And>j. j \<noteq> i \<Longrightarrow> zc_ioqs ?s j = zc_ioqs ?r j" "zc_outstanding (zc_ioqs ?s i) = ?o + 1"
    using n1 by (simp_all add: svc_ioq_zc_note_send_def)
  have lo: "zc_cookie_lo (zc_ioqs ?s i) + zc_outstanding (zc_ioqs ?s i) = of_nat ?N"
  proof (cases "?o = 0")
    case True
    then show ?thesis using n1 by (simp add: svc_ioq_zc_note_send_def)
  next
    case False
    then have "zc_cookie_lo (zc_ioqs ?r i) + ?o = zc_next_cookie ?r" using assms(1,2) by (auto simp: zc_inv_def)
    then have "zc_cookie_lo (zc_ioqs ?r i) + (?o + 1) = of_nat ?N" using n1 by (simp add: add.assoc [symmetric])
    then show ?thesis using False by (simp add: svc_ioq_zc_note_send_def)
  qed
  have "zc_kept ?N (confirmed s) (cookies s) (dropped s) ?s" "zc_pending ?s"
    using zc_kept_frame [of ?N "confirmed s" "cookies s" "dropped s" ?r ?s "cookies s"] assms(1) i(1) q by (metis zc_inv_def)+
  then show ?thesis
    using i lo q(1,4,6) \<open>?o + 1 \<noteq> 0\<close> assms(2) by (auto simp: zc_inv_def)
qed

lemma zc_finish_keeps:
  assumes "zc_inv s" "writer s = Some i" "\<not> unnoted s"
  defines "t \<equiv> s\<lparr>zrec := svc_ioq_write_finish i (zrec s), writer := None\<rparr>"
  shows "zc_inv t \<and> zc_frees s t"
proof -
  let ?r = "zrec s" and ?N = "sent s"
  obtain W where W: "zc_account W ?N (confirmed s) ?r" "\<not> dropped s \<longrightarrow> zc_exact W (confirmed s) ?r"
      "zc_queued W ?N (cookies s) ?r"
    using assms(1) by (auto simp: zc_inv_def zc_kept_def)
  then have w: "zc_acked ?r = of_nat W" "W \<le> ?N" "?N < W + 2 ^ 31" "{..<W} \<subseteq> confirmed s" by (auto simp: zc_account_def)
  have i: "i \<notin> set (zcq ?r)" "cookies s i \<subseteq> {..<?N}" and o: "zc_outstanding (zc_ioqs ?r i) = 0 \<Longrightarrow> cookies s i = {}"
      "zc_outstanding (zc_ioqs ?r i) \<noteq> 0 \<Longrightarrow> zc_cookie_lo (zc_ioqs ?r i) + zc_outstanding (zc_ioqs ?r i) = of_nat ?N"
    using assms(1-3) by (auto simp: zc_inv_def split: if_splits)
  have nx: "zc_next_cookie (svc_ioq_write_finish i ?r) = of_nat ?N" using assms(1,3) by (simp add: svc_ioq_write_finish_def zc_inv_def)
  have dn: "svc_ioq_zc_xioq_done ?r i \<longleftrightarrow> zc_outstanding (zc_ioqs ?r i) = 0 \<or> ?N \<le> W"
    using o(2) w ZC_COOKIE_nat(2) [of W ?N] by (auto simp: svc_ioq_zc_xioq_done_def)
  show ?thesis
  proof (cases "svc_ioq_zc_xioq_done ?r i")
    case False
    then have n: "zc_outstanding (zc_ioqs ?r i) \<noteq> 0" "W < ?N" using dn by auto
    have f: "svc_ioq_write_finish i ?r = ?r\<lparr>zcq := zcq ?r @ [i], zc_inflight := zc_inflight ?r + 1\<rparr>"
      using False n(1) by (simp add: svc_ioq_write_finish_def word_gt_0)
    have "zc_queued W ?N (cookies s) (svc_ioq_write_finish i ?r)"
      using W(3) i o(2) [OF n(1)] n(2) unfolding f zc_queued_def by auto
    moreover have "zc_account W ?N (confirmed s) (svc_ioq_write_finish i ?r)" "\<not> dropped s \<longrightarrow> zc_exact W (confirmed s) (svc_ioq_write_finish i ?r)"
      using W(1,2) unfolding f zc_account_def zc_exact_def by simp_all
    moreover have "zc_pending (svc_ioq_write_finish i ?r)"
      using assms(1) n(1) unfolding f zc_inv_def zc_pending_def by simp
    ultimately show ?thesis unfolding t_def zc_inv_def zc_kept_def zc_frees_def using f nx assms(3) by auto
  next
    case True
    have f: "svc_ioq_write_finish i ?r = ?r\<lparr>zc_ioqs := (zc_ioqs ?r)(i := (zc_ioqs ?r i)\<lparr>zc_outstanding := 0\<rparr>),
        zlog := Xdr_destroy i # Svc_release # zlog ?r\<rparr>"
      using True by (simp add: svc_ioq_write_finish_def)
    have "cookies s i \<subseteq> confirmed s" using True dn i(2) o(1) w(2,4) by fastforce
    moreover have "zc_kept ?N (confirmed s) (cookies s) (dropped s) (svc_ioq_write_finish i ?r)"
        "zc_pending (svc_ioq_write_finish i ?r)"
      using assms(1) i(1) zc_kept_frame [of ?N "confirmed s" "cookies s" "dropped s" ?r "svc_ioq_write_finish i ?r" "cookies s"]
      unfolding zc_inv_def f by auto
    ultimately show ?thesis unfolding t_def zc_inv_def zc_frees_def using f nx assms(3) by (auto intro!: exI [of _ "[Xdr_destroy i, Svc_release]"])
  qed
qed

lemma zc_drain_keeps:
  assumes "zc_inv s" "zc_sock_ok (zrec s) \<or> zc_inflight (zrec s) \<noteq> 0"
    "list_all2 (zc_reports (sent s)) (concat errqueue) Ss" "length (concat errqueue) < 2 ^ 32"
  defines "t \<equiv> s\<lparr>zrec := svc_ioq_zc_drain True errqueue (zrec s), confirmed := confirmed s \<union> \<Union> (set Ss),
      dropped := dropped s \<or> zc_window_drops (svc_ioq_zc_drain True errqueue (zrec s)) \<noteq> zc_window_drops (zrec s)\<rparr>"
  shows "zc_inv t \<and> zc_frees s t"
proof -
  let ?r = "zrec s" and ?C = "confirmed s \<union> \<Union> (set Ss)"
  obtain n h r' where d: "svc_ioq_zc_drain_cmsgs (concat errqueue) ?r [] 0 = (n, h, r')" by (metis prod_cases3)
  obtain k where k: "k \<le> length (concat errqueue)" "zc_window_drops r' = zc_window_drops ?r + of_nat k"
      "zc_kept (sent s) ?C (cookies s) (dropped s \<or> 0 < k) r'" "zc_taken ?C (cookies s) [] h 0 n ?r r'"
    using zc_drain_cmsgs [OF assms(3) _ _ d] assms(1) unfolding zc_inv_def by blast
  let ?z = "svc_ioq_zc_drain True errqueue ?r"
  define ev where "ev = (if n > 0 then replicate n Svc_release @ rev (map Xdr_destroy h) else [])"
  have z: "?z = r'\<lparr>zlog := ev @ zlog r'\<rparr>"
    using assms(2) d by (auto simp: svc_ioq_zc_drain_def svc_ioq_zc_drain_collect_def zc_drain_msgs ev_def
        svc_ioq_zc_drain_release_def svc_ioq_zc_destroy_harvested_def)
  have t: "\<forall>i \<in> set h. cookies s i \<subseteq> ?C" "set (zcq r') \<subseteq> set (zcq ?r)" "zlog r' = zlog ?r"
      "\<And>i. i \<notin> set (zcq ?r) \<Longrightarrow> zc_ioqs r' i = zc_ioqs ?r i" "zc_next_cookie r' = zc_next_cookie ?r"
    using k(4) by (auto simp: zc_taken_def)
  have "unat (of_nat k :: u32) = k" using k(1) assms(4) by (intro unat_of_nat_small) simp
  then have "(of_nat k :: u32) = 0 \<longleftrightarrow> k = 0" by auto
  then have "0 < k \<longleftrightarrow> zc_window_drops ?z \<noteq> zc_window_drops ?r" using k(2) z by simp
  then have "zc_kept (sent s) ?C (cookies s) (dropped t) ?z" "zc_pending ?z"
    using zc_kept_frame [OF k(3), of ?z "cookies s"] zc_pending_taken [OF _ k(4)] assms(1) z by (auto simp: t_def zc_inv_def)
  moreover have "zc_frees s t" using t(1,3) z by (auto simp: zc_frees_def t_def ev_def)
  ultimately show ?thesis
    using assms(1) t(2,4,5) z by (auto simp: zc_inv_def t_def)
qed

lemma zc_step_keeps: "zc_step s t \<Longrightarrow> zc_inv s \<Longrightarrow> zc_inv t \<and> zc_frees s t"
proof (induction rule: zc_step.induct)
  case (start s xioq)
  then show ?case
    using zc_kept_frame [of "sent s" "confirmed s" "cookies s" "dropped s" "zrec s" "zrec s" "(cookies s)(xioq := {})"]
    by (auto simp: zc_inv_def zc_frees_def)
next
  case (send s xioq)
  then show ?case
    using zc_send_keeps by (auto simp: zc_frees_def)
next
  case (note_send s xioq)
  then show ?case
    using zc_note_keeps by (auto simp: zc_frees_def svc_ioq_zc_note_send_def)
next
  case (finish s xioq)
  then show ?case by (intro zc_finish_keeps)
next
  case (drain s errqueue Ss)
  then show ?case by (intro zc_drain_keeps)
qed

lemma zc_run_inv: "zc_step\<^sup>*\<^sup>* (zc_init r) s \<Longrightarrow> zc_inv s"
  by (induction rule: rtranclp_induct) (auto simp: zc_inv_init dest: zc_step_keeps)

section \<open>Properties\<close>

text \<open>A connection that has sent reply 7 in two parts.\<close>

definition zc_blank :: rpc_dplx_rec where
  "zc_blank = \<lparr>zcq = [], zc_inflight = 0, zc_next_cookie = 0, zc_acked = 0, zc_ooo_bits = [], zc_window_drops = 0,
     zc_sock_ok = False, zc_ioqs = (\<lambda>_. \<lparr>zc_cookie_lo = 0, zc_outstanding = 0\<rparr>), zlog = []\<rparr>"

definition cmsg_demo :: "u32 \<Rightarrow> u32 \<Rightarrow> cmsghdr" where
  "cmsg_demo lo hi = \<lparr>cmsg_level = SOL_IP, cmsg_type = IP_RECVERR, cmsg_len = 48, ee_origin = SO_EE_ORIGIN_ZEROCOPY,
     ee_code = 0, ee_info = lo, ee_data = hi\<rparr>"

definition rec_demo :: rpc_dplx_rec where
  "rec_demo = svc_ioq_write_finish 7 (svc_ioq_zc_note_send 7 (svc_ioq_zc_note_send 7 (rpc_dplx_rec_init zc_blank)))"

definition sys_demo :: zc_sys where
  "sys_demo = \<lparr>zrec = rec_demo, sent = 2, confirmed = {}, cookies = (\<lambda>_. {})(7 := {0, 1}), writer = None, unnoted = False, dropped = False\<rparr>"

lemma sys_demo_run: "zc_step\<^sup>*\<^sup>* (zc_init zc_blank) sys_demo"
proof -
  let ?r0 = "rpc_dplx_rec_init zc_blank"
  let ?s0 = "zc_init zc_blank\<lparr>writer := Some 7, cookies := (cookies (zc_init zc_blank))(7 := {})\<rparr>"
  let ?t1 = "?s0\<lparr>sent := 1, cookies := (cookies ?s0)(7 := {0}), unnoted := True\<rparr>"
  let ?s1 = "?t1\<lparr>zrec := svc_ioq_zc_note_send 7 ?r0, unnoted := False\<rparr>"
  let ?t2 = "?s1\<lparr>sent := 2, cookies := (cookies ?s1)(7 := {1, 0}), unnoted := True\<rparr>"
  let ?s2 = "?t2\<lparr>zrec := svc_ioq_zc_note_send 7 (svc_ioq_zc_note_send 7 ?r0), unnoted := False\<rparr>"
  have "zc_step (zc_init zc_blank) ?s0"
    by (rule zc_step.start) (simp_all add: zc_init_def rpc_dplx_rec_init_def zc_blank_def)
  moreover have "zc_step ?s0 ?t1"
    using zc_step.send [of ?s0 7] by (simp add: zc_init_def rpc_dplx_rec_init_def zc_blank_def)
  moreover have "zc_step ?t1 ?s1"
    using zc_step.note_send [of ?t1 7] by (simp add: zc_init_def rpc_dplx_rec_init_def zc_blank_def)
  moreover have "zc_step ?s1 ?t2"
    using zc_step.send [of ?s1 7] by (simp add: zc_init_def rpc_dplx_rec_init_def zc_blank_def svc_ioq_zc_note_send_def numeral_2_eq_2 [symmetric])
  moreover have "zc_step ?t2 ?s2"
    using zc_step.note_send [of ?t2 7] by (simp add: zc_init_def rpc_dplx_rec_init_def zc_blank_def svc_ioq_zc_note_send_def)
  moreover have "zc_step ?s2 sys_demo"
    using zc_step.finish [of ?s2 7] by (simp add: sys_demo_def rec_demo_def zc_init_def insert_commute)
  ultimately show ?thesis by (meson rtranclp.rtrancl_into_rtrancl rtranclp.rtrancl_refl)
qed

lemma sys_demo_drain:
  "zc_step sys_demo (sys_demo\<lparr>zrec := svc_ioq_zc_drain True [[cmsg_demo 1 1], [cmsg_demo 0 0]] rec_demo, confirmed := {0, 1}\<rparr>)"
proof -
  have l: "list_all2 (zc_reports 2) [cmsg_demo 1 1, cmsg_demo 0 0] [{1}, {0}]"
  proof -
    have "zc_reports 2 (cmsg_demo (of_nat a) (of_nat a)) {a}" if "a < 2" for a
      using that unfolding zc_reports_def cmsg_demo_def svc_ioq_zc_parse_serr_def by (simp add: exI [of _ a])
    from this [of 0] this [of 1] show ?thesis by simp
  qed
  have "zc_inflight rec_demo \<noteq> 0" by code_simp
  moreover have "zc_window_drops (svc_ioq_zc_drain True [[cmsg_demo 1 1], [cmsg_demo 0 0]] rec_demo) = zc_window_drops rec_demo"
    by code_simp
  ultimately show ?thesis
    using zc_step.drain [of sys_demo "[[cmsg_demo 1 1], [cmsg_demo 0 0]]" "[{1}, {0}]"] l
    by (simp add: sys_demo_def insert_commute)
qed

text \<open>
  C30: The completion window moves as one bitmap of 256 bits: after \<^verbatim>\<open>svc_ioq_zc_window_slide\<close> by any 32-bit
  distance, a bit is set exactly when the bit that far ahead was set before; nothing is carried over wrongly
  between its words and nothing from beyond the window comes in.
\<close>

theorem zc_window_slide_exact:
  assumes "length ooo = SVC_ZC_ACK_WORDS" "k < SVC_ZC_ACK_WINDOW"
  shows "svc_ioq_zc_bit_test (svc_ioq_zc_window_slide ooo n) (of_nat k) \<longleftrightarrow>
    k + unat n < SVC_ZC_ACK_WINDOW \<and> svc_ioq_zc_bit_test ooo (of_nat (k + unat n))"
proof -
  have t: "svc_ioq_zc_bit_test bits (of_nat j) \<longleftrightarrow> zc_window bits j" if "j < SVC_ZC_ACK_WINDOW" for bits j
    using zc_bit_test [of "of_nat j" bits] unat_of_nat_small [of j, where ?'a = 32] that by simp
  show ?thesis
    using t [OF assms(2)] t [of "k + unat n" ooo] zc_window_slide(1) [OF assms(1), of n k] by (metis zc_window_def)
qed

theorem zc_window_slide_exact_witness:
  "svc_ioq_zc_bit_test (svc_ioq_zc_window_slide [0, 0, 1, 0] 70) (of_nat 58) \<and>
   \<not> svc_ioq_zc_bit_test (svc_ioq_zc_window_slide [0, 0, 1, 0] 70) (of_nat 200)"
proof -
  have "svc_ioq_zc_bit_test [0, 0, 1, 0] 128" by code_simp
  then show ?thesis using zc_window_slide_exact [of "[0, 0, 1, 0]" 58 70] zc_window_slide_exact [of "[0, 0, 1, 0]" 200 70] by simp
qed

text \<open>
  C4: Until the connection is torn down, however sends, ends of replies and reports of the kernel follow each other,
  and in whatever order the reports come, a reply is freed only when the kernel has confirmed every one of its zero-copy sends: the
  watermark never passes a cookie that was not reported.
\<close>

theorem zc_frees_only_confirmed:
  assumes "zc_step\<^sup>*\<^sup>* (zc_init r) s" "zc_step s t"
    and "zlog (zrec t) = ev @ zlog (zrec s)" "Xdr_destroy i \<in> set ev"
  shows "cookies t i \<subseteq> confirmed t"
  using zc_step_keeps [OF assms(2) zc_run_inv [OF assms(1)]] assms(3,4) by (auto simp: zc_frees_def)

theorem zc_frees_only_confirmed_witness:
  "\<exists>s t. zc_step\<^sup>*\<^sup>* (zc_init zc_blank) s \<and> zc_step s t \<and> Xdr_destroy 7 \<in> set (zlog (zrec t)) \<and> zlog (zrec s) = [] \<and>
     cookies t 7 = {0, 1} \<and> cookies t 7 \<subseteq> confirmed t"
proof -
  let ?t = "sys_demo\<lparr>zrec := svc_ioq_zc_drain True [[cmsg_demo 1 1], [cmsg_demo 0 0]] rec_demo, confirmed := {0, 1}\<rparr>"
  have "zlog rec_demo = []" by code_simp
  then have l: "zlog (zrec sys_demo) = []" by (simp add: sys_demo_def)
  have "Xdr_destroy 7 \<in> set (zlog (svc_ioq_zc_drain True [[cmsg_demo 1 1], [cmsg_demo 0 0]] rec_demo))" by code_simp
  then have d: "Xdr_destroy 7 \<in> set (zlog (zrec ?t))" by simp
  have "cookies ?t 7 = {0, 1}" by (simp add: sys_demo_def)
  with zc_frees_only_confirmed [OF sys_demo_run sys_demo_drain _ d] sys_demo_run sys_demo_drain l d show ?thesis by (metis append_Nil2)
qed

text \<open>
  C29: No reply is stranded: as long as no report was too far ahead for the window, once the kernel has
  confirmed all sends and no reply is being written, the queue of deferred replies is empty.
\<close>

theorem zc_confirmed_all_freed:
  assumes "zc_step\<^sup>*\<^sup>* (zc_init r) s" "\<not> dropped s" "writer s = None" "confirmed s = {..<sent s}"
  shows "zcq (zrec s) = []"
proof -
  obtain W where W: "zc_account W (sent s) (confirmed s) (zrec s)" "zc_exact W (confirmed s) (zrec s)"
      "zc_queued W (sent s) (cookies s) (zrec s)"
    using zc_run_inv [OF assms(1)] assms(2) by (auto simp: zc_inv_def zc_kept_def)
  then have "W = sent s" using assms(4) by (auto simp: zc_account_def zc_exact_def)
  with W(3) show ?thesis by (cases "zcq (zrec s)") (auto simp: zc_queued_def)
qed

theorem zc_confirmed_all_freed_witness:
  "zcq (zrec sys_demo) = [7] \<and>
   zcq (svc_ioq_zc_drain True [[cmsg_demo 1 1], [cmsg_demo 0 0]] rec_demo) = []"
proof -
  let ?t = "sys_demo\<lparr>zrec := svc_ioq_zc_drain True [[cmsg_demo 1 1], [cmsg_demo 0 0]] rec_demo, confirmed := {0, 1}\<rparr>"
  have "zcq rec_demo = [7]" by code_simp
  moreover have "zc_step\<^sup>*\<^sup>* (zc_init zc_blank) ?t"
    using sys_demo_run sys_demo_drain by (rule rtranclp.rtrancl_into_rtrancl)
  then have "zcq (zrec ?t) = []"
    by (rule zc_confirmed_all_freed) (auto simp: sys_demo_def)
  ultimately show ?thesis by (simp add: sys_demo_def)
qed

end
