(* ===== verification/Svc_Flush.thy ===== *)
theory Svc_Flush
  imports Ioq_Vec Svc_Zc
begin

text \<open>
  Sending replies on a stream connection, the second half of \<^verbatim>\<open>src/svc_ioq.c\<close> (as built without TLS).  A reply is a
  buffer queue with a few counters; \<^verbatim>\<open>svc_ioq_flushv\<close> sends it as a record (RFC 5531, section 11): fragments
  that start with a four-byte header.  The wire \<open>w\<close> is the list of the bytes that the kernel has taken.  The lemmas show
  that a message of one fragment is put on the wire byte by byte as its record, whatever part of the offered
  bytes each call takes, and that the function returns.
\<close>

section \<open>State\<close>

record svc_xioq =
  xstream :: xdr_ioq
  write_start :: u32
  frag_hdr_bytes_sent :: nat
  has_blocked :: bool

record svc_params =
  tcp_zerocopy_enabled :: bool
  tcp_zerocopy_min_bytes :: u32
  thrd_max :: u32

abbreviation LAST_FRAG :: u32 where "LAST_FRAG \<equiv> 0x80000000"
abbreviation PRESUMED_UIO_MAXIOV :: nat where "PRESUMED_UIO_MAXIOV \<equiv> 1024"
abbreviation EWOULDBLOCK :: u32 where "EWOULDBLOCK \<equiv> 11"
abbreviation ENOBUFS :: u32 where "ENOBUFS \<equiv> 105"

definition LAST_FRAG_XDR_UNITS :: u32 where
  "LAST_FRAG_XDR_UNITS = (LAST_FRAG - 1) AND NOT (4 - 1)"

text \<open>
  What one call of \<^verbatim>\<open>sendmsg\<close> does: take a number of the bytes offered, or fail with an \<^verbatim>\<open>errno\<close>.  The calls
  that are made are answered from a list.
\<close>

datatype send_result = Sent nat | Send_errno u32

section \<open>Sending one reply\<close>

text \<open>The bytes of the current fragment that are still to be sent, and its mark.\<close>

definition svc_ioq_flushv_frag :: "u32 \<Rightarrow> u32 \<Rightarrow> u32 \<times> u32" where
  "svc_ioq_flushv_frag endpos start =
     (if endpos > 2 * LAST_FRAG_XDR_UNITS then
        if start < LAST_FRAG_XDR_UNITS then (LAST_FRAG_XDR_UNITS - start, 0)
        else if start < 2 * LAST_FRAG_XDR_UNITS then (2 * LAST_FRAG_XDR_UNITS - start, 0)
        else (endpos - start, LAST_FRAG)
      else if endpos > LAST_FRAG_XDR_UNITS then
        if start < LAST_FRAG_XDR_UNITS then (LAST_FRAG_XDR_UNITS - start, 0)
        else (endpos - start, LAST_FRAG)
      else (endpos - start, LAST_FRAG))"

record flush_vars =
  remaining :: u32
  fbytes :: u32
  frag_needed :: nat
  last_frag :: u32
  iov_size :: nat

definition vio_unset :: xdr_vio where
  "vio_unset = \<lparr>vio_base = 0, vio_head = 0, vio_tail = 0, vio_wrap = 0, vio_length = 0, vio_type = VIO_HEADER\<rparr>"

text \<open>
  The vector of one call: the header bytes that are left (nothing when none is needed) and the memory of
  the buffers.  \<^verbatim>\<open>None\<close> is the failure of \<^verbatim>\<open>XDR_FILLBUFS\<close>.
\<close>

definition svc_ioq_flushv_iov :: "svc_xioq \<Rightarrow> flush_vars \<Rightarrow> (bytes \<times> bytes \<times> flush_vars \<times> svc_xioq) option" where
  "svc_ioq_flushv_iov q f =
     (case xdr_ioq_iovcount (xstream q) (write_start q) (fbytes f) of
        (iov_count, x) \<Rightarrow>
          let at_frag = (write_start q = 0 \<or> write_start q = LAST_FRAG_XDR_UNITS \<or> write_start q = 2 * LAST_FRAG_XDR_UNITS);
              f = (if at_frag then f\<lparr>frag_needed := 1\<rparr> else f);
              hdr = (if at_frag then drop (frag_hdr_bytes_sent q) (be32 (fbytes f OR last_frag f)) else []) in
          case xdr_ioq_fillbufs x (write_start q) (replicate (iov_size f) vio_unset) (fbytes f) of
            (False, vector, x) \<Rightarrow> None
          | (True, vector, x) \<Rightarrow>
              let n = (if nat iov_count + frag_needed f > PRESUMED_UIO_MAXIOV then PRESUMED_UIO_MAXIOV - frag_needed f
                       else nat iov_count) in
              Some (hdr, concat (map (\<lambda>v. read_bytes (heap x) (vio_head v) (unat (vio_length v))) (take n vector)), f,
                q\<lparr>xstream := x\<rparr>))"

text \<open>
  The loop.  \<open>svc_ioq_flushv_send\<close> is the part from \<^verbatim>\<open>again:\<close> on, with the header and the buffers that the call
  offers; it makes one call of \<^verbatim>\<open>sendmsg\<close>.  The result is the return value with the answers that are left;
  \<open>None\<close> when they run out before the function returns.
\<close>

definition svc_ioq_flushv_progress :: "nat \<Rightarrow> flush_vars \<Rightarrow> svc_xioq \<Rightarrow> flush_vars \<times> svc_xioq" where
  "svc_ioq_flushv_progress result f q =
     (let n = of_nat result;
          f = f\<lparr>remaining := remaining f - n, fbytes := fbytes f - n\<rparr>;
          q = q\<lparr>frag_hdr_bytes_sent := 4, write_start := write_start q + n\<rparr> in
      if fbytes f = 0 then
        (f\<lparr>fbytes := (if remaining f > LAST_FRAG_XDR_UNITS then LAST_FRAG_XDR_UNITS else remaining f), frag_needed := 1\<rparr>,
         q\<lparr>frag_hdr_bytes_sent := 0\<rparr>)
      else (f\<lparr>frag_needed := 0\<rparr>, q))"

function svc_ioq_flushv_loop ::
    "svc_params \<Rightarrow> nat \<Rightarrow> send_result list \<Rightarrow> flush_vars \<Rightarrow> svc_xioq \<Rightarrow> rpc_dplx_rec \<Rightarrow> bytes \<Rightarrow>
     (int \<times> send_result list \<times> svc_xioq \<times> rpc_dplx_rec \<times> bytes) option"
  and svc_ioq_flushv_send ::
    "svc_params \<Rightarrow> nat \<Rightarrow> send_result list \<Rightarrow> bool \<Rightarrow> bytes \<Rightarrow> bytes \<Rightarrow> flush_vars \<Rightarrow> svc_xioq \<Rightarrow> rpc_dplx_rec \<Rightarrow> bytes \<Rightarrow>
     (int \<times> send_result list \<times> svc_xioq \<times> rpc_dplx_rec \<times> bytes) option" where
  "svc_ioq_flushv_loop p xioq rs f q d w =
     (if remaining f > 0 then
        case svc_ioq_flushv_iov q f of
          None \<Rightarrow> Some (-1, rs, q, d, w)
        | Some (hdr, body, f, q) \<Rightarrow>
            svc_ioq_flushv_send p xioq rs
              (tcp_zerocopy_enabled p \<and> zc_sock_ok d \<and> remaining f \<ge> tcp_zerocopy_min_bytes p) hdr body f q d w
      else Some (0, rs, q, d, w))"
| "svc_ioq_flushv_send p xioq [] use_zc hdr body f q d w = None"
| "svc_ioq_flushv_send p xioq (Send_errno e # rs) use_zc hdr body f q d w =
     (if use_zc \<and> e = ENOBUFS then svc_ioq_flushv_send p xioq rs False hdr body f q d w
      else if e = EWOULDBLOCK then Some (int (unat EWOULDBLOCK), rs, q\<lparr>has_blocked := True\<rparr>, d, w)
      else Some (-1, rs, q, d, w))"
| "svc_ioq_flushv_send p xioq (Sent n # rs) use_zc hdr body f q d w =
     (let taken = take n (hdr @ body); result = length taken;
          w = w @ taken;
          d = (if use_zc \<and> result > 0 then svc_ioq_zc_note_send xioq d else d) in
      if result < length hdr then
        svc_ioq_flushv_send p xioq rs use_zc (drop result hdr) body f
          (q\<lparr>frag_hdr_bytes_sent := frag_hdr_bytes_sent q + result\<rparr>) d w
      else
        case svc_ioq_flushv_progress (result - length hdr) f q of
          (f, q) \<Rightarrow> svc_ioq_flushv_loop p xioq rs f q d w)"
  by pat_completeness auto

termination
  by (relation "measures [case_sum (\<lambda>(p, xioq, rs, _). length rs) (\<lambda>(p, xioq, rs, _). length rs),
      case_sum (\<lambda>_. 1) (\<lambda>_. 0)]") auto

declare svc_ioq_flushv_loop.simps [simp del] svc_ioq_flushv_send.simps [simp del]

text \<open>
  The whole call.  A count of -1 (a range outside the data) is no vector here and the unsigned number \<open>2 ^ 32 - 1\<close> in the
  source; a request that \<open>flush_ok\<close> admits has its range inside the data, so that the count is positive as long as
  anything remains to be sent.
\<close>

definition svc_ioq_flushv ::
    "svc_params \<Rightarrow> nat \<Rightarrow> send_result list \<Rightarrow> svc_xioq \<Rightarrow> rpc_dplx_rec \<Rightarrow> bytes \<Rightarrow>
     (int \<times> send_result list \<times> svc_xioq \<times> rpc_dplx_rec \<times> bytes) option" where
  "svc_ioq_flushv p xioq rs q d w =
     (case xdr_ioq_getpos (xdr_tail_update (xstream q)) of
        (endpos, x) \<Rightarrow>
          let rem = endpos - write_start q in
          case xdr_ioq_iovcount x (write_start q) rem of
            (iov_count, x) \<Rightarrow>
              (case svc_ioq_flushv_frag endpos (write_start q) of
                 (fb, lf) \<Rightarrow>
                   svc_ioq_flushv_loop p xioq rs
                     \<lparr>remaining = rem, fbytes = fb, frag_needed = 0, last_frag = lf, iov_size = nat iov_count\<rparr>
                     (q\<lparr>xstream := x\<rparr>) d w))"

section \<open>What is on the wire\<close>

text \<open>A queue that holds the bytes \<open>bs\<close> and is positioned at their end, as its writer leaves it.\<close>

definition ioq_holds :: "xdr_ioq \<Rightarrow> bytes \<Rightarrow> bool" where
  "ioq_holds x bs \<longleftrightarrow> (\<exists>pre cur post. ioq_at x pre cur post) \<and>
     bufs_bytes (heap x) (vios (xdr_tail_update x)) (uvqh x) = bs \<and> length bs < 2 ^ 32 \<and>
     fst (xdr_ioq_getpos x) = of_nat (length bs)"

lemma tail_update_idem: "ioq_at x pre cur post \<Longrightarrow> xdr_tail_update (xdr_tail_update x) = xdr_tail_update x"
  by (simp add: xdr_tail_update_def ioq_at_def)

lemma tail_update_heap: "ioq_at x pre cur post \<Longrightarrow> heap (xdr_tail_update x) = heap x"
  by (simp add: xdr_tail_update_def ioq_at_def)

lemma ioq_holds_tail_update: "ioq_holds x bs \<Longrightarrow> ioq_holds (xdr_tail_update x) bs"
  using tail_update_idem tail_update_heap ioq_at_tail_update(1,3)
  unfolding ioq_holds_def xdr_ioq_getpos_def by (metis (no_types, lifting) fst_conv)

lemma getpos_handle: "xdr_ioq_getpos x = (fst (xdr_ioq_getpos x), xdr_tail_update x)"
  by (simp add: xdr_ioq_getpos_def)

lemma unat_lfxu: "unat LAST_FRAG_XDR_UNITS = 0x7FFFFFFC"
  by (simp add: LAST_FRAG_XDR_UNITS_def)

text \<open>The record of a message that fits into one fragment, and the part of it that has been sent.\<close>

definition rm_header :: "bytes \<Rightarrow> bytes" where
  "rm_header bs = be32 (of_nat (length bs) OR LAST_FRAG)"

definition rm_record :: "bytes \<Rightarrow> bytes" where
  "rm_record bs = rm_header bs @ bs"

definition rm_sent :: "svc_xioq \<Rightarrow> bytes \<Rightarrow> bytes" where
  "rm_sent q bs = (if write_start q = 0 then take (frag_hdr_bytes_sent q) (rm_header bs)
     else rm_header bs @ take (unat (write_start q)) bs)"

definition rm_fits :: "bytes \<Rightarrow> bool" where
  "rm_fits bs \<longleftrightarrow> 0 < length bs \<and> length bs \<le> unat LAST_FRAG_XDR_UNITS"

definition flush_ok :: "svc_xioq \<Rightarrow> bytes \<Rightarrow> bool" where
  "flush_ok q bs \<longleftrightarrow> ioq_holds (xstream q) bs \<and> rm_fits bs \<and> unat (write_start q) \<le> length bs \<and> frag_hdr_bytes_sent q \<le> 4"

definition flush_vars_ok :: "svc_xioq \<Rightarrow> bytes \<Rightarrow> flush_vars \<Rightarrow> bool" where
  "flush_vars_ok q bs f \<longleftrightarrow> remaining f = of_nat (length bs) - write_start q \<and> fbytes f = remaining f \<and> last_frag f = LAST_FRAG \<and>
     frag_needed f \<le> 1 \<and>
     (unat (write_start q) < length bs \<longrightarrow>
       vl_need (vl_from (map (vios (xdr_tail_update (xstream q))) (uvqh (xstream q))) (unat (write_start q)))
         (length bs - unat (write_start q)) \<le> iov_size f)"

lemma remaining_nat:
  assumes "unat s \<le> length bs" "length bs < 2 ^ 32"
  shows "unat (of_nat (length bs) - s :: u32) = length bs - unat s"
  using assms unat_of_nat_small [of "length bs", where ?'a = 32] by (simp add: unat_sub word_le_nat_alt)

lemma flush_iov:
  assumes q: "flush_ok q bs" "unat (write_start q) < length bs" and f: "flush_vars_ok q bs f"
  shows "\<exists>body f'. svc_ioq_flushv_iov q f = Some
      (if write_start q = 0 then drop (frag_hdr_bytes_sent q) (rm_header bs) else [], body, f', q\<lparr>xstream := xdr_tail_update (xstream q)\<rparr>) \<and>
    body \<noteq> [] \<and> (\<exists>k. body = take k (drop (unat (write_start q)) bs)) \<and> flush_vars_ok q bs f' \<and>
    flush_vars_ok (q\<lparr>xstream := xdr_tail_update (xstream q)\<rparr>) bs f'"
proof -
  let ?x = "xstream q" and ?s = "write_start q" and ?d = "fbytes f"
  have h: "ioq_holds ?x bs" "rm_fits bs" using q(1) by (auto simp: flush_ok_def)
  then obtain pre cur post where a: "ioq_at ?x pre cur post" by (auto simp: ioq_holds_def)
  note a' = ioq_at_tail_update(1) [OF a]
  have b: "bufs_bytes (heap ?x) (vios (xdr_tail_update ?x)) (uvqh ?x) = bs" "length bs < 2 ^ 32" using h(1) by (auto simp: ioq_holds_def)
  have d: "unat ?d = length bs - unat ?s" using f q(2) b(2) remaining_nat [of ?s bs] by (simp add: flush_vars_ok_def)
  let ?n = "vl_need (vl_from (map (vios (xdr_tail_update ?x)) (uvqh ?x)) (unat ?s)) (unat ?d)"
  have n: "xdr_ioq_iovcount ?x ?s ?d = (int ?n, xdr_tail_update ?x)" "0 < ?n"
    using ioq_range_vectors(1,2) [OF a, of ?s ?d] b q(2) d by simp_all
  let ?y = "xdr_tail_update ?x"
  have y: "xdr_tail_update ?y = ?y" "heap ?y = heap ?x" "uvqh ?y = uvqh ?x"
    using tail_update_idem [OF a] tail_update_heap [OF a] ioq_at_tail_update(3) [OF a] by simp_all
  have "?n \<le> iov_size f" using f q(2) d by (simp add: flush_vars_ok_def)
  then obtain vec where v: "xdr_ioq_fillbufs ?y ?s (replicate (iov_size f) vio_unset) ?d = (True, vec, ?y)" "length vec = iov_size f"
      "concat (map (vio_bytes (heap ?x)) (take ?n vec)) = drop (unat ?s) bs"
      "\<forall>v \<in> set (take ?n vec). unat (vio_length v) = ioquv_length v" "0 < ?d \<longrightarrow> 0 < ioquv_length (vec ! 0)"
    using ioq_range_vectors(3) [OF a', of ?s ?d "replicate (iov_size f) vio_unset"] b q(2) d y by auto
  let ?f = "if ?s = 0 then f\<lparr>frag_needed := 1\<rparr> else f"
  define m where "m = (if ?n + frag_needed ?f > PRESUMED_UIO_MAXIOV then PRESUMED_UIO_MAXIOV - frag_needed ?f else ?n)"
  have fn: "frag_needed ?f \<le> 1" using f by (auto simp: flush_vars_ok_def)
  then have m: "0 < m" "m \<le> ?n" using n(2) by (auto simp: m_def split: if_splits)
  let ?body = "concat (map (\<lambda>v. read_bytes (heap ?x) (vio_head v) (unat (vio_length v))) (take m vec))"
  have bodyeq: "?body = concat (map (vio_bytes (heap ?x)) (take m vec))"
  proof -
    have "set (take m vec) \<subseteq> set (take ?n vec)" using m(2) by (rule set_take_subset_set_take)
    with v(4) show ?thesis by (intro arg_cong [where f = concat] map_cong) (auto simp: vio_bytes_def)
  qed
  have "take ?n vec = take m vec @ drop m (take ?n vec)" using m(2) by (metis append_take_drop_id min.absorb1 take_take)
  then have "drop (unat ?s) bs = ?body @ concat (map (vio_bytes (heap ?x)) (drop m (take ?n vec)))"
    unfolding v(3) [symmetric] bodyeq by (metis concat_append map_append)
  then have pre: "?body = take (length ?body) (drop (unat ?s) bs)" by simp
  have "0 < ioquv_length (vec ! 0)" using v(5) d q(2) by (simp add: word_less_nat_alt)
  moreover have "vec \<noteq> []" "take m vec = vec ! 0 # tl (take m vec)"
    using v(2) n(2) m(1) \<open>?n \<le> iov_size f\<close> by (cases vec; cases m; auto)+
  ultimately have "?body \<noteq> []" unfolding bodyeq by (metis concat.simps(2) append_is_Nil_conv list.simps(9) vio_bytes_def length_0_conv length_read_bytes less_numeral_extra(3))
  moreover have "?s \<noteq> LAST_FRAG_XDR_UNITS" "?s \<noteq> 2 * LAST_FRAG_XDR_UNITS"
  proof -
    have "unat ?s < 0x7FFFFFFC" using q(2) h(2) unat_lfxu by (simp add: rm_fits_def)
    moreover have "unat (2 * LAST_FRAG_XDR_UNITS) = 0xFFFFFFF8" by (simp add: LAST_FRAG_XDR_UNITS_def)
    ultimately show "?s \<noteq> LAST_FRAG_XDR_UNITS" "?s \<noteq> 2 * LAST_FRAG_XDR_UNITS" using unat_lfxu by auto
  qed
  then have ns: "(?s = LAST_FRAG_XDR_UNITS) = False" "(?s = 2 * LAST_FRAG_XDR_UNITS) = False" by simp_all
  have fv: "iov_size ?f = iov_size f" "fbytes ?f = ?d" "last_frag ?f = last_frag f" by simp_all
  have "svc_ioq_flushv_iov q f = Some (if ?s = 0 then drop (frag_hdr_bytes_sent q) (be32 (?d OR last_frag f)) else [], ?body, ?f, q\<lparr>xstream := ?y\<rparr>)"
    by (simp only: svc_ioq_flushv_iov_def n(1) prod.case Let_def ns simp_thms fv v(1) bool.case nat_int y(2) m_def)
  moreover have "?s = 0 \<longrightarrow> be32 (?d OR last_frag f) = rm_header bs"
    using f by (auto simp: flush_vars_ok_def rm_header_def)
  moreover have "flush_vars_ok q bs ?f" "flush_vars_ok (q\<lparr>xstream := ?y\<rparr>) bs ?f"
    using f y by (auto simp: flush_vars_ok_def)
  ultimately show ?thesis using pre by (intro exI [of _ ?body] exI [of _ ?f]) auto
qed

definition send_ok :: "svc_xioq \<Rightarrow> bytes \<Rightarrow> bytes \<Rightarrow> bytes \<Rightarrow> flush_vars \<Rightarrow> bool" where
  "send_ok q bs hdr body f \<longleftrightarrow> flush_ok q bs \<and> flush_vars_ok q bs f \<and> unat (write_start q) < length bs \<and>
     hdr = (if write_start q = 0 then drop (frag_hdr_bytes_sent q) (rm_header bs) else []) \<and>
     body \<noteq> [] \<and> (\<exists>k. body = take k (drop (unat (write_start q)) bs))"

lemma length_rm_header [simp]: "length (rm_header bs) = 4"
  by (simp add: rm_header_def)

lemma rm_fits_32: "rm_fits bs \<Longrightarrow> length bs < 2 ^ 32"
  by (simp add: rm_fits_def unat_lfxu)

lemma bufs_vl_length: "length (bufs_bytes h V us) = vl_length (map V us)"
  by (induction us) (auto simp: bufs_bytes_def vl_length_def vio_bytes_def)

text \<open>A call that takes part of the header, and one that takes the rest of it and some of the data.\<close>

lemma send_header:
  assumes "send_ok q bs hdr body f" "n < length hdr"
  shows "send_ok (q\<lparr>frag_hdr_bytes_sent := frag_hdr_bytes_sent q + n\<rparr>) bs (drop n hdr) body f"
    "rm_sent (q\<lparr>frag_hdr_bytes_sent := frag_hdr_bytes_sent q + n\<rparr>) bs = rm_sent q bs @ take n hdr"
proof -
  show "send_ok (q\<lparr>frag_hdr_bytes_sent := frag_hdr_bytes_sent q + n\<rparr>) bs (drop n hdr) body f"
    using assms by (auto simp: send_ok_def flush_ok_def flush_vars_ok_def add.commute split: if_splits)
  show "rm_sent (q\<lparr>frag_hdr_bytes_sent := frag_hdr_bytes_sent q + n\<rparr>) bs = rm_sent q bs @ take n hdr"
    using assms by (auto simp: send_ok_def rm_sent_def take_add split: if_splits)
qed

lemma rm_sent_header: "send_ok q bs hdr body f \<Longrightarrow> rm_sent q bs @ hdr = rm_header bs @ take (unat (write_start q)) bs"
  by (auto simp: send_ok_def rm_sent_def)

lemma send_body:
  assumes s: "send_ok q bs hdr body f" and r: "r \<le> length body" and p: "svc_ioq_flushv_progress r f q = (f', q')"
  shows "flush_ok q' bs" "flush_vars_ok q' bs f'" "rm_sent q' bs = rm_sent q bs @ hdr @ take r body"
    "unat (write_start q') = unat (write_start q) + r"
proof -
  obtain k where k: "body = take k (drop (unat (write_start q)) bs)" using s by (auto simp: send_ok_def)
  have fo: "flush_ok q bs" "flush_vars_ok q bs f" "unat (write_start q) < length bs" using s by (auto simp: send_ok_def)
  have fits: "rm_fits bs" "length bs < 2 ^ 32" "ioq_holds (xstream q) bs" "frag_hdr_bytes_sent q \<le> 4"
    using fo(1) rm_fits_32 by (auto simp: flush_ok_def)
  have r': "r \<le> length bs - unat (write_start q)" using r k by simp
  have q': "write_start q' = write_start q + of_nat r" "xstream q' = xstream q" "frag_hdr_bytes_sent q' \<le> 4"
      "of_nat r \<noteq> fbytes f \<Longrightarrow> frag_hdr_bytes_sent q' = 4"
    using p by (auto simp: svc_ioq_flushv_progress_def Let_def split: if_splits)
  have "unat (of_nat r :: u32) = r" using r' fits(2) by (intro unat_of_nat_small) simp
  then show ws: "unat (write_start q') = unat (write_start q) + r"
    using q'(1) r' fits(2) fo(3) unat_add_lem [of "write_start q" "of_nat r :: u32"] by (simp, linarith)
  then show "flush_ok q' bs" using fo q' r' by (simp add: flush_ok_def)
  have rem: "remaining f = of_nat (length bs) - write_start q" "fbytes f = remaining f" using fo(2) by (auto simp: flush_vars_ok_def)
  let ?vl = "map (vios (xdr_tail_update (xstream q))) (uvqh (xstream q))"
  have vl: "vl_length ?vl = length bs" using fits(3) bufs_vl_length by (metis ioq_holds_def)
  have iov: "iov_size f' = iov_size f" "last_frag f' = last_frag f" "frag_needed f' \<le> 1" "remaining f' = remaining f - of_nat r"
    using p by (auto simp: svc_ioq_flushv_progress_def Let_def split: if_splits)
  have rr: "unat (remaining f') = length bs - unat (write_start q')" "remaining f' = of_nat (length bs) - write_start q'"
    using remaining_nat [of "write_start q'" bs] ws r' fits(2) fo(3) by (simp_all add: iov(4) rem q'(1) algebra_simps)
  then have "remaining f' \<le> LAST_FRAG_XDR_UNITS" using fits(1) by (auto simp: word_le_nat_alt rm_fits_def intro: le_trans [OF diff_le_self])
  then have fb: "fbytes f' = remaining f'"
    using p rem(2) by (auto simp: svc_ioq_flushv_progress_def Let_def split: if_splits)
  have "unat (write_start q') < length bs \<Longrightarrow>
      vl_need (vl_from ?vl (unat (write_start q'))) (length bs - unat (write_start q')) \<le> iov_size f"
    using vl_need_later [of "unat (write_start q)" "unat (write_start q')" ?vl] fo ws vl
    by (auto simp: flush_vars_ok_def)
  with iov fb rr(2) fo(2) q'(2) show "flush_vars_ok q' bs f'" by (simp add: flush_vars_ok_def)
  have tb: "take r body = take r (drop (unat (write_start q)) bs)" using k r by (simp add: min.absorb1)
  show "rm_sent q' bs = rm_sent q bs @ hdr @ take r body"
  proof (cases "write_start q' = 0")
    case True
    then have z: "r = 0" "write_start q = 0" using ws by (simp_all add: unat_eq_0)
    then have "fbytes f \<noteq> 0" using rem fo(3) remaining_nat [of "write_start q" bs] fits(2) by (auto simp: unat_eq_0)
    then have "frag_hdr_bytes_sent q' = 4" using q'(4) z(1) by simp
    with True z rm_sent_header [OF s] show ?thesis by (simp add: rm_sent_def)
  next
    case False
    have "rm_sent q bs @ hdr @ take r body = rm_header bs @ take (unat (write_start q)) bs @ take r (drop (unat (write_start q)) bs)"
      using rm_sent_header [OF s] unfolding tb append_assoc [symmetric] by simp
    also have "\<dots> = rm_header bs @ take (unat (write_start q')) bs" using ws by (simp add: take_add)
    finally show ?thesis using False by (simp add: rm_sent_def)
  qed
qed

lemma rm_sent_all: "flush_ok q bs \<Longrightarrow> unat (write_start q) = length bs \<longleftrightarrow> rm_sent q bs = rm_record bs"
proof -
  assume q: "flush_ok q bs"
  show ?thesis
  proof (cases "write_start q = 0")
    case True
    then have "length (rm_sent q bs) \<le> 4" by (simp add: rm_sent_def)
    moreover have "4 < length (rm_record bs)" "length bs \<noteq> 0" using q by (auto simp: flush_ok_def rm_fits_def rm_record_def)
    ultimately show ?thesis using True by auto
  next
    case False
    with q show ?thesis by (auto simp: rm_sent_def rm_record_def flush_ok_def dest: arg_cong [where f = length])
  qed
qed

text \<open>
  The outcome of the loop: the wire is extended by exactly what the counters of the reply say, and 0 is
  returned when and only when the whole record is out.
\<close>

definition flush_outcome :: "svc_xioq \<Rightarrow> bytes \<Rightarrow> bytes \<Rightarrow> int \<times> send_result list \<times> svc_xioq \<times> rpc_dplx_rec \<times> bytes \<Rightarrow> bool" where
  "flush_outcome q bs w res = (case res of (e, rs, q', d, w') \<Rightarrow>
     flush_ok q' bs \<and> (\<exists>s. w' = w @ s \<and> rm_sent q' bs = rm_sent q bs @ s) \<and>
     (e = 0 \<longleftrightarrow> rm_sent q' bs = rm_record bs) \<and> e \<in> {0, -1, 11} \<and> (e = 11 \<longrightarrow> has_blocked q'))"

lemma flush_outcome_trans:
  assumes "rm_sent q1 bs = rm_sent q bs @ s" "flush_outcome q1 bs (w @ s) res"
  shows "flush_outcome q bs w res"
  using assms by (auto simp: flush_outcome_def)

lemma flush_stop:
  assumes "flush_ok q bs" "unat (write_start q) < length bs" "e = -1 \<or> (e = 11 \<and> has_blocked q)"
  shows "flush_outcome q bs w (e, rs, q, d, w)"
  using assms rm_sent_all [OF assms(1)] by (auto simp: flush_outcome_def)

lemma flush_ok_upd [simp]: "flush_ok (q\<lparr>has_blocked := b\<rparr>) bs = flush_ok q bs" "rm_sent (q\<lparr>has_blocked := b\<rparr>) bs = rm_sent q bs"
  "rm_sent (q\<lparr>xstream := x\<rparr>) bs = rm_sent q bs"
  by (simp_all add: flush_ok_def rm_sent_def)

lemma flush_ok_tail: "flush_ok q bs \<Longrightarrow> flush_ok (q\<lparr>xstream := xdr_tail_update (xstream q)\<rparr>) bs"
  by (simp add: flush_ok_def ioq_holds_tail_update)

lemma flush_send_ok:
  assumes "flush_ok q bs" "flush_vars_ok q bs f" "remaining f > 0"
  obtains hdr body f' where "svc_ioq_flushv_iov q f = Some (hdr, body, f', q\<lparr>xstream := xdr_tail_update (xstream q)\<rparr>)"
    "send_ok (q\<lparr>xstream := xdr_tail_update (xstream q)\<rparr>) bs hdr body f'"
proof -
  have "unat (write_start q) < length bs"
  proof (rule ccontr)
    assume "\<not> unat (write_start q) < length bs"
    then have "unat (remaining f) = 0" using assms remaining_nat [of "write_start q" bs] rm_fits_32 [of bs]
      by (simp add: flush_ok_def flush_vars_ok_def)
    with assms(3) show False by (simp add: unat_eq_0)
  qed
  note ws = this
  let ?q = "q\<lparr>xstream := xdr_tail_update (xstream q)\<rparr>"
  obtain body f' k where i: "svc_ioq_flushv_iov q f = Some
      (if write_start q = 0 then drop (frag_hdr_bytes_sent q) (rm_header bs) else [], body, f', ?q)"
      "body \<noteq> []" "body = take k (drop (unat (write_start q)) bs)" "flush_vars_ok ?q bs f'"
    using flush_iov [OF assms(1) ws assms(2)] by (elim exE conjE)
  show ?thesis
    by (rule that [OF i(1)]) (use i ws flush_ok_tail [OF assms(1)] in \<open>auto simp: send_ok_def\<close>)
qed

lemma flush_finished:
  assumes "flush_ok q bs" "flush_vars_ok q bs f" "\<not> remaining f > 0"
  shows "unat (write_start q) = length bs"
proof -
  have "unat (remaining f) = 0" using assms(3) by (simp add: word_less_nat_alt)
  with assms remaining_nat [of "write_start q" bs] rm_fits_32 [of bs] show ?thesis
    by (simp add: flush_ok_def flush_vars_ok_def)
qed

text \<open>One call of \<^verbatim>\<open>sendmsg\<close> that takes bytes.\<close>

lemma flush_taken:
  assumes "send_ok q bs hdr body f"
  defines "s n \<equiv> take n (hdr @ body)"
  shows "length (s n) < length hdr \<Longrightarrow> s n = take n hdr \<and> length (s n) = n"
    "\<not> length (s n) < length hdr \<Longrightarrow> s n = hdr @ take (length (s n) - length hdr) body \<and> length (s n) - length hdr \<le> length body"
    "0 < n \<Longrightarrow> s n \<noteq> []"
  using assms by (auto simp: s_def send_ok_def min_def split: if_splits)

lemma flush_loop_outcome:
  "svc_ioq_flushv_loop p xioq rs f q d w = Some res \<Longrightarrow> flush_ok q bs \<Longrightarrow> flush_vars_ok q bs f \<Longrightarrow> flush_outcome q bs w res"
  "svc_ioq_flushv_send p xioq rs use_zc hdr body f q d w = Some res \<Longrightarrow> send_ok q bs hdr body f \<Longrightarrow> flush_outcome q bs w res"
proof (induction p xioq rs f q d w and p xioq rs use_zc hdr body f q d w arbitrary: and
    rule: svc_ioq_flushv_loop_svc_ioq_flushv_send.induct)
  case (1 p xioq rs f q d w)
  show ?case
  proof (cases "remaining f > 0")
    case True
    from flush_send_ok [OF 1(3,4) True] obtain hdr body f' where
      iov: "svc_ioq_flushv_iov q f = Some (hdr, body, f', q\<lparr>xstream := xdr_tail_update (xstream q)\<rparr>)"
        "send_ok (q\<lparr>xstream := xdr_tail_update (xstream q)\<rparr>) bs hdr body f'" .
    have "flush_outcome (q\<lparr>xstream := xdr_tail_update (xstream q)\<rparr>) bs w res"
      using 1(1) [OF True iov(1) refl refl refl] 1(2) iov True by (simp add: svc_ioq_flushv_loop.simps [of p xioq rs f])
    then show ?thesis using flush_outcome_trans [of "q\<lparr>xstream := xdr_tail_update (xstream q)\<rparr>" bs q "[]" w res] by simp
  next
    case False
    with 1 flush_finished [OF 1(3,4) False] rm_sent_all [OF 1(3)] show ?thesis
      by (auto simp: svc_ioq_flushv_loop.simps [of p xioq rs f] flush_outcome_def)
  qed
next
  case (3 p xioq e rs use_zc hdr body f q d w)
  have "flush_ok q bs" "unat (write_start q) < length bs" using 3(3) by (auto simp: send_ok_def)
  then show ?case using 3 flush_stop [of q bs "-1" w rs d] flush_stop [of "q\<lparr>has_blocked := True\<rparr>" bs 11 w rs d]
      flush_outcome_trans [of "q\<lparr>has_blocked := True\<rparr>" bs q "[]" w res]
    by (auto simp: svc_ioq_flushv_send.simps split: if_splits)
next
  case (4 p xioq n rs use_zc hdr body f q d w)
  let ?s = "take n (hdr @ body)"
  let ?d = "if use_zc \<and> length ?s > 0 then svc_ioq_zc_note_send xioq d else d"
  show ?case
  proof (cases "length ?s < length hdr")
    case True
    note s = flush_taken(1) [OF 4(4) True]
    then have n: "n < length hdr" using True by simp
    let ?q = "q\<lparr>frag_hdr_bytes_sent := frag_hdr_bytes_sent q + length ?s\<rparr>"
    have "svc_ioq_flushv_send p xioq rs use_zc (drop (length ?s) hdr) body f ?q ?d (w @ ?s) = Some res"
      using 4(3) unfolding svc_ioq_flushv_send.simps(3) Let_def if_P [OF True] .
    then have "flush_outcome ?q bs (w @ ?s) res"
      using 4(1) [OF refl refl refl refl True] send_header(1) [OF 4(4) n] s by simp
    then show ?thesis by (rule flush_outcome_trans [rotated]) (use send_header(2) [OF 4(4) n] s in simp)
  next
    case False
    note s = flush_taken(2) [OF 4(4) False]
    obtain f' q' where p: "svc_ioq_flushv_progress (length ?s - length hdr) f q = (f', q')" by (cases rule: prod.exhaust)
    note b = send_body [OF 4(4) s [THEN conjunct2] p]
    have "svc_ioq_flushv_loop p xioq rs f' q' ?d (w @ ?s) = Some res"
      using 4(3) unfolding svc_ioq_flushv_send.simps(3) Let_def if_not_P [OF False] p prod.case .
    then have "flush_outcome q' bs (w @ ?s) res"
      using 4(2) [OF refl refl refl refl False p [symmetric]] b(1,2) by simp
    then show ?thesis by (rule flush_outcome_trans [rotated]) (use b(3) s in simp)
  qed
qed (simp add: svc_ioq_flushv_send.simps)

text \<open>When every call takes at least a byte, as many calls as there are bytes left are enough.\<close>

definition flush_left :: "svc_xioq \<Rightarrow> bytes \<Rightarrow> nat" where
  "flush_left q bs = length (rm_record bs) - length (rm_sent q bs)"

lemma flush_left_less:
  assumes "rm_sent q' bs = rm_sent q bs @ s" "s \<noteq> []" "flush_ok q' bs" "flush_left q bs \<le> Suc k"
  shows "flush_left q' bs \<le> k"
  using assms by (cases s) (auto simp: flush_left_def)

lemma send_ok_left: "send_ok q bs hdr body f \<Longrightarrow> 0 < flush_left q bs"
  by (auto simp: send_ok_def flush_left_def rm_sent_def rm_record_def intro: le_less_trans [OF min.cobounded1])

lemma flush_loop_returns:
  "flush_ok q bs \<Longrightarrow> flush_vars_ok q bs f \<Longrightarrow> set rs \<subseteq> Sent ` {1..} \<Longrightarrow> flush_left q bs \<le> length rs \<Longrightarrow>
     \<exists>rs' q' d' w'. svc_ioq_flushv_loop p xioq rs f q d w = Some (0, rs', q', d', w')"
  "send_ok q bs hdr body f \<Longrightarrow> set rs \<subseteq> Sent ` {1..} \<Longrightarrow> flush_left q bs \<le> length rs \<Longrightarrow>
     \<exists>rs' q' d' w'. svc_ioq_flushv_send p xioq rs use_zc hdr body f q d w = Some (0, rs', q', d', w')"
proof (induction p xioq rs f q d w and p xioq rs use_zc hdr body f q d w
    rule: svc_ioq_flushv_loop_svc_ioq_flushv_send.induct)
  case (1 p xioq rs f q d w)
  show ?case
  proof (cases "remaining f > 0")
    case True
    from flush_send_ok [OF 1(2,3) True] obtain hdr body f' where
      iov: "svc_ioq_flushv_iov q f = Some (hdr, body, f', q\<lparr>xstream := xdr_tail_update (xstream q)\<rparr>)"
        "send_ok (q\<lparr>xstream := xdr_tail_update (xstream q)\<rparr>) bs hdr body f'" .
    show ?thesis
      using 1(1) [OF True iov(1) refl refl refl iov(2)] 1(4,5) iov(1) True
      by (simp add: svc_ioq_flushv_loop.simps [of p xioq rs f] flush_left_def)
  next
    case False
    then show ?thesis by (simp add: svc_ioq_flushv_loop.simps [of p xioq rs f])
  qed
next
  case 2
  then show ?case using send_ok_left by fastforce
next
  case 3
  then show ?case by auto
next
  case (4 p xioq n rs use_zc hdr body f q d w)
  let ?s = "take n (hdr @ body)"
  have rs: "set rs \<subseteq> Sent ` {1..}" "flush_left q bs \<le> Suc (length rs)" and ne: "?s \<noteq> []"
    using 4(4,5) flush_taken(3) [OF 4(3), of n] by auto
  show ?case
  proof (cases "length ?s < length hdr")
    case True
    note s = flush_taken(1) [OF 4(3) True]
    then have n: "n < length hdr" using True by simp
    let ?q = "q\<lparr>frag_hdr_bytes_sent := frag_hdr_bytes_sent q + length ?s\<rparr>"
    have so: "send_ok ?q bs (drop (length ?s) hdr) body f" "rm_sent ?q bs = rm_sent q bs @ ?s"
      using send_header [OF 4(3) n] s by simp_all
    then have "flush_left ?q bs \<le> length rs"
      by (intro flush_left_less [OF so(2) ne _ rs(2)]) (simp add: send_ok_def)
    from 4(1) [OF refl refl refl refl True so(1) rs(1) this] show ?thesis
      unfolding svc_ioq_flushv_send.simps(3) Let_def if_P [OF True] .
  next
    case False
    note s = flush_taken(2) [OF 4(3) False]
    obtain f' q' where p: "svc_ioq_flushv_progress (length ?s - length hdr) f q = (f', q')" by (cases rule: prod.exhaust)
    note b = send_body [OF 4(3) s [THEN conjunct2] p]
    have "rm_sent q' bs = rm_sent q bs @ ?s" using b(3) s by simp
    then have "flush_left q' bs \<le> length rs" by (rule flush_left_less [OF _ ne b(1) rs(2)])
    from 4(2) [OF refl refl refl refl False p [symmetric] b(1,2) rs(1) this] show ?thesis
      unfolding svc_ioq_flushv_send.simps(3) Let_def if_not_P [OF False] p prod.case .
  qed
qed

lemma flushv_start:
  assumes "flush_ok q bs" "unat (write_start q) < length bs"
  obtains f where "svc_ioq_flushv p xioq rs q d w = svc_ioq_flushv_loop p xioq rs f (q\<lparr>xstream := xdr_tail_update (xstream q)\<rparr>) d w"
    "flush_vars_ok (q\<lparr>xstream := xdr_tail_update (xstream q)\<rparr>) bs f"
proof -
  let ?x = "xstream q" and ?s = "write_start q"
  let ?y = "xdr_tail_update ?x" and ?d = "of_nat (length bs) - ?s"
  have h: "ioq_holds ?x bs" "rm_fits bs" "length bs < 2 ^ 32" using assms(1) rm_fits_32 by (auto simp: flush_ok_def)
  then obtain pre cur post where a: "ioq_at ?x pre cur post" by (auto simp: ioq_holds_def)
  have d: "unat ?d = length bs - unat ?s" using remaining_nat [of ?s bs] assms(2) h(3) by simp
  have y: "xdr_tail_update ?y = ?y" "uvqh ?y = uvqh ?x" "heap ?y = heap ?x"
    using tail_update_idem [OF a] tail_update_heap [OF a] ioq_at_tail_update(3) [OF a] by simp_all
  let ?n = "vl_need (vl_from (map (vios ?y) (uvqh ?x)) (unat ?s)) (unat ?d)"
  have b: "bufs_bytes (heap ?x) (vios ?y) (uvqh ?x) = bs" using h(1) by (simp add: ioq_holds_def)
  have n: "xdr_ioq_iovcount ?y ?s ?d = (int ?n, ?y)"
    using ioq_range_vectors(2) [OF ioq_at_tail_update(1) [OF a], of ?s ?d] b d assms(2) h(3) y by simp
  have "fst (xdr_ioq_getpos ?y) = of_nat (length bs)" using ioq_holds_tail_update [OF h(1)] by (simp add: ioq_holds_def)
  then have g: "xdr_ioq_getpos ?y = (of_nat (length bs), ?y)" using getpos_handle [of ?y] y(1) by simp
  have "(of_nat (length bs) :: u32) \<le> LAST_FRAG_XDR_UNITS"
    using h(2) unat_of_nat_small [of "length bs", where ?'a = 32] h(3) by (simp add: word_le_nat_alt rm_fits_def)
  moreover have "LAST_FRAG_XDR_UNITS < 2 * LAST_FRAG_XDR_UNITS" by (simp add: LAST_FRAG_XDR_UNITS_def)
  ultimately have fr: "svc_ioq_flushv_frag (of_nat (length bs)) ?s = (?d, LAST_FRAG)"
    by (auto simp: svc_ioq_flushv_frag_def)
  show ?thesis
  proof (rule that)
    show "svc_ioq_flushv p xioq rs q d w = svc_ioq_flushv_loop p xioq rs
        \<lparr>remaining = ?d, fbytes = ?d, frag_needed = 0, last_frag = LAST_FRAG, iov_size = ?n\<rparr> (q\<lparr>xstream := ?y\<rparr>) d w"
      by (simp only: svc_ioq_flushv_def g n fr prod.case Let_def nat_int)
  qed (simp add: flush_vars_ok_def y d)
qed

end
