(* ===== verification/Svc_Write.thy ===== *)
theory Svc_Write
  imports Svc_Flush
begin

text \<open>
  The queue of replies of a stream connection, the last part of \<^verbatim>\<open>src/svc_ioq.c\<close>, and \<^verbatim>\<open>clear_requests\<close> of \<^verbatim>\<open>src/svc_rqst.c\<close>,
  which empties it when the connection is destroyed.  Any thread may queue a reply and any thread may find itself
  writing: after queueing into an empty queue, as a worker of the pool, or because the socket has become writable.
  The bit \<^verbatim>\<open>SVC_XPRT_FLAG_IOQ_WRITING\<close> of the flags keeps the writers apart.  The operations are cut at every access to what
  the threads share (the flags, the queue under its mutex, the zero-copy record under its lock), and \<open>out_reach\<close> interleaves
  the pieces.  \<^verbatim>\<open>svc_ioq_flushv\<close> is one piece: it works on a reply that only the holder of the bit touches.
\<close>

section \<open>State\<close>

datatype out_event =
    Evchan_write nat bool
  | Send_complete
  | Svc_destroy
  | Svc_ref
  | Svc_unref
  | Discard nat
  | Work_submit nat

text \<open>
  \<open>wire\<close> are the bytes that the kernel has taken, \<open>ev_send\<close> is the one-shot registration for the writability of the
  socket, \<open>olog\<close> the calls to other components, most recent first.
\<close>

record svc_out =
  dplx :: rpc_dplx_rec
  wire :: bytes
  writeq :: "nat list"
  xioqs :: "nat \<Rightarrow> svc_xioq"
  xp_flags :: u16
  ev_send :: bool
  olog :: "out_event list"

abbreviation SVC_XPRT_FLAG_DESTROYING :: u16 where "SVC_XPRT_FLAG_DESTROYING \<equiv> 0x20"
abbreviation SVC_XPRT_FLAG_DESTROYED :: u16 where "SVC_XPRT_FLAG_DESTROYED \<equiv> 0x60"
abbreviation SVC_XPRT_FLAG_IOQ_WRITING :: u16 where "SVC_XPRT_FLAG_IOQ_WRITING \<equiv> 0x800"

record write_vars =
  have_v :: "nat option"
  destroy_xprt :: bool
  local_counter :: u32

text \<open>
  Where a thread is: in \<^verbatim>\<open>svc_ioq_write\<close> from the wait for the bit to the return, or in \<^verbatim>\<open>clear_requests\<close>, which keeps the
  bit for good (\<open>Cleared\<close> is the call that has returned).
\<close>

datatype wphase =
    Idle
  | Entering
  | Waiting
  | Entered
  | Looping write_vars
  | Flushed nat int bool write_vars
  | Dequeued nat write_vars
  | Leaving write_vars
  | Unlocked write_vars
  | Drained write_vars
  | Retaking write_vars
  | Retaken write_vars
  | Looked "nat option" write_vars
  | Finishing write_vars
  | Clearing
  | Clear_taken
  | Clear_emptied
  | Cleared

section \<open>Operations\<close>

definition tailq_first :: "nat list \<Rightarrow> nat option" where
  "tailq_first q = (case q of [] \<Rightarrow> None | x # _ \<Rightarrow> Some x)"

definition destroyed :: "svc_out \<Rightarrow> bool" where
  "destroyed o' \<longleftrightarrow> xp_flags o' AND SVC_XPRT_FLAG_DESTROYED \<noteq> 0"

definition ioq_writing :: "svc_out \<Rightarrow> bool" where
  "ioq_writing o' \<longleftrightarrow> xp_flags o' AND SVC_XPRT_FLAG_IOQ_WRITING \<noteq> 0"

definition set_writing :: "svc_out \<Rightarrow> svc_out" where
  "set_writing o' = o'\<lparr>xp_flags := xp_flags o' OR SVC_XPRT_FLAG_IOQ_WRITING\<rparr>"

definition clear_writing :: "svc_out \<Rightarrow> svc_out" where
  "clear_writing o' = o'\<lparr>xp_flags := xp_flags o' AND NOT SVC_XPRT_FLAG_IOQ_WRITING\<rparr>"

definition svc_destroy_it :: "svc_out \<Rightarrow> svc_out" where
  "svc_destroy_it o' =
     (if xp_flags o' AND SVC_XPRT_FLAG_DESTROYING \<noteq> 0 then o'
      else o'\<lparr>xp_flags := xp_flags o' OR SVC_XPRT_FLAG_DESTROYING, olog := Svc_destroy # olog o'\<rparr>)"

text \<open>
  The loop that waits for the other writer: the test-and-set of the bit, and the look at the flags when it was
  set.  The head of the queue is read after that.
\<close>

definition svc_ioq_write_enter :: "svc_out \<Rightarrow> wphase \<times> svc_out" where
  "svc_ioq_write_enter o' = (if ioq_writing o' then Waiting else Entered, set_writing o')"

definition svc_ioq_write_wait :: "svc_out \<Rightarrow> wphase" where
  "svc_ioq_write_wait o' = (if destroyed o' then Idle else Entering)"

definition svc_ioq_write_first :: "svc_out \<Rightarrow> wphase" where
  "svc_ioq_write_first o' = Looping \<lparr>have_v = tailq_first (writeq o'), destroy_xprt = False, local_counter = 0\<rparr>"

text \<open>The body of the loop over the queue, up to the return of \<^verbatim>\<open>svc_ioq_flushv\<close>.\<close>

definition svc_ioq_write_flush ::
    "svc_params \<Rightarrow> send_result list \<Rightarrow> write_vars \<Rightarrow> svc_out \<Rightarrow> (wphase \<times> send_result list \<times> svc_out) option" where
  "svc_ioq_write_flush p rs v o' =
     (case have_v v of
        None \<Rightarrow> Some (Leaving v, rs, o')
      | Some xioq \<Rightarrow>
          let q = xioqs o' xioq; blocked = has_blocked q in
          if thrd_max p \<noteq> 0 \<and> \<not> destroyed o' then
            case svc_ioq_flushv p xioq rs q (dplx o') (wire o') of
              None \<Rightarrow> None
            | Some (rc, rs, q, d, w) \<Rightarrow>
                Some (Flushed xioq rc blocked v, rs, o'\<lparr>dplx := d, wire := w, xioqs := (xioqs o')(xioq := q)\<rparr>)
          else Some (Flushed xioq 0 blocked v, rs, o'))"

text \<open>
  The part under the mutex of the queue; \<open>reg\<close> says whether the event channel accepts a registration.  Then the
  reply is released, or left to the completions.
\<close>

definition svc_ioq_write_after :: "bool \<Rightarrow> nat \<Rightarrow> int \<Rightarrow> bool \<Rightarrow> write_vars \<Rightarrow> svc_out \<Rightarrow> wphase \<times> svc_out" where
  "svc_ioq_write_after reg xioq rc blocked v o' =
     (if rc < 0 \<or> destroyed o' then (Leaving (v\<lparr>destroy_xprt := True\<rparr>), o')
      else if rc = int (unat EWOULDBLOCK) then
        (Leaving v, o'\<lparr>ev_send := ev_send o' \<or> reg, olog := Evchan_write xioq blocked # olog o'\<rparr>)
      else
        let o' = (if has_blocked (xioqs o' xioq) then o'\<lparr>ev_send := False, olog := Send_complete # olog o'\<rparr> else o');
            writeq' = remove1 xioq (writeq o') in
        (Dequeued xioq (v\<lparr>have_v := tailq_first writeq'\<rparr>), o'\<lparr>writeq := writeq'\<rparr>))"

definition svc_ioq_write_release :: "nat \<Rightarrow> write_vars \<Rightarrow> svc_out \<Rightarrow> wphase \<times> svc_out" where
  "svc_ioq_write_release xioq v o' =
     (Looping (v\<lparr>local_counter := local_counter v + (if zc_outstanding (zc_ioqs (dplx o') xioq) > 0 then 1 else 0)\<rparr>),
      o'\<lparr>dplx := svc_ioq_write_finish xioq (dplx o')\<rparr>)"

text \<open>
  After the loop: the bit is cleared, completions are collected, and when the flags allow it and the bit is still
  free it is taken again for one more look at the queue.
\<close>

definition svc_ioq_write_leave :: "write_vars \<Rightarrow> svc_out \<Rightarrow> wphase \<times> svc_out" where
  "svc_ioq_write_leave v o' = (Unlocked v, clear_writing o')"

definition svc_ioq_write_drain :: "svc_params \<Rightarrow> cmsghdr list list \<Rightarrow> write_vars \<Rightarrow> svc_out \<Rightarrow> wphase \<times> svc_out" where
  "svc_ioq_write_drain p errqueue v o' =
     (if tcp_zerocopy_enabled p \<and> (local_counter v < zc_inflight (dplx o') \<or> local_counter v > 8) then
        (Drained (v\<lparr>local_counter := 0\<rparr>), o'\<lparr>dplx := svc_ioq_zc_drain (tcp_zerocopy_enabled p) errqueue (dplx o')\<rparr>)
      else (Drained v, o'))"

definition svc_ioq_write_check :: "svc_params \<Rightarrow> write_vars \<Rightarrow> svc_out \<Rightarrow> wphase" where
  "svc_ioq_write_check p v o' =
     (if tcp_zerocopy_enabled p \<and> \<not> destroy_xprt v \<and> \<not> destroyed o' then Retaking v else Finishing v)"

definition svc_ioq_write_retake :: "write_vars \<Rightarrow> svc_out \<Rightarrow> wphase \<times> svc_out" where
  "svc_ioq_write_retake v o' = (if ioq_writing o' then Finishing v else Retaken v, set_writing o')"

definition svc_ioq_write_look :: "write_vars \<Rightarrow> svc_out \<Rightarrow> wphase" where
  "svc_ioq_write_look v o' = Looked (tailq_first (writeq o')) v"

definition svc_ioq_write_again :: "nat option \<Rightarrow> write_vars \<Rightarrow> svc_out \<Rightarrow> wphase \<times> svc_out" where
  "svc_ioq_write_again have v o' =
     (case have of
        Some xioq \<Rightarrow>
          if \<not> has_blocked (xioqs o' xioq) then (Looping (v\<lparr>have_v := Some xioq\<rparr>), o')
          else (Finishing v, clear_writing o')
      | None \<Rightarrow> (Finishing v, clear_writing o'))"

definition svc_ioq_write_return :: "write_vars \<Rightarrow> svc_out \<Rightarrow> wphase \<times> svc_out" where
  "svc_ioq_write_return v o' = (Idle, if destroy_xprt v then svc_destroy_it o' else o')"

definition add_ioq_to_write_queue :: "nat \<Rightarrow> svc_out \<Rightarrow> bool \<times> svc_out" where
  "add_ioq_to_write_queue xioq o' =
     (if destroyed o' then (False, o'\<lparr>olog := Discard xioq # olog o'\<rparr>)
      else (tailq_first (writeq o') = None, o'\<lparr>writeq := writeq o' @ [xioq], olog := Svc_ref # olog o'\<rparr>))"

definition svc_ioq_write_now :: "nat \<Rightarrow> svc_out \<Rightarrow> wphase \<times> svc_out" where
  "svc_ioq_write_now xioq o' =
     (case add_ioq_to_write_queue xioq o' of
        (need_processing, o') \<Rightarrow> (if need_processing then Entering else Idle, o'))"

text \<open>\<^verbatim>\<open>work_pool_submit\<close> of \<^verbatim>\<open>src/work_pool.c\<close> drops the task when the pool is draining (\<^verbatim>\<open>thrd_max\<close> is 0).\<close>

definition work_pool_submit :: "svc_params \<Rightarrow> nat \<Rightarrow> svc_out \<Rightarrow> wphase \<times> svc_out" where
  "work_pool_submit p xioq o' =
     (if thrd_max p = 0 then (Idle, o') else (Entering, o'\<lparr>olog := Work_submit xioq # olog o'\<rparr>))"

definition svc_ioq_write_submit :: "svc_params \<Rightarrow> nat \<Rightarrow> svc_out \<Rightarrow> wphase \<times> svc_out" where
  "svc_ioq_write_submit p xioq o' =
     (case add_ioq_to_write_queue xioq o' of
        (need_processing, o') \<Rightarrow> if need_processing then work_pool_submit p xioq o' else (Idle, o'))"

text \<open>
  \<^verbatim>\<open>clear_requests\<close>: wait for the bit, drop every reply under the mutex of the queue, then what waits for completions.
  (The wait for a reply whose task is still in the pool is not modelled: the call may go on at any time.)
\<close>

definition clear_requests_take :: "svc_out \<Rightarrow> wphase \<times> svc_out" where
  "clear_requests_take o' = (if ioq_writing o' then Clearing else Clear_taken, set_writing o')"

definition clear_requests_empty :: "svc_out \<Rightarrow> wphase \<times> svc_out" where
  "clear_requests_empty o' =
     (Clear_emptied, o'\<lparr>writeq := [], olog := replicate (length (writeq o')) Svc_unref @ rev (map Discard (writeq o')) @ olog o'\<rparr>)"

definition clear_requests_zc :: "svc_params \<Rightarrow> bool \<Rightarrow> cmsghdr list list list \<Rightarrow> svc_out \<Rightarrow> wphase \<times> svc_out" where
  "clear_requests_zc p any_fd errqueues o' =
     (Cleared, o'\<lparr>dplx := svc_ioq_zc_release_all (tcp_zerocopy_enabled p) any_fd errqueues (dplx o')\<rparr>)"

section \<open>Interleaving\<close>

text \<open>A reply that is handed over for sending, with its bytes.\<close>

definition reply_new :: "svc_xioq \<Rightarrow> bytes \<Rightarrow> bool" where
  "reply_new q bs \<longleftrightarrow> flush_ok q bs \<and> write_start q = 0 \<and> frag_hdr_bytes_sent q = 0 \<and> \<not> has_blocked q"

text \<open>One piece of \<^verbatim>\<open>svc_ioq_write\<close> or of \<^verbatim>\<open>clear_requests\<close>, done by a thread that is in the first phase.\<close>

inductive write_step :: "svc_params \<Rightarrow> bool \<Rightarrow> wphase \<Rightarrow> svc_out \<Rightarrow> wphase \<Rightarrow> svc_out \<Rightarrow> bool" for p failing where
  enter: "svc_ioq_write_enter o' = (ph', o'') \<Longrightarrow> write_step p failing Entering o' ph' o''"
| wait: "svc_ioq_write_wait o' = ph' \<Longrightarrow> write_step p failing Waiting o' ph' o'"
| first: "svc_ioq_write_first o' = ph' \<Longrightarrow> write_step p failing Entered o' ph' o'"
| flush: "svc_ioq_write_flush p rs v o' = Some (ph', rs', o'') \<Longrightarrow> write_step p failing (Looping v) o' ph' o''"
| after: "reg \<or> failing \<Longrightarrow> svc_ioq_write_after reg xioq rc blocked v o' = (ph', o'') \<Longrightarrow>
    write_step p failing (Flushed xioq rc blocked v) o' ph' o''"
| release: "svc_ioq_write_release xioq v o' = (ph', o'') \<Longrightarrow> write_step p failing (Dequeued xioq v) o' ph' o''"
| leave: "svc_ioq_write_leave v o' = (ph', o'') \<Longrightarrow> write_step p failing (Leaving v) o' ph' o''"
| drain: "svc_ioq_write_drain p errqueue v o' = (ph', o'') \<Longrightarrow> write_step p failing (Unlocked v) o' ph' o''"
| check: "svc_ioq_write_check p v o' = ph' \<Longrightarrow> write_step p failing (Drained v) o' ph' o'"
| retake: "svc_ioq_write_retake v o' = (ph', o'') \<Longrightarrow> write_step p failing (Retaking v) o' ph' o''"
| look: "svc_ioq_write_look v o' = ph' \<Longrightarrow> write_step p failing (Retaken v) o' ph' o'"
| again: "svc_ioq_write_again have v o' = (ph', o'') \<Longrightarrow> write_step p failing (Looked have v) o' ph' o''"
| return: "svc_ioq_write_return v o' = (ph', o'') \<Longrightarrow> write_step p failing (Finishing v) o' ph' o''"
| clear: "clear_requests_take o' = (ph', o'') \<Longrightarrow> write_step p failing Clearing o' ph' o''"
| empty: "clear_requests_empty o' = (ph', o'') \<Longrightarrow> write_step p failing Clear_taken o' ph' o''"
| zc: "clear_requests_zc p any_fd errqueues o' = (ph', o'') \<Longrightarrow> write_step p failing Clear_emptied o' ph' o''"

text \<open>
  The states of a connection that the threads can reach, with the replies that have been queued, in order.
  \<open>failing\<close> allows that a registration with the event channel fails.  An event starts a task, which the pool may drop
  when it is draining.  A connection that is being destroyed is unregistered.  \<open>other\<close> stands for everything that
  changes the flags elsewhere; a connection that is being destroyed stays so.
\<close>

inductive out_reach :: "svc_params \<Rightarrow> bool \<Rightarrow> svc_out \<Rightarrow> (nat \<Rightarrow> wphase) \<Rightarrow> bytes list \<Rightarrow> bool" for p failing where
  start: "writeq o' = [] \<Longrightarrow> wire o' = [] \<Longrightarrow> \<not> ioq_writing o' \<Longrightarrow> out_reach p failing o' (\<lambda>_. Idle) []"
| queue: "out_reach p failing o' ph adds \<Longrightarrow> ph t = Idle \<Longrightarrow> xioq \<notin> set (writeq o') \<Longrightarrow> reply_new q bs \<Longrightarrow>
    f = svc_ioq_write_now \<or> f = svc_ioq_write_submit p \<Longrightarrow>
    f xioq (o'\<lparr>xioqs := (xioqs o')(xioq := q)\<rparr>) = (ph', o'') \<Longrightarrow>
    out_reach p failing o'' (ph(t := ph')) (if destroyed o' then adds else adds @ [bs])"
| event: "out_reach p failing o' ph adds \<Longrightarrow> ph t = Idle \<Longrightarrow> ev_send o' \<Longrightarrow> ph' = Entering \<or> ph' = Idle \<and> thrd_max p = 0 \<Longrightarrow>
    out_reach p failing (o'\<lparr>ev_send := False\<rparr>) (ph(t := ph')) adds"
| unregister: "out_reach p failing o' ph adds \<Longrightarrow> ph t = Idle \<Longrightarrow> destroyed o' \<Longrightarrow> out_reach p failing o' (ph(t := Clearing)) adds"
| step: "out_reach p failing o' ph adds \<Longrightarrow> write_step p failing (ph t) o' ph' o'' \<Longrightarrow> out_reach p failing o'' (ph(t := ph')) adds"
| other: "out_reach p failing o' ph adds \<Longrightarrow> fl AND SVC_XPRT_FLAG_IOQ_WRITING = xp_flags o' AND SVC_XPRT_FLAG_IOQ_WRITING \<Longrightarrow>
    destroyed o' \<longrightarrow> fl AND SVC_XPRT_FLAG_DESTROYED \<noteq> 0 \<Longrightarrow> out_reach p failing (o'\<lparr>xp_flags := fl\<rparr>) ph adds"

section \<open>The flags\<close>

lemma flag_bits:
  "f AND 0x800 = 0 \<longleftrightarrow> \<not> bit f 11" "f AND 0x20 = 0 \<longleftrightarrow> \<not> bit f 5" "f AND 0x60 = 0 \<longleftrightarrow> \<not> bit f 5 \<and> \<not> bit f 6" for f :: u16
proof -
  have "(0x60 :: u16) = 0x20 OR 0x40" by simp
  then show "f AND 0x60 = 0 \<longleftrightarrow> \<not> bit f 5 \<and> \<not> bit f 6"
    using and_exp_eq_0_iff_not_bit [of f 5] and_exp_eq_0_iff_not_bit [of f 6]
    by (simp only: bit.conj_disj_distrib or_eq_0_iff) simp
qed (use and_exp_eq_0_iff_not_bit [of f 11] and_exp_eq_0_iff_not_bit [of f 5] in simp_all)

lemma flag_update_bits:
  "bit (f OR 0x800) 11" "bit (f OR 0x800) 5 = bit f 5" "bit (f OR 0x800) 6 = bit f 6"
  "bit (f OR 0x20) 11 = bit f 11" "bit (f OR 0x20) 5" "bit (f OR 0x20) 6 = bit f 6"
  "\<not> bit (f AND NOT 0x800) 11" "bit (f AND NOT 0x800) 5 = bit f 5" "bit (f AND NOT 0x800) 6 = bit f 6" for f :: u16
  by (simp_all add: bit_or_iff bit_and_iff bit_not_iff)

lemma writing_simps [simp]:
  "ioq_writing (set_writing o')" "\<not> ioq_writing (clear_writing o')" "destroyed (set_writing o') = destroyed o'"
  "destroyed (clear_writing o') = destroyed o'" "ioq_writing (svc_destroy_it o') = ioq_writing o'" "destroyed (svc_destroy_it o')"
  unfolding ioq_writing_def set_writing_def clear_writing_def destroyed_def svc_destroy_it_def flag_bits
  by (simp_all add: flag_update_bits bit_and_iff)

lemma writing_frame [simp]:
  "writeq (set_writing o') = writeq o'" "wire (set_writing o') = wire o'" "xioqs (set_writing o') = xioqs o'" "ev_send (set_writing o') = ev_send o'"
  "writeq (clear_writing o') = writeq o'" "wire (clear_writing o') = wire o'" "xioqs (clear_writing o') = xioqs o'" "ev_send (clear_writing o') = ev_send o'"
  "writeq (svc_destroy_it o') = writeq o'" "wire (svc_destroy_it o') = wire o'" "xioqs (svc_destroy_it o') = xioqs o'" "ev_send (svc_destroy_it o') = ev_send o'"
  by (simp_all add: set_writing_def clear_writing_def svc_destroy_it_def)

lemma flags_upd [simp]:
  "ioq_writing (o'\<lparr>writeq := a\<rparr>) = ioq_writing o'" "ioq_writing (o'\<lparr>wire := b\<rparr>) = ioq_writing o'" "ioq_writing (o'\<lparr>xioqs := c\<rparr>) = ioq_writing o'"
  "ioq_writing (o'\<lparr>ev_send := d\<rparr>) = ioq_writing o'" "ioq_writing (o'\<lparr>olog := e\<rparr>) = ioq_writing o'" "ioq_writing (o'\<lparr>dplx := g\<rparr>) = ioq_writing o'"
  "destroyed (o'\<lparr>writeq := a\<rparr>) = destroyed o'" "destroyed (o'\<lparr>wire := b\<rparr>) = destroyed o'" "destroyed (o'\<lparr>xioqs := c\<rparr>) = destroyed o'"
  "destroyed (o'\<lparr>ev_send := d\<rparr>) = destroyed o'" "destroyed (o'\<lparr>olog := e\<rparr>) = destroyed o'" "destroyed (o'\<lparr>dplx := g\<rparr>) = destroyed o'"
  by (simp_all add: ioq_writing_def destroyed_def)

section \<open>One writer at a time\<close>

text \<open>The phases in which a thread holds the bit.\<close>

fun holding :: "wphase \<Rightarrow> bool" where
  "holding Entered = True"
| "holding (Looping v) = True"
| "holding (Flushed x rc b v) = True"
| "holding (Dequeued x v) = True"
| "holding (Leaving v) = True"
| "holding (Retaken v) = True"
| "holding (Looked h v) = True"
| "holding Clear_taken = True"
| "holding Clear_emptied = True"
| "holding Cleared = True"
| "holding _ = False"

definition out_excl :: "svc_out \<Rightarrow> (nat \<Rightarrow> wphase) \<Rightarrow> bool" where
  "out_excl o' ph \<longleftrightarrow> (\<forall>t u. holding (ph t) \<longrightarrow> holding (ph u) \<longrightarrow> t = u) \<and> (ioq_writing o' \<longleftrightarrow> (\<exists>t. holding (ph t)))"

lemma out_excl_keep:
  "out_excl o' ph \<Longrightarrow> holding ph' = holding (ph t) \<Longrightarrow> ioq_writing o'' = ioq_writing o' \<Longrightarrow> out_excl o'' (ph(t := ph'))"
  unfolding out_excl_def fun_upd_apply by metis

lemma out_excl_take:
  "out_excl o' ph \<Longrightarrow> \<not> ioq_writing o' \<Longrightarrow> holding ph' \<Longrightarrow> ioq_writing o'' \<Longrightarrow> out_excl o'' (ph(t := ph'))"
  unfolding out_excl_def fun_upd_apply by metis

lemma out_excl_drop:
  "out_excl o' ph \<Longrightarrow> holding (ph t) \<Longrightarrow> \<not> holding ph' \<Longrightarrow> \<not> ioq_writing o'' \<Longrightarrow> out_excl o'' (ph(t := ph'))"
  unfolding out_excl_def fun_upd_apply by metis

lemma add_frame:
  assumes "f = svc_ioq_write_now \<or> f = svc_ioq_write_submit p" "f xioq o' = (ph', o'')"
  shows "\<not> holding ph'" "ioq_writing o'' = ioq_writing o'" "destroyed o'' = destroyed o'" "wire o'' = wire o'" "xioqs o'' = xioqs o'"
    "ev_send o'' = ev_send o'" "writeq o'' = (if destroyed o' then writeq o' else writeq o' @ [xioq])"
    "ph' = Idle \<or> ph' = Entering" "thrd_max p \<noteq> 0 \<Longrightarrow> ph' = (if \<not> destroyed o' \<and> writeq o' = [] then Entering else Idle)"
  using assms
  by (auto simp: svc_ioq_write_now_def svc_ioq_write_submit_def work_pool_submit_def add_ioq_to_write_queue_def tailq_first_def split: if_splits list.splits)

lemmas piece_defs =
  svc_ioq_write_enter_def svc_ioq_write_wait_def svc_ioq_write_first_def svc_ioq_write_release_def svc_ioq_write_leave_def
  svc_ioq_write_drain_def svc_ioq_write_check_def svc_ioq_write_retake_def svc_ioq_write_look_def svc_ioq_write_again_def
  svc_ioq_write_return_def clear_requests_take_def clear_requests_empty_def clear_requests_zc_def

lemma after_cases:
  assumes "svc_ioq_write_after reg xioq rc blocked v o' = (ph', o'')"
  shows "wire o'' = wire o'" "xioqs o'' = xioqs o'" "destroyed o'' = destroyed o'" "ioq_writing o'' = ioq_writing o'" "holding ph'"
    "(rc < 0 \<or> destroyed o') \<and> writeq o'' = writeq o' \<and> ev_send o'' = ev_send o' \<and> (\<exists>v. ph' = Leaving v \<and> destroy_xprt v) \<or>
     rc = 11 \<and> writeq o'' = writeq o' \<and> ev_send o'' = (ev_send o' \<or> reg) \<and> ph' = Leaving v \<or>
     rc \<ge> 0 \<and> rc \<noteq> 11 \<and> \<not> destroyed o' \<and> writeq o'' = remove1 xioq (writeq o') \<and>
       (\<exists>v. ph' = Dequeued xioq v \<and> have_v v = tailq_first (writeq o''))"
  using assms by (auto simp: svc_ioq_write_after_def Let_def split: if_splits)

lemma flush_cases:
  assumes "svc_ioq_write_flush p rs v o' = Some (ph', rs', o'')"
  shows "writeq o'' = writeq o'" "destroyed o'' = destroyed o'" "ioq_writing o'' = ioq_writing o'" "ev_send o'' = ev_send o'" "holding ph'"
    "have_v v = None \<and> ph' = Leaving v \<and> o'' = o' \<or>
     (\<exists>x blocked. have_v v = Some x \<and> (thrd_max p = 0 \<or> destroyed o') \<and> ph' = Flushed x 0 blocked v \<and> o'' = o') \<or>
     (\<exists>x blocked rc q d. have_v v = Some x \<and> \<not> destroyed o' \<and> ph' = Flushed x rc blocked v \<and>
        svc_ioq_flushv p x rs (xioqs o' x) (dplx o') (wire o') = Some (rc, rs', q, d, wire o'') \<and>
        xioqs o'' = (xioqs o')(x := q))"
  using assms by (auto simp: svc_ioq_write_flush_def Let_def split: if_splits option.splits)

text \<open>A piece takes the bit, gives it back, or neither; without the bit, it leaves the queue and the wire alone.\<close>

lemma write_step_bit:
  assumes "write_step p failing f o' f' o''"
  shows "\<not> holding f \<and> \<not> ioq_writing o' \<and> holding f' \<and> ioq_writing o'' \<or> holding f \<and> \<not> holding f' \<and> \<not> ioq_writing o'' \<or>
    holding f' = holding f \<and> ioq_writing o'' = ioq_writing o'"
  using assms
proof cases
  case (flush rs v rs')
  then show ?thesis using flush_cases(3,5) by fastforce
next
  case (after reg xioq rc blocked v)
  then show ?thesis using after_cases(4,5) by fastforce
qed (auto simp: piece_defs split: if_splits option.splits)

lemma write_step_mono: "write_step p failing f o' f' o'' \<Longrightarrow> destroyed o' \<Longrightarrow> destroyed o''"
  by (erule write_step.cases) (auto simp: piece_defs flush_cases(2) after_cases(3) split: if_splits option.splits)

lemma write_step_outside:
  assumes "write_step p failing f o' f' o''" "\<not> holding f"
  shows "writeq o'' = writeq o'" "wire o'' = wire o'" "xioqs o'' = xioqs o'" "ev_send o'' = ev_send o'"
    "holding f' \<Longrightarrow> f' = Entered \<or> f' = Clear_taken \<or> (\<exists>v. f' = Retaken v)" "holding f' \<Longrightarrow> destroyed o'' = destroyed o'"
  using assms by (cases; auto simp: piece_defs split: if_splits option.splits)+

lemma out_reach_excl: "out_reach p failing o' ph adds \<Longrightarrow> out_excl o' ph"
proof (induction rule: out_reach.induct)
  case (start o')
  then show ?case by (simp add: out_excl_def)
next
  case (queue o' ph adds t xioq q bs f ph' o'')
  then show ?case using add_frame [OF queue(5,6)] by (intro out_excl_keep [OF queue.IH]) auto
next
  case (event o' ph adds t ph')
  then show ?case by (intro out_excl_keep [OF event.IH]) auto
next
  case (unregister o' ph adds t)
  then show ?case by (intro out_excl_keep [OF unregister.IH]) auto
next
  case (step o' ph adds t ph' o'')
  from write_step_bit [OF step(2)] show ?case
    using out_excl_take [OF step.IH, of ph' o'' t] out_excl_drop [OF step.IH, of t ph' o''] out_excl_keep [OF step.IH, of ph' t o''] by blast
next
  case (other o' ph adds fl)
  then show ?case by (simp add: out_excl_def ioq_writing_def)
qed

section \<open>What the peer reads\<close>

lemma flushv_outcome:
  assumes "flush_ok q bs" "rm_sent q bs \<noteq> rm_record bs" "svc_ioq_flushv p xioq rs q d w = Some res"
  shows "flush_outcome q bs w res"
proof -
  have "unat (write_start q) < length bs" using assms(1,2) rm_sent_all by (fastforce simp: flush_ok_def)
  then obtain f where f: "svc_ioq_flushv p xioq rs q d w = svc_ioq_flushv_loop p xioq rs f (q\<lparr>xstream := xdr_tail_update (xstream q)\<rparr>) d w"
      "flush_vars_ok (q\<lparr>xstream := xdr_tail_update (xstream q)\<rparr>) bs f"
    using flushv_start [OF assms(1)] by blast
  have "flush_outcome (q\<lparr>xstream := xdr_tail_update (xstream q)\<rparr>) bs w res"
    using flush_loop_outcome(1) [OF _ flush_ok_tail [OF assms(1)] f(2)] assms(3) f(1) by simp
  then show ?thesis using flush_outcome_trans [of "q\<lparr>xstream := xdr_tail_update (xstream q)\<rparr>" bs q "[]" w res] by simp
qed

definition out_data :: "svc_out \<Rightarrow> bytes list \<Rightarrow> bytes list \<Rightarrow> bool" where
  "out_data o' fin pend \<longleftrightarrow> distinct (writeq o') \<and> list_all2 (\<lambda>x. flush_ok (xioqs o' x)) (writeq o') pend \<and>
     list_all2 (\<lambda>x b. rm_sent (xioqs o' x) b = []) (tl (writeq o')) (tl pend) \<and>
     wire o' = concat (map rm_record fin) @ (case pend of [] \<Rightarrow> [] | b # _ \<Rightarrow> rm_sent (xioqs o' (hd (writeq o'))) b)"

lemma rm_record_ne [simp]: "rm_record bs \<noteq> []" "[] \<noteq> rm_record bs"
  by (simp_all add: rm_record_def flip: length_0_conv)

lemma out_data_cases:
  assumes "out_data o' fin pend"
  obtains "writeq o' = []" "pend = []"
  | x ws b bs where "writeq o' = x # ws" "pend = b # bs" "flush_ok (xioqs o' x) b" "x \<notin> set ws"
  using assms by (cases "writeq o'"; cases pend) (auto simp: out_data_def)

lemma pending_on:
  assumes "\<And>x. x \<in> set xs \<Longrightarrow> f x = g x"
  shows "list_all2 (\<lambda>x. flush_ok (f x)) xs ys = list_all2 (\<lambda>x. flush_ok (g x)) xs ys"
    "list_all2 (\<lambda>x b. rm_sent (f x) b = []) xs ys = list_all2 (\<lambda>x b. rm_sent (g x) b = []) xs ys"
  using assms by (auto simp: list_all2_conv_all_nth)

lemma out_data_frame:
  assumes "out_data o' fin pend" "writeq o'' = writeq o'" "wire o'' = wire o'" "\<And>x. x \<in> set (writeq o') \<Longrightarrow> xioqs o'' x = xioqs o' x"
  shows "out_data o'' fin pend"
  using assms(1)
proof (cases rule: out_data_cases)
  case 1
  then show ?thesis using assms by (simp add: out_data_def)
next
  case (2 x ws b bs)
  have on: "x \<in> set ws \<Longrightarrow> xioqs o'' x = xioqs o' x" for x using assms(4) 2(1) by simp
  with assms 2 pending_on [where xs = ws and f = "xioqs o''" and g = "xioqs o'" and ys = bs, OF on] show ?thesis by (simp add: out_data_def)
qed

lemma out_data_add:
  assumes "out_data o' fin pend" "reply_new q bs" "x \<notin> set (writeq o')"
    "writeq o'' = writeq o' @ [x]" "wire o'' = wire o'" "xioqs o'' = (xioqs o')(x := q)"
  shows "out_data o'' fin (pend @ [bs])"
proof -
  have new: "flush_ok q bs" "rm_sent q bs = []" using assms(2) by (auto simp: reply_new_def rm_sent_def)
  define o1 where "o1 = o'\<lparr>xioqs := (xioqs o')(x := q)\<rparr>"
  have "out_data o1 fin pend" by (rule out_data_frame [OF assms(1)]) (use assms(3) in \<open>auto simp: o1_def\<close>)
  then show ?thesis
  proof (cases rule: out_data_cases)
    case 1
    then show ?thesis using assms new by (simp add: out_data_def o1_def)
  next
    case (2 y ws b bs')
    with \<open>out_data o1 fin pend\<close> show ?thesis using assms new by (auto simp: out_data_def o1_def list_all2_appendI)
  qed
qed

lemma out_data_flush:
  assumes "out_data o' fin pend" "writeq o' = x # ws" "flush_outcome (xioqs o' x) (hd pend) (wire o') (rc, rs, q, d, wire o'')"
    "writeq o'' = writeq o'" "xioqs o'' = (xioqs o')(x := q)"
  shows "out_data o'' fin pend"
  using assms(1)
proof (cases rule: out_data_cases)
  case (2 x' ws' b bs)
  have on: "y \<in> set ws \<Longrightarrow> xioqs o'' y = xioqs o' y" for y using assms(2,5) 2 by auto
  with assms(1-4) 2 pending_on [where xs = ws and f = "xioqs o''" and g = "xioqs o'" and ys = bs, OF on] show ?thesis by (auto simp: out_data_def flush_outcome_def assms(5))
qed (use assms in simp)

lemma out_data_dequeue:
  assumes "out_data o' fin pend" "writeq o' = x # ws" "rm_sent (xioqs o' x) (hd pend) = rm_record (hd pend)"
    "writeq o'' = ws" "wire o'' = wire o'" "xioqs o'' = xioqs o'"
  shows "out_data o'' (fin @ [hd pend]) (tl pend) \<and> pend \<noteq> [] \<and>
    (tl pend = [] \<or> rm_sent (xioqs o'' (hd ws)) (hd (tl pend)) \<noteq> rm_record (hd (tl pend)))"
  using assms(1)
proof (cases rule: out_data_cases)
  case (2 x' ws' b bs)
  with assms have "list_all2 (\<lambda>x. flush_ok (xioqs o' x)) ws bs" "list_all2 (\<lambda>x b. rm_sent (xioqs o' x) b = []) ws bs" "distinct ws"
      "wire o' = concat (map rm_record (fin @ [b]))"
    by (auto simp: out_data_def)
  with assms 2 show ?thesis by (cases ws; cases bs) (auto simp: out_data_def)
qed (use assms in simp)

text \<open>What the thread that holds the bit knows of the head of the queue.\<close>

fun phase_ok :: "svc_out \<Rightarrow> bytes list \<Rightarrow> wphase \<Rightarrow> bool" where
  "phase_ok o' pend (Looping v) = (have_v v = None \<or> have_v v = tailq_first (writeq o'))"
| "phase_ok o' pend (Flushed x rc blocked v) =
     (tailq_first (writeq o') = Some x \<and>
      (destroyed o' \<or> (rc < 0 \<or> rc = 11) \<noteq> (rm_sent (xioqs o' x) (hd pend) = rm_record (hd pend))))"
| "phase_ok o' pend (Dequeued x v) = (have_v v = None \<or> have_v v = tailq_first (writeq o'))"
| "phase_ok o' pend (Looked h v) = (h = None \<or> h = tailq_first (writeq o'))"
| "phase_ok o' pend _ = True"

fun flushed :: "wphase \<Rightarrow> bool" where
  "flushed (Flushed x rc blocked v) = True"
| "flushed _ = False"

definition head_open :: "svc_out \<Rightarrow> bytes list \<Rightarrow> bool" where
  "head_open o' pend \<longleftrightarrow> destroyed o' \<or> pend = [] \<or> rm_sent (xioqs o' (hd (writeq o'))) (hd pend) \<noteq> rm_record (hd pend)"

text \<open>
  The invariant while the connection has its queue, and after \<^verbatim>\<open>clear_requests\<close> has emptied it, when nothing is sent any
  more.
\<close>

definition out_live :: "svc_out \<Rightarrow> (nat \<Rightarrow> wphase) \<Rightarrow> bytes list \<Rightarrow> bool" where
  "out_live o' ph adds \<longleftrightarrow> (\<exists>fin pend. adds = fin @ pend \<and> out_data o' fin pend \<and> (\<forall>t. phase_ok o' pend (ph t)) \<and>
     ((\<exists>t. flushed (ph t)) \<or> head_open o' pend))"

definition emptied :: "wphase \<Rightarrow> bool" where
  "emptied f \<longleftrightarrow> f = Clear_emptied \<or> f = Cleared"

definition out_prefix :: "svc_out \<Rightarrow> bytes list \<Rightarrow> bool" where
  "out_prefix o' adds \<longleftrightarrow> (\<exists>rest. concat (map rm_record adds) = wire o' @ rest)"

definition out_inv :: "svc_out \<Rightarrow> (nat \<Rightarrow> wphase) \<Rightarrow> bytes list \<Rightarrow> bool" where
  "out_inv o' ph adds \<longleftrightarrow> (if \<exists>t. emptied (ph t) then writeq o' = [] \<and> destroyed o' \<and> out_prefix o' adds else out_live o' ph adds)"

lemma phase_free: "\<not> holding f \<Longrightarrow> phase_ok o' pend f" "\<not> holding f \<Longrightarrow> \<not> flushed f" "\<not> holding f \<Longrightarrow> \<not> emptied f"
  by (cases f; simp add: emptied_def)+

lemma emptied_simps [simp]:
  "emptied Clear_emptied" "emptied Cleared" "\<not> emptied Entered" "\<not> emptied (Looping v)" "\<not> emptied (Flushed x rc b v)" "\<not> emptied (Dequeued x v)"
  "\<not> emptied (Leaving v)" "\<not> emptied (Retaken v)" "\<not> emptied (Looked h v)" "\<not> emptied (Unlocked v)" "\<not> emptied (Finishing v)" "\<not> emptied Clear_taken"
  by (simp_all add: emptied_def)

lemma out_data_prefix:
  assumes "out_data o' fin pend"
  shows "out_prefix o' (fin @ pend)"
  using assms
proof (cases rule: out_data_cases)
  case 1
  with assms show ?thesis by (simp add: out_data_def out_prefix_def)
next
  case (2 x ws b bs)
  have "\<exists>r. rm_record b = rm_sent (xioqs o' x) b @ r"
    by (rule exI [of _ "drop (length (rm_sent (xioqs o' x) b)) (rm_record b)"]) (use 2(3) in \<open>auto simp: rm_sent_def rm_record_def flush_ok_def min_def\<close>)
  with assms 2 show ?thesis by (auto simp: out_data_def out_prefix_def)
qed

text \<open>A thread that holds the bit, or finds it free, is the only one in the parts that hold it.\<close>

lemma only_holder:
  assumes "out_excl o' ph" "holding (ph t) \<or> \<not> ioq_writing o'" "u \<noteq> t"
  shows "\<not> holding (ph u)"
  using assms unfolding out_excl_def by metis

lemma live_holder:
  assumes "out_excl o' ph" "out_inv o' ph adds" "holding (ph t) \<and> \<not> emptied (ph t) \<or> \<not> ioq_writing o'"
  shows "out_live o' ph adds"
proof -
  have "\<not> emptied (ph u)" for u
    using only_holder [OF assms(1), of t u] assms(1,3) phase_free(3) unfolding out_excl_def by (cases "u = t") blast+
  then show ?thesis using assms(2) by (simp add: out_inv_def)
qed

lemma live_open:
  assumes "out_excl o' ph" "out_live o' ph adds" "holding (ph t) \<and> \<not> flushed (ph t) \<or> \<not> ioq_writing o'"
  obtains fin pend where "adds = fin @ pend" "out_data o' fin pend" "phase_ok o' pend (ph t)" "head_open o' pend"
proof -
  have "\<not> flushed (ph u)" for u
    using only_holder [OF assms(1), of t u] assms(1,3) phase_free(2) unfolding out_excl_def by (cases "u = t") blast+
  with assms(2) that show ?thesis unfolding out_live_def by blast
qed

lemma out_live_holder:
  assumes "out_excl o' ph" "holding (ph t) \<or> \<not> ioq_writing o'" "adds = fin @ pend" "out_data o'' fin pend" "phase_ok o'' pend ph'"
    "flushed ph' \<or> head_open o'' pend" "\<not> emptied ph'"
  shows "out_inv o'' (ph(t := ph')) adds"
proof -
  have n: "u \<noteq> t \<Longrightarrow> \<not> holding (ph u)" for u using only_holder [OF assms(1,2)] .
  then have "phase_ok o'' pend ((ph(t := ph')) u)" for u using assms(5) phase_free(1) by (cases "u = t") auto
  moreover have "(\<exists>u. flushed ((ph(t := ph')) u)) \<or> head_open o'' pend" using assms(6) by fastforce
  moreover have "\<not> emptied ((ph(t := ph')) u)" for u using n assms(7) phase_free(3) by (cases "u = t") auto
  ultimately have "out_live o'' (ph(t := ph')) adds" "\<not> (\<exists>u. emptied ((ph(t := ph')) u))" using assms(3,4) unfolding out_live_def by blast+
  then show ?thesis unfolding out_inv_def by simp
qed

lemma phase_ok_frame:
  assumes "phase_ok o' pend f" "writeq o'' = writeq o'" "\<And>x. x \<in> set (writeq o') \<Longrightarrow> xioqs o'' x = xioqs o' x" "destroyed o' \<longrightarrow> destroyed o''"
  shows "phase_ok o'' pend f"
  using assms by (cases f; cases "writeq o'") (auto simp: tailq_first_def)

text \<open>A step of a thread without the bit.\<close>

lemma out_inv_frame:
  assumes "out_inv o' ph adds" "writeq o'' = writeq o'" "wire o'' = wire o'" "\<And>x. x \<in> set (writeq o') \<Longrightarrow> xioqs o'' x = xioqs o' x"
    "destroyed o' \<longrightarrow> destroyed o''" "\<not> holding ph'" "\<not> holding (ph t)"
  shows "out_inv o'' (ph(t := ph')) adds"
proof -
  have e: "(\<exists>u. emptied ((ph(t := ph')) u)) = (\<exists>u. emptied (ph u))" using phase_free(3) [OF assms(6)] phase_free(3) [OF assms(7)] by auto
  show ?thesis
  proof (cases "\<exists>u. emptied (ph u)")
    case True
    then show ?thesis using assms(1-5) unfolding out_inv_def e by (simp add: out_prefix_def)
  next
    case False
    then obtain fin pend where i: "adds = fin @ pend" "out_data o' fin pend" "\<forall>t. phase_ok o' pend (ph t)" "(\<exists>t. flushed (ph t)) \<or> head_open o' pend"
      using assms(1) by (auto simp: out_inv_def out_live_def)
    have "out_data o'' fin pend" by (rule out_data_frame [OF i(2) assms(2-4)])
    moreover have "phase_ok o'' pend ((ph(t := ph')) u)" for u
      using phase_ok_frame [OF _ assms(2,4,5)] i(3) phase_free(1) [OF assms(6)] by simp
    moreover have "head_open o' pend \<Longrightarrow> head_open o'' pend"
      using i(2) assms(2,4,5) by (cases rule: out_data_cases) (auto simp: head_open_def)
    moreover have "\<exists>u. flushed (ph u) \<Longrightarrow> \<exists>u. flushed ((ph(t := ph')) u)"
      using phase_free(2) [OF assms(7)] by fastforce
    ultimately have "out_live o'' (ph(t := ph')) adds" using i(1,4) unfolding out_live_def by blast
    then show ?thesis using False e by (simp add: out_inv_def)
  qed
qed

text \<open>The steps of the thread with the bit.\<close>

lemma out_inv_flush:
  assumes "out_inv o' ph adds" "out_excl o' ph" "ph t = Looping v" "svc_ioq_write_flush p rs v o' = Some (ph', rs', o'')" "thrd_max p \<noteq> 0"
  shows "out_inv o'' (ph(t := ph')) adds"
proof -
  have l: "out_live o' ph adds" by (rule live_holder [OF assms(2,1), of t]) (simp add: assms(3))
  obtain fin pend where i: "adds = fin @ pend" "out_data o' fin pend" "phase_ok o' pend (Looping v)" "head_open o' pend"
    by (rule live_open [OF assms(2) l, of t]) (use assms(3) in auto)
  note h = out_live_holder [OF assms(2) _ i(1), of t o'' ph']
  from flush_cases(6) [OF assms(4)] consider "have_v v = None" "ph' = Leaving v" "o'' = o'"
    | x blocked where "have_v v = Some x" "destroyed o'" "ph' = Flushed x 0 blocked v" "o'' = o'"
    | x blocked rc q d where "have_v v = Some x" "\<not> destroyed o'" "ph' = Flushed x rc blocked v"
        "svc_ioq_flushv p x rs (xioqs o' x) (dplx o') (wire o') = Some (rc, rs', q, d, wire o'')" "xioqs o'' = (xioqs o')(x := q)"
    using assms(5) by (elim disjE exE conjE) simp_all
  then show ?thesis
  proof cases
    case 1
    then show ?thesis using h i assms(3) by simp
  next
    case 2
    then show ?thesis using h i assms(3) by simp
  next
    case 3
    then have wq: "tailq_first (writeq o') = Some x" using i(3) by simp
    from i(2) show ?thesis
    proof (cases rule: out_data_cases)
      case c: (2 x' ws b bs)
      then have x: "x' = x" using wq by (simp add: tailq_first_def)
      have fo: "flush_outcome (xioqs o' x) b (wire o') (rc, rs', q, d, wire o'')"
        using flushv_outcome [OF c(3), unfolded x] 3 i(4) c x by (simp add: head_open_def)
      have "out_data o'' fin pend"
        using out_data_flush [OF i(2) c(1) [unfolded x]] fo c(2) 3(5) flush_cases(1) [OF assms(4)] by simp
      moreover have "phase_ok o'' pend ph'"
        using fo 3 c x wq flush_cases(1,2) [OF assms(4)] by (auto simp: flush_outcome_def)
      ultimately show ?thesis using h assms(3) 3(3) by simp
    qed (use wq in \<open>simp add: tailq_first_def\<close>)
  qed
qed

lemma out_inv_after:
  assumes "out_inv o' ph adds" "out_excl o' ph" "ph t = Flushed x rc blocked v" "svc_ioq_write_after reg x rc blocked v o' = (ph', o'')"
  shows "out_inv o'' (ph(t := ph')) adds"
proof -
  have "out_live o' ph adds" by (rule live_holder [OF assms(2,1), of t]) (simp add: assms(3))
  then obtain fin pend where i: "adds = fin @ pend" "out_data o' fin pend" "phase_ok o' pend (Flushed x rc blocked v)"
    using assms(3) unfolding out_live_def by metis
  obtain ws b bs where c: "writeq o' = x # ws" "pend = b # bs" "flush_ok (xioqs o' x) b" "x \<notin> set ws"
    using i(2,3) by (cases rule: out_data_cases) (auto simp: tailq_first_def)
  note a = after_cases [OF assms(4)]
  have stay: "writeq o'' = writeq o' \<Longrightarrow> out_data o'' fin pend" by (rule out_data_frame [OF i(2)]) (simp_all add: a)
  from a(6) consider "rc < 0 \<or> destroyed o'" "writeq o'' = writeq o'" "\<exists>v. ph' = Leaving v"
    | "rc = 11" "writeq o'' = writeq o'" "\<exists>v. ph' = Leaving v"
    | v' where "rc \<ge> 0" "rc \<noteq> 11" "\<not> destroyed o'" "writeq o'' = ws" "ph' = Dequeued x v'" "have_v v' = tailq_first (writeq o'')"
    using c(1) by auto
  then show ?thesis
  proof cases
    case 3
    have "out_data o'' (fin @ [hd pend]) (tl pend) \<and> pend \<noteq> [] \<and>
        (tl pend = [] \<or> rm_sent (xioqs o'' (hd ws)) (hd (tl pend)) \<noteq> rm_record (hd (tl pend)))"
      by (rule out_data_dequeue [OF i(2) c(1)]) (use i(3) 3 c a in auto)
    then show ?thesis
      by (intro out_live_holder [OF assms(2), of t adds "fin @ [hd pend]" "tl pend" o'' ph']) (use i(1) 3 c assms(3) in \<open>auto simp: head_open_def\<close>)
  qed (use out_live_holder [OF assms(2) _ i(1) stay, of t ph'] i(3) c a assms(3) in \<open>auto simp: head_open_def\<close>)
qed

text \<open>A piece that neither sends nor dequeues.\<close>

lemma out_inv_quiet:
  assumes "out_inv o' ph adds" "out_excl o' ph" "holding (ph t) \<and> \<not> flushed (ph t) \<and> \<not> emptied (ph t) \<or> \<not> ioq_writing o'"
    "writeq o'' = writeq o'" "wire o'' = wire o'" "xioqs o'' = xioqs o'" "destroyed o'' = destroyed o'" "\<not> emptied ph'"
    "\<And>pend. phase_ok o' pend (ph t) \<Longrightarrow> phase_ok o'' pend ph'"
  shows "out_inv o'' (ph(t := ph')) adds"
proof -
  have l: "out_live o' ph adds" using live_holder [OF assms(2,1), of t] assms(3) by blast
  obtain fin pend where i: "adds = fin @ pend" "out_data o' fin pend" "phase_ok o' pend (ph t)" "head_open o' pend"
    by (rule live_open [OF assms(2) l, of t]) (use assms(3) in auto)
  have "out_data o'' fin pend" by (rule out_data_frame [OF i(2) assms(4,5)]) (simp add: assms(6))
  moreover have "head_open o'' pend" using i(4) assms(4,6,7) by (simp add: head_open_def)
  ultimately show ?thesis using out_live_holder [OF assms(2) _ i(1), of t o'' ph'] assms(3,8,9) i(3) by blast
qed

lemma out_inv_empty:
  assumes "out_inv o' ph adds" "out_excl o' ph" "ph t = Clear_taken" "clear_requests_empty o' = (ph', o'')" "destroyed o'"
  shows "out_inv o'' (ph(t := ph')) adds"
proof -
  have "out_live o' ph adds" by (rule live_holder [OF assms(2,1), of t]) (simp add: assms(3))
  then have "out_prefix o' adds" using out_data_prefix unfolding out_live_def by blast
  moreover have "ph' = Clear_emptied" "writeq o'' = []" "wire o'' = wire o'" "destroyed o''"
    using assms(4,5) by (auto simp: clear_requests_empty_def)
  ultimately show ?thesis by (auto simp: out_inv_def out_prefix_def)
qed

lemma out_inv_step:
  assumes "out_inv o' ph adds" "out_excl o' ph" "write_step p failing (ph t) o' ph' o''" "thrd_max p \<noteq> 0" "ph t = Clear_taken \<longrightarrow> destroyed o'"
  shows "out_inv o'' (ph(t := ph')) adds"
proof (cases "holding (ph t)")
  case False
  note o = write_step_outside [OF assms(3) False]
  show ?thesis
  proof (cases "holding ph'")
    case True
    then have "\<not> ioq_writing o'" using write_step_bit [OF assms(3)] False by blast
    then show ?thesis using o(5,6) [OF True] by (intro out_inv_quiet [OF assms(1,2)]) (auto simp: o)
  next
    case f: False
    show ?thesis by (rule out_inv_frame [OF assms(1)]) (use o f False write_step_mono [OF assms(3)] in simp_all)
  qed
next
  case True
  from assms(3) show ?thesis
  proof cases
    case (flush rs v rs')
    then show ?thesis using out_inv_flush [OF assms(1,2)] assms(4) by metis
  next
    case (after reg xioq rc blocked v)
    then show ?thesis using out_inv_after [OF assms(1,2)] by metis
  next
    case empty
    then show ?thesis using out_inv_empty [OF assms(1,2)] assms(5) by metis
  next
    case (zc any_fd errqueues)
    then have e: "emptied (ph t)" "ph' = Cleared" "writeq o'' = writeq o'" "wire o'' = wire o'" "destroyed o'' = destroyed o'"
      by (auto simp: clear_requests_zc_def)
    then have "writeq o' = [] \<and> destroyed o' \<and> out_prefix o' adds" using assms(1) unfolding out_inv_def by (metis (full_types))
    moreover have "\<exists>u. emptied ((ph(t := ph')) u)" using e(2) by (auto intro: exI [of _ t])
    ultimately show ?thesis unfolding out_inv_def using e by (simp add: out_prefix_def)
  qed (use True in \<open>auto simp: piece_defs simp del: fun_upd_apply split: option.splits if_splits intro!: out_inv_quiet [OF assms(1,2)]\<close>)
qed

lemma out_reach_clearing:
  assumes "out_reach p failing o' ph adds" "ph t = Clearing \<or> ph t = Clear_taken \<or> emptied (ph t)"
  shows "destroyed o'"
  using assms
proof (induction arbitrary: t rule: out_reach.induct)
  case (queue o' ph adds u xioq q bs f ph' o'')
  then show ?case using add_frame(3,8) [OF queue(5,6)] by (auto simp: emptied_def split: if_splits)
next
  case (event o' ph adds u ph')
  then show ?case by (auto simp: emptied_def split: if_splits)
next
  case (step o' ph adds u ph' o'')
  show ?case
  proof (cases "t = u")
    case False
    then show ?thesis using step write_step_mono [OF step(2)] by simp
  next
    case True
    then have "ph' = Clearing \<or> ph' = Clear_taken \<or> emptied ph'" using step.prems by simp
    with step(2) have "ph u = Clearing \<or> ph u = Clear_taken \<or> emptied (ph u)"
    proof cases
      case (flush rs v rs')
      then show ?thesis using flush_cases(6) [OF flush(2)] \<open>ph' = Clearing \<or> _\<close> by auto
    next
      case (after reg xioq rc blocked v)
      then show ?thesis using after_cases(6) [OF after(3)] \<open>ph' = Clearing \<or> _\<close> by auto
    qed (auto simp: piece_defs emptied_def split: if_splits option.splits)
    then show ?thesis using step.IH write_step_mono [OF step(2)] by blast
  qed
qed (auto simp: emptied_def destroyed_def split: if_splits)

lemma out_inv_queue:
  assumes "out_inv o' ph adds" "ph t = Idle" "xioq \<notin> set (writeq o')" "reply_new q bs" "f = svc_ioq_write_now \<or> f = svc_ioq_write_submit p"
    "f xioq (o'\<lparr>xioqs := (xioqs o')(xioq := q)\<rparr>) = (ph', o'')"
  shows "out_inv o'' (ph(t := ph')) (if destroyed o' then adds else adds @ [bs])"
proof (cases "destroyed o'")
  note a = add_frame [OF assms(5,6)]
  case True
  have same: "y \<in> set (writeq o') \<Longrightarrow> xioqs o'' y = xioqs o' y" for y using a(5) assms(3) by auto
  show ?thesis using out_inv_frame [OF assms(1) _ _ same, of ph' t] a assms(2) True by (simp del: fun_upd_apply)
next
  note a = add_frame [OF assms(5,6)]
  case False
  then have ne: "\<not> (\<exists>u. emptied (ph u))" using assms(1) by (auto simp: out_inv_def split: if_split_asm)
  with assms(1) obtain fin pend where i: "adds = fin @ pend" "out_data o' fin pend" "\<forall>t. phase_ok o' pend (ph t)" "(\<exists>t. flushed (ph t)) \<or> head_open o' pend"
    by (auto simp: out_inv_def out_live_def)
  have d: "out_data o'' fin (pend @ [bs])" by (rule out_data_add [OF i(2) assms(4,3)]) (use a False in auto)
  have new: "rm_sent q bs = []" using assms(4) by (simp add: reply_new_def rm_sent_def)
  have ph: "phase_ok o'' (pend @ [bs]) (ph u)" for u
    using i(2) i(3) [rule_format, of u] a False assms(3)
    by (cases rule: out_data_cases; cases "ph u") (auto simp: tailq_first_def)
  have "phase_ok o'' (pend @ [bs]) ((ph(t := ph')) u)" for u using ph phase_free(1) [OF a(1)] by simp
  moreover have "head_open o' pend \<Longrightarrow> head_open o'' (pend @ [bs])"
    using i(2) a False assms(3) new by (cases rule: out_data_cases) (auto simp: head_open_def)
  moreover have "\<exists>u. flushed (ph u) \<Longrightarrow> \<exists>u. flushed ((ph(t := ph')) u)"
    using assms(2) by (metis flushed.simps(2) fun_upd_apply)
  ultimately have "out_live o'' (ph(t := ph')) (adds @ [bs])" using i(1,4) d unfolding out_live_def by (metis append.assoc)
  moreover have "\<not> (\<exists>u. emptied ((ph(t := ph')) u))" using ne phase_free(3) [OF a(1)] by auto
  ultimately show ?thesis using False by (simp add: out_inv_def)
qed

lemma out_reach_inv:
  assumes "out_reach p failing o' ph adds" "thrd_max p \<noteq> 0"
  shows "out_inv o' ph adds"
  using assms(1)
proof (induction rule: out_reach.induct)
  case (start o')
  then show ?case by (simp add: out_inv_def out_live_def emptied_def out_data_def head_open_def)
next
  case (queue o' ph adds t x q bs f ph' o'')
  then show ?case using out_inv_queue by blast
next
  case (event o' ph adds t ph')
  then show ?case by (intro out_inv_frame [OF event.IH]) auto
next
  case (unregister o' ph adds t)
  then show ?case by (intro out_inv_frame [OF unregister.IH]) auto
next
  case (step o' ph adds t ph' o'')
  then show ?case using out_inv_step [OF step.IH out_reach_excl [OF step(1)] step(2)] out_reach_clearing [OF step(1)] assms(2) by blast
next
  case (other o' ph adds fl)
  let ?o = "o'\<lparr>xp_flags := fl\<rparr>"
  have d: "destroyed o' \<longrightarrow> destroyed ?o" using other(3) by (simp add: destroyed_def)
  show ?case
  proof (cases "\<exists>t. emptied (ph t)")
    case True
    then show ?thesis using other.IH d by (auto simp: out_inv_def out_prefix_def)
  next
    case False
    then obtain fin pend where i: "adds = fin @ pend" "out_data o' fin pend" "\<forall>t. phase_ok o' pend (ph t)" "(\<exists>t. flushed (ph t)) \<or> head_open o' pend"
      using other.IH by (auto simp: out_inv_def out_live_def)
    have "out_data ?o fin pend" by (rule out_data_frame [OF i(2)]) simp_all
    moreover have "phase_ok ?o pend (ph u)" for u by (rule phase_ok_frame [OF i(3) [rule_format]]) (use d in simp_all)
    moreover have "head_open o' pend \<Longrightarrow> head_open ?o pend" using d by (auto simp: head_open_def)
    ultimately have "out_live ?o ph adds" using i(1,4) unfolding out_live_def by blast
    then show ?thesis using False by (simp add: out_inv_def)
  qed
qed

text \<open>What is on the wire, at any time and when the queue is empty.\<close>

lemma out_inv_wire:
  assumes "out_inv o' ph adds"
  shows "\<exists>rest. concat (map rm_record adds) = wire o' @ rest" "writeq o' = [] \<Longrightarrow> \<not> destroyed o' \<Longrightarrow> wire o' = concat (map rm_record adds)"
proof -
  show "\<exists>rest. concat (map rm_record adds) = wire o' @ rest"
  proof (cases "\<exists>t. emptied (ph t)")
    case True
    then show ?thesis using assms by (simp add: out_inv_def out_prefix_def)
  next
    case False
    then show ?thesis using assms out_data_prefix by (fastforce simp: out_inv_def out_live_def out_prefix_def)
  qed
  assume w: "writeq o' = []" "\<not> destroyed o'"
  then obtain fin pend where i: "adds = fin @ pend" "out_data o' fin pend" using assms by (auto simp: out_inv_def out_live_def split: if_splits)
  from i(2) show "wire o' = concat (map rm_record adds)" by (cases rule: out_data_cases) (use i w in \<open>auto simp: out_data_def\<close>)
qed

section \<open>No reply is forgotten\<close>

text \<open>A thread that will look after the head of the queue, or that will destroy the connection.\<close>

fun responsible :: "wphase \<Rightarrow> bool" where
  "responsible Entering = True"
| "responsible Waiting = True"
| "responsible Entered = True"
| "responsible (Looping v) = (have_v v \<noteq> None)"
| "responsible (Flushed x rc blocked v) = True"
| "responsible (Dequeued x v) = (have_v v \<noteq> None)"
| "responsible (Leaving v) = destroy_xprt v"
| "responsible (Unlocked v) = destroy_xprt v"
| "responsible (Drained v) = destroy_xprt v"
| "responsible (Finishing v) = destroy_xprt v"
| "responsible _ = False"

definition attended :: "svc_out \<Rightarrow> (nat \<Rightarrow> wphase) \<Rightarrow> bool" where
  "attended o' ph \<longleftrightarrow> writeq o' = [] \<or> destroyed o' \<or> ev_send o' \<or> (\<exists>t. responsible (ph t))"

lemma attended_step:
  assumes "attended o' ph"
    "writeq o' = [] \<or> writeq o'' = [] \<or> destroyed o'' \<or> ev_send o'' \<or> responsible ph' \<or>
     ((destroyed o' \<longrightarrow> destroyed o'') \<and> (ev_send o' \<longrightarrow> ev_send o'') \<and> \<not> responsible (ph t))"
    "writeq o' = [] \<Longrightarrow> writeq o'' = [] \<or> destroyed o'' \<or> ev_send o'' \<or> responsible ph'"
  shows "attended o'' (ph(t := ph'))"
  using assms unfolding attended_def by (metis fun_upd_apply)

lemma write_step_empty: "write_step p failing f o' f' o'' \<Longrightarrow> writeq o' = [] \<Longrightarrow> writeq o'' = []"
proof (erule write_step.cases)
  fix reg xioq rc blocked v o1 ph1 o2
  assume "svc_ioq_write_after reg xioq rc blocked v o1 = (ph1, o2)" "writeq o' = []" "o' = o1" "o'' = o2"
  then show "writeq o'' = []" using after_cases(6) by fastforce
qed (auto simp: piece_defs flush_cases(1) split: if_splits option.splits)

lemma write_step_attended:
  assumes "write_step p False f o' f' o''"
  shows "writeq o' = [] \<or> writeq o'' = [] \<or> destroyed o'' \<or> ev_send o'' \<or> responsible f' \<or>
    ((destroyed o' \<longrightarrow> destroyed o'') \<and> (ev_send o' \<longrightarrow> ev_send o'') \<and> \<not> responsible f)"
  using assms
proof cases
  case (flush rs v rs')
  then show ?thesis using flush_cases [OF flush(2)] by auto
next
  case (after reg xioq rc blocked v)
  then show ?thesis using after_cases [OF after(3)] by (cases "writeq o''") (auto simp: tailq_first_def)
qed (auto simp: piece_defs tailq_first_def split: if_splits option.splits list.splits)

lemma out_reach_attended:
  assumes "out_reach p False o' ph adds" "thrd_max p \<noteq> 0"
  shows "attended o' ph"
  using assms(1)
proof (induction rule: out_reach.induct)
  case (start o')
  then show ?case by (simp add: attended_def)
next
  case (queue o' ph adds t x q bs f ph' o'')
  show ?case using add_frame [OF queue(5,6)] queue(2) assms(2) by (intro attended_step [OF queue.IH]) auto
next
  case (event o' ph adds t ph')
  then show ?case using assms(2) by (intro attended_step [OF event.IH]) auto
next
  case (unregister o' ph adds t)
  then show ?case by (simp add: attended_def)
next
  case (step o' ph adds t ph' o'')
  show ?case using write_step_attended [OF step(2)] write_step_empty [OF step(2)] by (intro attended_step [OF step.IH]) blast+
next
  case (other o' ph adds fl)
  then show ?case by (auto simp: attended_def destroyed_def)
qed

section \<open>Sending\<close>

text \<open>A queue that a writer has filled can be sent.\<close>

lemma ioq_holds_written:
  assumes "ioq_winv x" "length (ioq_wr x) < 2 ^ 32"
  shows "ioq_holds x (ioq_wr x)"
proof -
  obtain pre cur where w: "ioq_w_at x pre cur" using assms(1) by (auto simp: ioq_winv_def)
  then have a: "ioq_at x pre cur []" by (simp add: ioq_w_at_def)
  have "bufs_bytes (heap x) (vios (xdr_tail_update x)) (uvqh x) = ioq_wr x"
    using ioq_w_at_bytes(1) [OF w] ioq_at_tail_update(2) [OF a] by simp
  moreover have "fst (xdr_ioq_getpos x) = of_nat (length (ioq_wr x))"
  proof -
    have "x_data (xdr_tail_update x) = x_data x" "vio_head (x_v (xdr_tail_update x)) = vio_head (x_v x)"
      using a by (simp_all add: xdr_tail_update_def ioq_at_def)
    moreover have "plength x = bufs_length (vios x) pre" "preceding x = pre" using a preceding_at [OF a] by (simp_all add: ioq_at_def)
    ultimately show ?thesis using ioq_at_tail_update(9) [OF a] by (simp add: xdr_ioq_getpos_def ioq_wr_def)
  qed
  ultimately show ?thesis using a assms(2) by (auto simp: ioq_holds_def)
qed

definition xioq_of :: "xdr_ioq \<Rightarrow> svc_xioq" where
  "xioq_of x = \<lparr>xstream = x, write_start = 0, frag_hdr_bytes_sent = 0, has_blocked = False\<rparr>"

lemma reply_new_written: "ioq_winv x \<Longrightarrow> rm_fits (ioq_wr x) \<Longrightarrow> reply_new (xioq_of x) (ioq_wr x)"
  using ioq_holds_written [of x] rm_fits_32 by (simp add: reply_new_def flush_ok_def xioq_of_def)

lemma flushv_returns:
  assumes "flush_ok q bs" "rm_sent q bs \<noteq> rm_record bs" "set rs \<subseteq> Sent ` {1..}" "flush_left q bs \<le> length rs"
  shows "\<exists>rs' q' d' w'. svc_ioq_flushv p xioq rs q d w = Some (0, rs', q', d', w')"
proof -
  let ?q = "q\<lparr>xstream := xdr_tail_update (xstream q)\<rparr>"
  have "unat (write_start q) < length bs" using assms(1,2) rm_sent_all by (fastforce simp: flush_ok_def)
  then obtain f where f: "svc_ioq_flushv p xioq rs q d w = svc_ioq_flushv_loop p xioq rs f ?q d w" "flush_vars_ok ?q bs f"
    using flushv_start [OF assms(1)] by blast
  have "flush_left ?q bs \<le> length rs" using assms(4) by (simp add: flush_left_def)
  from flush_loop_returns(1) [OF flush_ok_tail [OF assms(1)] f(2) assms(3) this] f(1) show ?thesis by simp
qed

text \<open>A connection without traffic, a reply of ten bytes in two buffers, and a run that sends it.\<close>

definition out_blank :: svc_out where
  "out_blank = \<lparr>dplx = zc_blank, wire = [], writeq = [], xioqs = (\<lambda>_. xioq_of ioq_blank), xp_flags = 0x400, ev_send = False, olog = []\<rparr>"

definition params_demo :: svc_params where
  "params_demo = \<lparr>tcp_zerocopy_enabled = True, tcp_zerocopy_min_bytes = 0, thrd_max = 4\<rparr>"

definition bytes_demo :: bytes where
  "bytes_demo = [1, 2, 3, 4, 5, 6, 7, 8, 9, 10]"

definition reply_demo :: svc_xioq where
  "reply_demo = xioq_of (snd (the (xdr_ioq_putbytes (ioq_demo 8 0) bytes_demo)))"

lemma reply_demo_new: "reply_new reply_demo bytes_demo"
proof -
  have "ioq_winv (ioq_demo 8 0)" "ioq_fits (ioq_demo 8 0) (length bytes_demo + 0)" "ioq_wr (ioq_demo 8 0) = []"
    using ioq_demo_at [of 8 0] by (auto simp: ioq_winv_def ioq_w_at_def ioq_fits_def ioq_at_def IOQV_def flag_def ioq_wr_def preceding_def)
  with ioq_putbytes_ok [OF this(1,2)] obtain y where
    y: "xdr_ioq_putbytes (ioq_demo 8 0) bytes_demo = Some (True, y)" "ioq_winv y" "ioq_wr y = bytes_demo" by auto
  have "rm_fits bytes_demo" by (simp add: rm_fits_def bytes_demo_def unat_lfxu)
  with reply_new_written [OF y(2)] y show ?thesis by (simp add: reply_demo_def)
qed

definition out_queued :: svc_out where
  "out_queued = snd (svc_ioq_write_now 5 (out_blank\<lparr>xioqs := (xioqs out_blank)(5 := reply_demo)\<rparr>))"

definition out_entered :: svc_out where
  "out_entered = snd (svc_ioq_write_enter out_queued)"

definition vars_demo :: write_vars where
  "vars_demo = \<lparr>have_v = Some 5, destroy_xprt = False, local_counter = 0\<rparr>"

lemma run_queued: "out_reach p failing out_queued ((\<lambda>_. Idle)(0 := Entering)) [bytes_demo]" "writeq out_queued = [5]"
    "\<not> destroyed out_queued" "\<not> ioq_writing out_queued" "xioqs out_queued 5 = reply_demo" "wire out_queued = []"
proof -
  have w: "\<not> ioq_writing out_blank" "\<not> destroyed out_blank" "writeq out_blank = []" "wire out_blank = []"
    by (simp_all add: ioq_writing_def destroyed_def out_blank_def)
  then show q: "writeq out_queued = [5]" "\<not> destroyed out_queued" "\<not> ioq_writing out_queued" "xioqs out_queued 5 = reply_demo" "wire out_queued = []"
    by (simp_all add: out_queued_def svc_ioq_write_now_def add_ioq_to_write_queue_def)
  have "out_reach p failing out_queued ((\<lambda>_. Idle)(0 := Entering)) (if destroyed out_blank then [] else [] @ [bytes_demo])"
    by (rule out_reach.queue [OF out_reach.start [OF w(3,4,1)] _ _ reply_demo_new, where f = svc_ioq_write_now and xioq = 5])
      (use w in \<open>simp_all add: out_queued_def svc_ioq_write_now_def add_ioq_to_write_queue_def tailq_first_def\<close>)
  then show "out_reach p failing out_queued ((\<lambda>_. Idle)(0 := Entering)) [bytes_demo]" using w(2) by simp
qed

text \<open>One thread goes on.\<close>

lemma run_step:
  assumes "out_reach p failing o' ((\<lambda>_. Idle)(0 := f)) adds" "write_step p failing f o' f' o''"
  shows "out_reach p failing o'' ((\<lambda>_. Idle)(0 := f')) adds"
  using out_reach.step [OF assms(1), of 0 f' o''] assms(2) by (simp add: fun_upd_upd)

lemma run_entered: "out_reach p failing out_entered ((\<lambda>_. Idle)(0 := Looping vars_demo)) [bytes_demo]"
    "writeq out_entered = [5]" "\<not> destroyed out_entered" "xioqs out_entered 5 = reply_demo" "wire out_entered = []"
proof -
  have e: "svc_ioq_write_enter out_queued = (Entered, out_entered)" "svc_ioq_write_first out_entered = Looping vars_demo"
    using run_queued(2,4) by (simp_all add: out_entered_def svc_ioq_write_enter_def svc_ioq_write_first_def vars_demo_def tailq_first_def)
  show "out_reach p failing out_entered ((\<lambda>_. Idle)(0 := Looping vars_demo)) [bytes_demo]"
    by (rule run_step [OF run_step [OF run_queued(1) write_step.enter [OF e(1)]] write_step.first [OF e(2)]])
  show "writeq out_entered = [5]" "\<not> destroyed out_entered" "xioqs out_entered 5 = reply_demo" "wire out_entered = []"
    using run_queued by (simp_all add: out_entered_def svc_ioq_write_enter_def)
qed

lemma run_sent: "\<exists>o' ph. out_reach params_demo failing o' ph [bytes_demo] \<and> writeq o' = [] \<and> \<not> destroyed o'"
proof -
  have q: "flush_ok reply_demo bytes_demo" "rm_sent reply_demo bytes_demo = []" using reply_demo_new by (auto simp: reply_new_def rm_sent_def)
  then obtain rs' q' d w where f: "svc_ioq_flushv params_demo 5 (replicate 20 (Sent 1)) (xioqs out_entered 5) (dplx out_entered) (wire out_entered) =
      Some (0, rs', q', d, w)"
    using flushv_returns [OF q(1), of "replicate 20 (Sent 1)"] run_entered(4)
    by (force simp: flush_left_def rm_record_def bytes_demo_def)
  let ?o = "out_entered\<lparr>dplx := d, wire := w, xioqs := (xioqs out_entered)(5 := q')\<rparr>"
  have s: "svc_ioq_write_flush params_demo (replicate 20 (Sent 1)) vars_demo out_entered =
      Some (Flushed 5 0 (has_blocked reply_demo) vars_demo, rs', ?o)"
    unfolding svc_ioq_write_flush_def using f run_entered(3,4) by (simp add: vars_demo_def params_demo_def Let_def)
  obtain ph' o'' where a: "svc_ioq_write_after True 5 0 (has_blocked reply_demo) vars_demo ?o = (ph', o'')" by (rule prod.exhaust)
  have "out_reach params_demo failing o'' ((\<lambda>_. Idle)(0 := ph')) [bytes_demo]"
    by (rule run_step [OF run_step [OF run_entered(1) write_step.flush [OF s]] write_step.after [OF _ a]]) simp
  moreover have "writeq o'' = []" "\<not> destroyed o''" using after_cases(3,6) [OF a] run_entered(2,3) by auto
  ultimately show ?thesis by blast
qed

section \<open>Properties\<close>

text \<open>
  C31: Sending one reply of at most one fragment.  Whatever part of the bytes each call of \<^verbatim>\<open>sendmsg\<close> takes, and
  whether it fails or blocks in between, the wire is extended by the next bytes of the record (the marked
  length and the message) from the place where the counters of the reply say that the last call stopped;
  \<^verbatim>\<open>svc_ioq_flushv\<close> returns 0 exactly when the record is complete.
\<close>

theorem svc_flushv_sends_record:
  assumes "flush_ok q bs" "rm_sent q bs \<noteq> rm_record bs" "svc_ioq_flushv p xioq rs q d w = Some (rc, rs', q', d', w')"
  shows "(\<exists>s. w' = w @ s \<and> rm_sent q' bs = rm_sent q bs @ s) \<and> flush_ok q' bs \<and> (rc = 0 \<longleftrightarrow> rm_sent q' bs = rm_record bs) \<and>
    (rc = 0 \<or> rc = -1 \<or> rc = 11 \<and> has_blocked q')"
  using flushv_outcome [OF assms] by (auto simp: flush_outcome_def)

theorem svc_flushv_sends_record_witness:
  "\<exists>rs' q' d' w'. svc_ioq_flushv params_demo 5 (replicate 20 (Sent 1)) reply_demo zc_blank [] = Some (0, rs', q', d', w') \<and>
     w' = [0x80, 0, 0, 10, 1, 2, 3, 4, 5, 6, 7, 8, 9, 10]"
proof -
  have q: "flush_ok reply_demo bytes_demo" "rm_sent reply_demo bytes_demo = []" using reply_demo_new by (auto simp: reply_new_def rm_sent_def)
  then obtain rs' q' d' w' where f: "svc_ioq_flushv params_demo 5 (replicate 20 (Sent 1)) reply_demo zc_blank [] = Some (0, rs', q', d', w')"
    using flushv_returns [OF q(1), of "replicate 20 (Sent 1)"] by (force simp: flush_left_def rm_record_def bytes_demo_def)
  with svc_flushv_sends_record [OF q(1) _ f] q(2) have "w' = rm_record bytes_demo" by auto
  moreover have "rm_record bytes_demo = [0x80, 0, 0, 10, 1, 2, 3, 4, 5, 6, 7, 8, 9, 10]" by code_simp
  ultimately show ?thesis using f by blast
qed

text \<open>
  C32: \<^verbatim>\<open>svc_ioq_flushv\<close> returns: if every call of \<^verbatim>\<open>sendmsg\<close> takes at least one byte, as many calls as there are
  bytes of the record left are enough, and the result is 0.
\<close>

theorem svc_flushv_terminates:
  assumes "flush_ok q bs" "rm_sent q bs \<noteq> rm_record bs" "set rs \<subseteq> Sent ` {1..}" "length (rm_record bs) - length (rm_sent q bs) \<le> length rs"
  shows "\<exists>rs' q' d' w'. svc_ioq_flushv p xioq rs q d w = Some (0, rs', q', d', w')"
  using flushv_returns [OF assms(1-3)] assms(4) by (simp add: flush_left_def)

theorem svc_flushv_terminates_witness:
  "\<exists>rs' q' d' w'. svc_ioq_flushv params_demo 5 (replicate 14 (Sent 1)) reply_demo zc_blank [] = Some (0, rs', q', d', w')"
proof -
  have q: "flush_ok reply_demo bytes_demo" "rm_sent reply_demo bytes_demo = []" using reply_demo_new by (auto simp: reply_new_def rm_sent_def)
  have "length (rm_record bytes_demo) = 14" by (simp add: rm_record_def bytes_demo_def)
  then show ?thesis by (intro svc_flushv_terminates [OF q(1)]) (auto simp: q(2))
qed

text \<open>
  C2: Whatever the interleaving of the threads that queue and write replies, of short and blocked writes, errors, the
  destruction of the connection and the emptying of its queue, as long as the pool of workers is not draining
  (\<^verbatim>\<open>thrd_max\<close> is not 0) and every reply has at least one byte and at most one fragment: the bytes on the wire are a prefix of the records of the replies in the order in which they were
  queued, and all of them when the queue is empty and the connection is not being destroyed.
\<close>

theorem svc_wire_records_in_order:
  assumes "out_reach p failing o' ph adds" "thrd_max p \<noteq> 0"
  shows "(\<exists>rest. concat (map rm_record adds) = wire o' @ rest) \<and>
    (writeq o' = [] \<and> \<not> destroyed o' \<longrightarrow> wire o' = concat (map rm_record adds))"
  using out_inv_wire [OF out_reach_inv [OF assms]] by blast

theorem svc_wire_records_in_order_witness:
  "\<exists>o' ph. out_reach params_demo False o' ph [bytes_demo] \<and> wire o' = [0x80, 0, 0, 10, 1, 2, 3, 4, 5, 6, 7, 8, 9, 10]"
proof -
  obtain o' ph where r: "out_reach params_demo False o' ph [bytes_demo]" "writeq o' = []" "\<not> destroyed o'" using run_sent by blast
  have "wire o' = rm_record bytes_demo" using svc_wire_records_in_order [OF r(1)] r(2,3) by (simp add: params_demo_def)
  moreover have "rm_record bytes_demo = [0x80, 0, 0, 10, 1, 2, 3, 4, 5, 6, 7, 8, 9, 10]" by code_simp
  ultimately show ?thesis using r(1) by metis
qed

text \<open>
  C33: The bit \<^verbatim>\<open>SVC_XPRT_FLAG_IOQ_WRITING\<close> is set exactly while some thread is in a part of \<^verbatim>\<open>svc_ioq_write\<close> between taking it and giving it
  back, or \<^verbatim>\<open>clear_requests\<close> has taken it, which keeps it for good; and there is at most one such thread at a time.
\<close>

theorem svc_one_writer:
  assumes "out_reach p failing o' ph adds"
  shows "(ioq_writing o' \<longleftrightarrow> (\<exists>t. holding (ph t))) \<and> (\<forall>t u. holding (ph t) \<and> holding (ph u) \<longrightarrow> t = u)"
  using out_reach_excl [OF assms] by (auto simp: out_excl_def)

theorem svc_one_writer_witness:
  "\<exists>ph. out_reach params_demo False out_entered ph [bytes_demo] \<and> holding (ph 0) \<and> ioq_writing out_entered \<and>
     (\<forall>t. holding (ph t) \<longrightarrow> t = 0) \<and> \<not> ioq_writing out_queued"
proof -
  let ?ph = "(\<lambda>_. Idle)(0 := Looping vars_demo)"
  have "holding (?ph 0)" by simp
  then show ?thesis using svc_one_writer [OF run_entered(1)] run_entered(1) run_queued(4) by blast
qed

text \<open>
  C34: No reply is forgotten: while the registrations with the event channel succeed and the pool of workers is not
  draining (\<^verbatim>\<open>thrd_max\<close> is not 0), a reply on the queue of a connection that is not being destroyed has a thread that will
  send it or destroy the connection, or the connection is registered for the event that the socket is writable.
\<close>

theorem svc_no_reply_forgotten:
  assumes "out_reach p False o' ph adds" "thrd_max p \<noteq> 0" "writeq o' \<noteq> []" "\<not> destroyed o'"
  shows "ev_send o' \<or> (\<exists>t. responsible (ph t))"
  using out_reach_attended [OF assms(1,2)] assms(3,4) by (simp add: attended_def)

theorem svc_no_reply_forgotten_witness:
  "writeq out_queued = [5] \<and> (\<exists>ph. out_reach params_demo False out_queued ph [bytes_demo] \<and> (ev_send out_queued \<or> (\<exists>t. responsible (ph t))))"
  using svc_no_reply_forgotten [OF run_queued(1), of params_demo] run_queued
  by (intro conjI exI [of _ "(\<lambda>_. Idle)(0 := Entering)"]) (simp_all add: params_demo_def)

end
