(* ===== verification/Vc_Proxy.thy ===== *)
theory Vc_Proxy
  imports Prelude "HOL-Library.Monad_Syntax"
begin

text \<open>
  The PROXY protocol (version 2) in front of a stream connection, \<^verbatim>\<open>handle_haproxy_header\<close> of \<^verbatim>\<open>src/svc_vc.c\<close> with
  \<^verbatim>\<open>ntirpc/rpc/haproxy.h\<close>: a load balancer announces the address of the client in a header of its own.  \<open>inp\<close> are the bytes
  that the peer has sent and that have not been received yet.  A call of \<^verbatim>\<open>recv\<close> is answered from the list \<open>rxs\<close>: by a number
  of bytes at most (0 at the end of the stream) or an \<^verbatim>\<open>errno\<close>; \<open>None\<close> when the list is used up.  \<^verbatim>\<open>malloc\<close> succeeds.
\<close>

section \<open>State\<close>

datatype recv_result = Recv nat | Recv_errno u32

record sockaddr =
  ss_family :: u16
  ss_addr :: bytes
  ss_port :: bytes

record tlv_header =
  tlv_type :: u8
  tlv_length :: u16
  tlv_value :: bytes

datatype vc_event =
    Remote_addr_set_cb
  | Vc_destroy
  | Rearm

record vc_xprt =
  inp :: bytes
  rxs :: "recv_result list"
  xp_remote :: sockaddr
  xp_proxy :: sockaddr
  tlvs :: "tlv_header list"
  tlv_count :: u16
  network_id :: "u8 \<times> u64"
  vc_flags :: u16
  vc_log :: "vc_event list"

datatype haproxy_ret_code =
    HAPROXY_SUCCESS
  | HAPROXY_FAILURE
  | HAPROXY_IGNORE_LOCAL
  | HAPROXY_NOT_HAPROXY

abbreviation SVC_XPRT_FLAG_REMOTE_ADDR_SET :: u16 where "SVC_XPRT_FLAG_REMOTE_ADDR_SET \<equiv> 0x200"
abbreviation PP2_SIG_UINT32 :: u32 where "PP2_SIG_UINT32 \<equiv> 0x0d0a0d0a"
abbreviation PP2_SIG_UINT32_2 :: u32 where "PP2_SIG_UINT32_2 \<equiv> 0x000d0a51"
abbreviation PP2_SIG_UINT32_3 :: u32 where "PP2_SIG_UINT32_3 \<equiv> 0x5549540a"
abbreviation PP2_VERSION2_CMD_LOCAL :: u8 where "PP2_VERSION2_CMD_LOCAL \<equiv> 0x20"
abbreviation PP2_VERSION2_CMD_PROXY :: u8 where "PP2_VERSION2_CMD_PROXY \<equiv> 0x21"
abbreviation PP2_TRANS_STREAM_FAM_INET :: u8 where "PP2_TRANS_STREAM_FAM_INET \<equiv> 0x11"
abbreviation PP2_TRANS_STREAM_FAM_INET6 :: u8 where "PP2_TRANS_STREAM_FAM_INET6 \<equiv> 0x21"
abbreviation PP2_ADDR_LEN_INET :: nat where "PP2_ADDR_LEN_INET \<equiv> 12"
abbreviation PP2_ADDR_LEN_INET6 :: nat where "PP2_ADDR_LEN_INET6 \<equiv> 36"
abbreviation PP2_TYPE_GCP :: u8 where "PP2_TYPE_GCP \<equiv> 0xE0"
abbreviation PP2_TYPE_GCP_EXPECTED_LENGTH :: u16 where "PP2_TYPE_GCP_EXPECTED_LENGTH \<equiv> 8"
abbreviation AF_INET :: u16 where "AF_INET \<equiv> 2"
abbreviation AF_INET6 :: u16 where "AF_INET6 \<equiv> 10"
abbreviation TEMP_BUFFER_SIZE :: nat where "TEMP_BUFFER_SIZE \<equiv> 200"

text \<open>The values that \<^verbatim>\<open>ntohs\<close> and \<^verbatim>\<open>be64toh\<close> give for bytes in memory.\<close>

fun of_be16 :: "bytes \<Rightarrow> u16" where
  "of_be16 [a, b] = push_bit 8 (ucast a) OR ucast b"
| "of_be16 _ = 0"

definition of_be64 :: "bytes \<Rightarrow> u64" where
  "of_be64 bs = push_bit 32 (ucast (of_be32 (take 4 bs))) OR ucast (of_be32 (take 4 (drop 4 bs)))"

section \<open>Receiving\<close>

text \<open>\<^verbatim>\<open>recv\<close> of at most \<open>n\<close> bytes; with \<open>peek\<close> they stay in the stream.  \<open>Inl\<close> is the failure with its \<^verbatim>\<open>errno\<close>.\<close>

definition recv_call :: "nat \<Rightarrow> bool \<Rightarrow> ('a) vc_xprt_scheme \<Rightarrow> ((u32 + bytes) \<times> ('a) vc_xprt_scheme) option" where
  "recv_call n peek x =
     (case rxs x of
        [] \<Rightarrow> None
      | Recv k # rs \<Rightarrow>
          let got = take (min k n) (inp x) in
          Some (Inr got, x\<lparr>inp := (if peek then inp x else drop (length got) (inp x)), rxs := rs\<rparr>)
      | Recv_errno e # rs \<Rightarrow> Some (Inl e, x\<lparr>rxs := rs\<rparr>))"

definition svc_vc_destroy :: "('a) vc_xprt_scheme \<Rightarrow> ('a) vc_xprt_scheme" where
  "svc_vc_destroy x = x\<lparr>vc_flags := vc_flags x OR 0x20, vc_log := Vc_destroy # vc_log x\<rparr>"

definition is_remote_addr_set :: "('a) vc_xprt_scheme \<Rightarrow> bool" where
  "is_remote_addr_set x \<longleftrightarrow> vc_flags x AND SVC_XPRT_FLAG_REMOTE_ADDR_SET \<noteq> 0"

text \<open>\<open>cb\<close> is the answer of the callback.  A second call violates the assertion and aborts: \<open>None\<close>.\<close>

definition update_and_notify_remote_address_set :: "bool \<Rightarrow> ('a) vc_xprt_scheme \<Rightarrow> (bool \<times> ('a) vc_xprt_scheme) option" where
  "update_and_notify_remote_address_set cb x =
     (if is_remote_addr_set x then None
      else Some (cb, x\<lparr>vc_flags := vc_flags x OR SVC_XPRT_FLAG_REMOTE_ADDR_SET, vc_log := Remote_addr_set_cb # vc_log x\<rparr>))"

text \<open>The bytes read, the length that remains, and the state.\<close>

definition safe_read_and_update ::
    "nat \<Rightarrow> nat \<Rightarrow> ('a) vc_xprt_scheme \<Rightarrow> (haproxy_ret_code \<times> bytes \<times> nat \<times> ('a) vc_xprt_scheme) option" where
  "safe_read_and_update length_to_read remaining_length x =
     (if remaining_length < length_to_read then Some (HAPROXY_FAILURE, [], remaining_length, x)
      else do {
        (r, x) \<leftarrow> recv_call length_to_read False x;
        case r of
          Inl e \<Rightarrow> Some (HAPROXY_FAILURE, [], remaining_length, x)
        | Inr value \<Rightarrow>
            if length value \<noteq> length_to_read then Some (HAPROXY_FAILURE, value, remaining_length, x)
            else Some (HAPROXY_SUCCESS, value, remaining_length - length_to_read, x)
      })"

lemma safe_read_remaining:
  "safe_read_and_update n r x = Some (HAPROXY_SUCCESS, value, r', x') \<Longrightarrow> r' = r - n \<and> n \<le> r \<and> length value = n"
  by (auto simp: safe_read_and_update_def split: bind_split_asm if_split_asm sum.split_asm)

function ignore_remaining_proxy_protocol ::
    "nat \<Rightarrow> ('a) vc_xprt_scheme \<Rightarrow> (haproxy_ret_code \<times> ('a) vc_xprt_scheme) option" where
  "ignore_remaining_proxy_protocol remaining_header x =
     (if remaining_header > 0 then
        case safe_read_and_update (min remaining_header TEMP_BUFFER_SIZE) remaining_header x of
          None \<Rightarrow> None
        | Some (HAPROXY_SUCCESS, value, rest, x) \<Rightarrow> ignore_remaining_proxy_protocol rest x
        | Some (retval, value, rest, x) \<Rightarrow> Some (retval, x)
      else Some (HAPROXY_SUCCESS, x))"
  by pat_completeness auto

termination ignore_remaining_proxy_protocol
  by (relation "measure (\<lambda>(n, x). n)") (auto dest: safe_read_remaining)

declare ignore_remaining_proxy_protocol.simps [simp del]

definition handle_proxy_protocol_network_id :: "tlv_header \<Rightarrow> ('a) vc_xprt_scheme \<Rightarrow> haproxy_ret_code \<times> ('a) vc_xprt_scheme" where
  "handle_proxy_protocol_network_id tlv x =
     (if tlv_type tlv = PP2_TYPE_GCP then
        if tlv_length tlv \<noteq> PP2_TYPE_GCP_EXPECTED_LENGTH then (HAPROXY_FAILURE, x)
        else (HAPROXY_SUCCESS, x\<lparr>network_id := (PP2_TYPE_GCP, of_be64 (tlv_value tlv))\<rparr>)
      else (HAPROXY_SUCCESS, x))"

text \<open>
  One round of the loop over the TLV headers, and the loop, as built with \<^verbatim>\<open>PROXY_PROTOCOL_PARSE_COMMON_NETWORK_ID\<close>, which
  switches the parsing of the network id on.  The table of headers grows by \<^verbatim>\<open>realloc\<close> and a value is a block of its own;
  that these allocations fail is not modelled.
\<close>

definition handle_haproxy_tlv_one ::
    "nat \<Rightarrow> ('a) vc_xprt_scheme \<Rightarrow> (haproxy_ret_code \<times> nat \<times> ('a) vc_xprt_scheme) option" where
  "handle_haproxy_tlv_one remaining_length x =
     do {
       (retval, type, remaining_length, x) \<leftarrow> safe_read_and_update 1 remaining_length x;
       if retval \<noteq> HAPROXY_SUCCESS then Some (retval, remaining_length, x)
       else do {
         (retval, len, remaining_length, x) \<leftarrow> safe_read_and_update 2 remaining_length x;
         if retval \<noteq> HAPROXY_SUCCESS then Some (retval, remaining_length, x)
         else do {
           (retval, value, remaining_length, x) \<leftarrow> safe_read_and_update (unat (of_be16 len)) remaining_length x;
           if retval \<noteq> HAPROXY_SUCCESS then Some (retval, remaining_length, x)
           else
             let tlv = \<lparr>tlv_type = hd type, tlv_length = of_be16 len, tlv_value = value\<rparr>;
                 x = x\<lparr>tlvs := tlvs x @ [tlv], tlv_count := tlv_count x + 1\<rparr> in
             (case handle_proxy_protocol_network_id tlv x of (retval, x) \<Rightarrow> Some (retval, remaining_length, x))
         }
       }
     }"

lemma tlv_one_remaining: "handle_haproxy_tlv_one r x = Some (HAPROXY_SUCCESS, r', x') \<Longrightarrow> r' < r"
  by (auto simp: handle_haproxy_tlv_one_def dest!: safe_read_remaining split: bind_split_asm if_split_asm prod.split_asm)

function handle_haproxy_tlv :: "nat \<Rightarrow> ('a) vc_xprt_scheme \<Rightarrow> (haproxy_ret_code \<times> ('a) vc_xprt_scheme) option" where
  "handle_haproxy_tlv remaining_length x =
     (if remaining_length > 0 then
        case handle_haproxy_tlv_one remaining_length x of
          None \<Rightarrow> None
        | Some (HAPROXY_SUCCESS, rest, x) \<Rightarrow> handle_haproxy_tlv rest x
        | Some (retval, rest, x) \<Rightarrow> Some (retval, x)
      else Some (HAPROXY_SUCCESS, x))"
  by pat_completeness auto

termination handle_haproxy_tlv
  by (relation "measure (\<lambda>(n, x). n)") (auto dest: tlv_one_remaining)

declare handle_haproxy_tlv.simps [simp del]

text \<open>\<open>rearm\<close> says whether the event channel accepts the registration for the next event.\<close>

definition handle_haproxy_header_local_cmd ::
    "bool \<Rightarrow> nat \<Rightarrow> ('a) vc_xprt_scheme \<Rightarrow> (haproxy_ret_code \<times> ('a) vc_xprt_scheme) option" where
  "handle_haproxy_header_local_cmd rearm len x =
     do {
       (ret, x) \<leftarrow> ignore_remaining_proxy_protocol len x;
       if ret \<noteq> HAPROXY_SUCCESS then Some (ret, x)
       else Some (if rearm then HAPROXY_IGNORE_LOCAL else HAPROXY_FAILURE, x\<lparr>vc_log := Rearm # vc_log x\<rparr>)
     }"

definition handle_haproxy_header_cmd_v2_parse_address ::
    "u8 \<Rightarrow> nat \<Rightarrow> ('a) vc_xprt_scheme \<Rightarrow> (haproxy_ret_code \<times> nat \<times> ('a) vc_xprt_scheme) option" where
  "handle_haproxy_header_cmd_v2_parse_address family remaining_length x =
     (if family = PP2_TRANS_STREAM_FAM_INET then
        do {
          (retval, a, remaining_length, x) \<leftarrow> safe_read_and_update PP2_ADDR_LEN_INET remaining_length x;
          if retval \<noteq> HAPROXY_SUCCESS then Some (retval, remaining_length, x)
          else Some (HAPROXY_SUCCESS, remaining_length,
            x\<lparr>xp_proxy := xp_remote x,
              xp_remote := (xp_remote x)\<lparr>ss_family := AF_INET, ss_addr := take 4 a, ss_port := take 2 (drop 8 a)\<rparr>\<rparr>)
        }
      else if family = PP2_TRANS_STREAM_FAM_INET6 then
        do {
          (retval, a, remaining_length, x) \<leftarrow> safe_read_and_update PP2_ADDR_LEN_INET6 remaining_length x;
          if retval \<noteq> HAPROXY_SUCCESS then Some (retval, remaining_length, x)
          else Some (HAPROXY_SUCCESS, remaining_length,
            x\<lparr>xp_proxy := xp_remote x,
              xp_remote := (xp_remote x)\<lparr>ss_family := AF_INET6, ss_addr := take 16 a, ss_port := take 2 (drop 32 a)\<rparr>\<rparr>)
        }
      else Some (HAPROXY_FAILURE, remaining_length, x))"

definition handle_haproxy_header_cmd_v2_proxy ::
    "u8 \<Rightarrow> nat \<Rightarrow> ('a) vc_xprt_scheme \<Rightarrow> (haproxy_ret_code \<times> ('a) vc_xprt_scheme) option" where
  "handle_haproxy_header_cmd_v2_proxy fam len x =
     (if is_remote_addr_set x then Some (HAPROXY_FAILURE, x)
      else do {
        (retval, remaining_length, x) \<leftarrow> handle_haproxy_header_cmd_v2_parse_address fam len x;
        if retval \<noteq> HAPROXY_SUCCESS then Some (retval, x) else handle_haproxy_tlv remaining_length x
      })"

text \<open>\<^verbatim>\<open>recv\<close> where anything but the full length is a failure.\<close>

definition recv_all :: "nat \<Rightarrow> bool \<Rightarrow> ('a) vc_xprt_scheme \<Rightarrow> (bytes option \<times> ('a) vc_xprt_scheme) option" where
  "recv_all n peek x =
     (case recv_call n peek x of
        None \<Rightarrow> None
      | Some (Inl e, x) \<Rightarrow> Some (None, x)
      | Some (Inr got, x) \<Rightarrow> Some (if length got \<noteq> n then None else Some got, x))"

text \<open>The commands of the header, given its last four bytes.\<close>

definition handle_haproxy_header_cmd :: "bool \<Rightarrow> bytes \<Rightarrow> ('a) vc_xprt_scheme \<Rightarrow> (haproxy_ret_code \<times> ('a) vc_xprt_scheme) option" where
  "handle_haproxy_header_cmd rearm s x =
     (let ver_cmd = s ! 0; fam = s ! 1; len = unat (of_be16 (drop 2 s)) in
      if ver_cmd \<noteq> PP2_VERSION2_CMD_PROXY then
        if ver_cmd = PP2_VERSION2_CMD_LOCAL then handle_haproxy_header_local_cmd rearm len x
        else Some (HAPROXY_FAILURE, x)
      else handle_haproxy_header_cmd_v2_proxy fam len x)"

text \<open>The first four bytes of the signature have been read before the call.\<close>

definition handle_haproxy_header :: "bool \<Rightarrow> ('a) vc_xprt_scheme \<Rightarrow> (haproxy_ret_code \<times> ('a) vc_xprt_scheme) option" where
  "handle_haproxy_header rearm x =
     (case recv_all 8 True x of
        None \<Rightarrow> None
      | Some (None, x) \<Rightarrow> Some (HAPROXY_FAILURE, x)
      | Some (Some rest, x) \<Rightarrow>
          if of_be32 (take 4 rest) \<noteq> PP2_SIG_UINT32_2 \<or> of_be32 (drop 4 rest) \<noteq> PP2_SIG_UINT32_3
          then Some (HAPROXY_NOT_HAPROXY, x)
          else
            case recv_all 8 False x of
              None \<Rightarrow> None
            | Some (None, x) \<Rightarrow> Some (HAPROXY_FAILURE, x)
            | Some (Some rest, x) \<Rightarrow>
                (case recv_all 4 False x of
                   None \<Rightarrow> None
                 | Some (None, x) \<Rightarrow> Some (HAPROXY_FAILURE, x)
                 | Some (Some s, x) \<Rightarrow> handle_haproxy_header_cmd rearm s x))"

section \<open>What a header can do\<close>

text \<open>
  Parsing a header never touches the flags, calls no callback, and uses up an answer.  When the remote address
  has been set before, neither it nor the TLV headers change.
\<close>

definition pp_frame :: "('a) vc_xprt_scheme \<Rightarrow> ('a) vc_xprt_scheme \<Rightarrow> bool" where
  "pp_frame x y \<longleftrightarrow> vc_flags y = vc_flags x \<and> vc_xprt.more y = vc_xprt.more x \<and> length (rxs y) \<le> length (rxs x) \<and>
     count_list (vc_log y) Remote_addr_set_cb = count_list (vc_log x) Remote_addr_set_cb \<and>
     (is_remote_addr_set x \<longrightarrow> xp_remote y = xp_remote x \<and> tlvs y = tlvs x \<and> tlv_count y = tlv_count x)"

definition pp_reads :: "('a) vc_xprt_scheme \<Rightarrow> ('a) vc_xprt_scheme \<Rightarrow> bool" where
  "pp_reads x y \<longleftrightarrow> (\<exists>i r. y = x\<lparr>inp := i, rxs := r\<rparr> \<and> length r \<le> length (rxs x))"

lemma pp_readsI: "y = x\<lparr>inp := inp y, rxs := rxs y\<rparr> \<Longrightarrow> length (rxs y) \<le> length (rxs x) \<Longrightarrow> pp_reads x y"
  unfolding pp_reads_def by blast

lemma pp_reads_refl [simp]: "pp_reads x x"
  by (rule pp_readsI) simp_all

lemma pp_reads_trans: "pp_reads x y \<Longrightarrow> pp_reads y z \<Longrightarrow> pp_reads x z"
  unfolding pp_reads_def by fastforce

lemma pp_reads_frame: "pp_reads x y \<Longrightarrow> pp_frame x y"
  unfolding pp_reads_def pp_frame_def by auto

lemma pp_frame_trans: "pp_frame x y \<Longrightarrow> pp_frame y z \<Longrightarrow> pp_frame x z"
  unfolding pp_frame_def is_remote_addr_set_def by auto

lemma recv_call_reads: "recv_call n peek x = Some (r, y) \<Longrightarrow> pp_reads x y \<and> length (rxs y) < length (rxs x)"
  unfolding recv_call_def by (auto intro!: pp_readsI split: list.split_asm recv_result.split_asm)

lemma safe_read_reads: "safe_read_and_update n k x = Some (r, v, k', y) \<Longrightarrow> pp_reads x y"
  by (auto simp: safe_read_and_update_def dest: recv_call_reads split: bind_split_asm if_split_asm sum.split_asm)

lemma ignore_reads: "ignore_remaining_proxy_protocol n x = Some (r, y) \<Longrightarrow> pp_reads x y"
proof (induction n x rule: ignore_remaining_proxy_protocol.induct)
  case (1 n x)
  show ?case
  proof (cases "n > 0")
    case True
    with 1(2) obtain r' v k z where s: "safe_read_and_update (min n TEMP_BUFFER_SIZE) n x = Some (r', v, k, z)"
      by (cases "safe_read_and_update (min n TEMP_BUFFER_SIZE) n x") (auto simp: ignore_remaining_proxy_protocol.simps [of n x])
    note z = safe_read_reads [OF s]
    show ?thesis
    proof (cases r')
      case HAPROXY_SUCCESS
      with 1(2) s True have "ignore_remaining_proxy_protocol k z = Some (r, y)" by (simp add: ignore_remaining_proxy_protocol.simps [of n x])
      from 1(1) [OF True s _ _ _ _ this] HAPROXY_SUCCESS z show ?thesis by (auto intro: pp_reads_trans)
    qed (use 1(2) s True z in \<open>auto simp: ignore_remaining_proxy_protocol.simps [of n x]\<close>)
  next
    case False
    then show ?thesis using 1(2) by (simp add: ignore_remaining_proxy_protocol.simps)
  qed
qed

lemma network_id_frame:
  "handle_proxy_protocol_network_id tlv x = (r, y) \<Longrightarrow> \<exists>i. y = x\<lparr>network_id := i\<rparr> \<and> (r = HAPROXY_SUCCESS \<or> r = HAPROXY_FAILURE)"
  by (intro exI [of _ "network_id y"]) (auto simp: handle_proxy_protocol_network_id_def split: if_split_asm)

text \<open>
  The TLV headers of one PROXY header: they are read in order, one more each round, and they take three bytes and their
  value out of the length that the header declares.
\<close>

definition tlv_size :: "tlv_header list \<Rightarrow> nat" where
  "tlv_size ts = sum_list (map (\<lambda>t. 3 + length (tlv_value t)) ts)"

lemma tlv_one_frame:
  assumes "handle_haproxy_tlv_one k x = Some (r, k', y)"
  shows "vc_flags y = vc_flags x \<and> vc_xprt.more y = vc_xprt.more x \<and> length (rxs y) \<le> length (rxs x) \<and> vc_log y = vc_log x \<and>
    xp_remote y = xp_remote x \<and>
    (\<exists>ts. tlvs y = tlvs x @ ts \<and> tlv_count y = tlv_count x + of_nat (length ts) \<and> length ts \<le> 1 \<and> tlv_size ts \<le> k \<and>
       (r = HAPROXY_SUCCESS \<longrightarrow> k = tlv_size ts + k'))"
proof -
  have reads: "vc_flags z = vc_flags w \<and> vc_xprt.more z = vc_xprt.more w \<and> length (rxs z) \<le> length (rxs w) \<and> vc_log z = vc_log w \<and>
      xp_remote z = xp_remote w \<and> tlvs z = tlvs w \<and> tlv_count z = tlv_count w" if "pp_reads w z" for w z :: "'a vc_xprt_scheme"
    using that by (auto simp: pp_reads_def)
  obtain r1 t k1 x1 where 1: "safe_read_and_update 1 k x = Some (r1, t, k1, x1)"
    using assms by (auto simp: handle_haproxy_tlv_one_def split: bind_split_asm)
  note f1 = reads [OF safe_read_reads [OF 1]]
  show ?thesis
  proof (cases "r1 = HAPROXY_SUCCESS")
    case s1: True
    obtain r2 l k2 x2 where 2: "safe_read_and_update 2 k1 x1 = Some (r2, l, k2, x2)"
      using assms 1 s1 by (auto simp: handle_haproxy_tlv_one_def split: bind_split_asm)
    note f2 = reads [OF safe_read_reads [OF 2]]
    show ?thesis
    proof (cases "r2 = HAPROXY_SUCCESS")
      case s2: True
      obtain r3 v k3 x3 where 3: "safe_read_and_update (unat (of_be16 l)) k2 x2 = Some (r3, v, k3, x3)"
        using assms 1 2 s1 s2 by (auto simp: handle_haproxy_tlv_one_def split: bind_split_asm)
      note f3 = reads [OF safe_read_reads [OF 3]]
      show ?thesis
      proof (cases "r3 = HAPROXY_SUCCESS")
        case s3: True
        let ?t = "\<lparr>tlv_type = hd t, tlv_length = of_be16 l, tlv_value = v\<rparr>"
        have n: "handle_proxy_protocol_network_id ?t (x3\<lparr>tlvs := tlvs x3 @ [?t], tlv_count := tlv_count x3 + 1\<rparr>) = (r, y)" "k' = k3"
          using assms 1 2 3 s1 s2 s3 by (auto simp: handle_haproxy_tlv_one_def split: prod.split_asm)
        from network_id_frame [OF n(1)] obtain i where y: "y = x3\<lparr>tlvs := tlvs x3 @ [?t], tlv_count := tlv_count x3 + 1, network_id := i\<rparr>" by auto
        have "k = tlv_size [?t] + k3"
          using safe_read_remaining [OF 1 [unfolded s1]] safe_read_remaining [OF 2 [unfolded s2]] safe_read_remaining [OF 3 [unfolded s3]]
          unfolding tlv_size_def by (simp, linarith)
        then show ?thesis using f1 f2 f3 y n(2) by (auto intro!: exI [of _ "[?t]"])
      qed (use assms 1 2 3 s1 s2 f1 f2 f3 in \<open>auto simp: handle_haproxy_tlv_one_def tlv_size_def\<close>)
    qed (use assms 1 2 s1 f1 f2 in \<open>auto simp: handle_haproxy_tlv_one_def tlv_size_def\<close>)
  qed (use assms 1 f1 in \<open>auto simp: handle_haproxy_tlv_one_def tlv_size_def\<close>)
qed

lemma tlv_size_append [simp]: "tlv_size (a @ b) = tlv_size a + tlv_size b" "tlv_size [] = 0"
  by (simp_all add: tlv_size_def)

lemma tlv_frame:
  "handle_haproxy_tlv k x = Some (r, y) \<Longrightarrow>
    vc_flags y = vc_flags x \<and> vc_xprt.more y = vc_xprt.more x \<and> length (rxs y) \<le> length (rxs x) \<and> vc_log y = vc_log x \<and>
    xp_remote y = xp_remote x \<and>
    (\<exists>ts. tlvs y = tlvs x @ ts \<and> tlv_count y = tlv_count x + of_nat (length ts) \<and> tlv_size ts \<le> k \<and> (r = HAPROXY_SUCCESS \<longrightarrow> tlv_size ts = k))"
proof (induction k x rule: handle_haproxy_tlv.induct)
  case (1 k x)
  show ?case
  proof (cases "k > 0")
    case True
    with 1(2) obtain r' k' z where s: "handle_haproxy_tlv_one k x = Some (r', k', z)"
      by (cases "handle_haproxy_tlv_one k x") (auto simp: handle_haproxy_tlv.simps [of k x])
    note z = tlv_one_frame [OF s]
    show ?thesis
    proof (cases r')
      case HAPROXY_SUCCESS
      with 1(2) s True have "handle_haproxy_tlv k' z = Some (r, y)" by (simp add: handle_haproxy_tlv.simps [of k x])
      note ih = 1(1) [OF True s refl HAPROXY_SUCCESS refl this]
      from z HAPROXY_SUCCESS obtain ts where ts: "tlvs z = tlvs x @ ts" "tlv_count z = tlv_count x + of_nat (length ts)" "k = tlv_size ts + k'" by auto
      from ih HAPROXY_SUCCESS obtain us where us: "tlvs y = tlvs z @ us" "tlv_count y = tlv_count z + of_nat (length us)" "tlv_size us \<le> k'"
          "r = HAPROXY_SUCCESS \<longrightarrow> tlv_size us = k'" by blast
      have "tlvs y = tlvs x @ (ts @ us)" "tlv_count y = tlv_count x + of_nat (length (ts @ us))" "tlv_size (ts @ us) \<le> k"
          "r = HAPROXY_SUCCESS \<longrightarrow> tlv_size (ts @ us) = k"
        using ts us by simp_all
      with z ih HAPROXY_SUCCESS show ?thesis by fastforce
    qed (use 1(2) s True z in \<open>auto simp: handle_haproxy_tlv.simps [of k x]\<close>)
  next
    case False
    then show ?thesis using 1(2) by (auto simp: handle_haproxy_tlv.simps)
  qed
qed

lemma parse_address_frame:
  assumes "handle_haproxy_header_cmd_v2_parse_address fam k x = Some (r, k', y)"
  shows "vc_flags y = vc_flags x \<and> vc_xprt.more y = vc_xprt.more x \<and> length (rxs y) \<le> length (rxs x) \<and> vc_log y = vc_log x \<and>
    tlvs y = tlvs x \<and> tlv_count y = tlv_count x \<and> k' \<le> k"
proof -
  have reads: "vc_flags z = vc_flags w \<and> vc_xprt.more z = vc_xprt.more w \<and> length (rxs z) \<le> length (rxs w) \<and> vc_log z = vc_log w \<and>
      tlvs z = tlvs w \<and> tlv_count z = tlv_count w" if "pp_reads w z" for w z :: "'a vc_xprt_scheme"
    using that by (auto simp: pp_reads_def)
  have sr: "vc_flags z = vc_flags x \<and> vc_xprt.more z = vc_xprt.more x \<and> length (rxs z) \<le> length (rxs x) \<and> vc_log z = vc_log x \<and>
      tlvs z = tlvs x \<and> tlv_count z = tlv_count x \<and> k' \<le> k" if "safe_read_and_update n k x = Some (r, v, k', z)" for n r v k' z
    using reads [OF safe_read_reads [OF that]] that
    by (auto simp: safe_read_and_update_def split: bind_split_asm if_split_asm sum.split_asm)
  show ?thesis
    using assms by (auto simp: handle_haproxy_header_cmd_v2_parse_address_def split: bind_split_asm if_split_asm dest!: sr)
qed

lemma v2_proxy_frame:
  assumes "handle_haproxy_header_cmd_v2_proxy fam len x = Some (r, y)"
  shows "pp_frame x y" "\<exists>ts. tlvs y = tlvs x @ ts \<and> tlv_count y = tlv_count x + of_nat (length ts) \<and> tlv_size ts \<le> len"
proof -
  have "pp_frame x y \<and> (\<exists>ts. tlvs y = tlvs x @ ts \<and> tlv_count y = tlv_count x + of_nat (length ts) \<and> tlv_size ts \<le> len)"
  proof (cases "is_remote_addr_set x")
    case True
    then show ?thesis using assms by (auto simp: handle_haproxy_header_cmd_v2_proxy_def pp_frame_def)
  next
    case False
    with assms obtain r1 k x1 where 1: "handle_haproxy_header_cmd_v2_parse_address fam len x = Some (r1, k, x1)"
      by (auto simp: handle_haproxy_header_cmd_v2_proxy_def split: bind_split_asm)
    note f1 = parse_address_frame [OF 1]
    show ?thesis
    proof (cases "r1 = HAPROXY_SUCCESS")
      case s1: True
      have "handle_haproxy_tlv k x1 = Some (r, y)" using assms 1 s1 False by (auto simp: handle_haproxy_header_cmd_v2_proxy_def)
      from tlv_frame [OF this] f1 False show ?thesis by (fastforce simp: pp_frame_def is_remote_addr_set_def)
    next
      case False': False
      then have "y = x1" using assms 1 False by (auto simp: handle_haproxy_header_cmd_v2_proxy_def)
      with f1 False show ?thesis by (auto simp: pp_frame_def is_remote_addr_set_def)
    qed
  qed
  then show "pp_frame x y" "\<exists>ts. tlvs y = tlvs x @ ts \<and> tlv_count y = tlv_count x + of_nat (length ts) \<and> tlv_size ts \<le> len" by auto
qed

lemma local_cmd_frame: "handle_haproxy_header_local_cmd rearm len x = Some (r, y) \<Longrightarrow> pp_frame x y \<and> tlvs y = tlvs x \<and> tlv_count y = tlv_count x \<and> r \<noteq> HAPROXY_SUCCESS"
  by (auto simp: handle_haproxy_header_local_cmd_def pp_frame_def pp_reads_def dest!: ignore_reads split: bind_split_asm if_split_asm)

lemma unat_u16: "unat (w :: u16) \<le> 65535"
  using unsigned_less [of w, where ?'a = nat] by simp

lemma recv_all_reads: "recv_all n peek x = Some (r, y) \<Longrightarrow> pp_reads x y \<and> length (rxs y) < length (rxs x)"
  by (auto simp: recv_all_def dest: recv_call_reads split: option.split_asm sum.split_asm)

text \<open>What a whole header may do: as above, with at most 65535 bytes of TLV headers.\<close>

definition pp_header :: "('a) vc_xprt_scheme \<Rightarrow> ('a) vc_xprt_scheme \<Rightarrow> haproxy_ret_code \<Rightarrow> bool" where
  "pp_header x y r \<longleftrightarrow> pp_frame x y \<and> (r = HAPROXY_SUCCESS \<longrightarrow> \<not> is_remote_addr_set x) \<and>
     (\<exists>ts. tlvs y = tlvs x @ ts \<and> tlv_count y = tlv_count x + of_nat (length ts) \<and> tlv_size ts \<le> 65535)"

lemma pp_header_refl: "r \<noteq> HAPROXY_SUCCESS \<Longrightarrow> pp_header x x r"
  by (simp add: pp_header_def pp_frame_def)

lemma pp_header_reads:
  assumes "pp_reads x y" "pp_header y z r"
  shows "pp_header x z r"
proof -
  obtain i rs where y: "y = x\<lparr>inp := i, rxs := rs\<rparr>" using assms(1) by (auto simp: pp_reads_def)
  show ?thesis using assms(2) pp_frame_trans [OF pp_reads_frame [OF assms(1)], of z]
    by (auto simp: pp_header_def is_remote_addr_set_def y)
qed

lemma header_cmd_frame:
  assumes "handle_haproxy_header_cmd rearm s x = Some (r, y)"
  shows "pp_header x y r"
proof (cases "s ! 0 = PP2_VERSION2_CMD_PROXY")
  case True
  with assms have v: "handle_haproxy_header_cmd_v2_proxy (s ! 1) (unat (of_be16 (drop 2 s))) x = Some (r, y)"
    by (simp add: handle_haproxy_header_cmd_def)
  obtain ts where "tlvs y = tlvs x @ ts" "tlv_count y = tlv_count x + of_nat (length ts)" "tlv_size ts \<le> unat (of_be16 (drop 2 s))"
    using v2_proxy_frame(2) [OF v] by auto
  then show ?thesis using v2_proxy_frame(1) [OF v] v unat_u16 [of "of_be16 (drop 2 s)"]
    by (auto simp: pp_header_def handle_haproxy_header_cmd_v2_proxy_def split: if_split_asm)
next
  case False
  show ?thesis
  proof (cases "s ! 0 = PP2_VERSION2_CMD_LOCAL")
    case True
    with assms have "handle_haproxy_header_local_cmd rearm (unat (of_be16 (drop 2 s))) x = Some (r, y)"
      by (simp add: handle_haproxy_header_cmd_def)
    from local_cmd_frame [OF this] show ?thesis by (auto simp: pp_header_def)
  qed (use assms False in \<open>auto simp: handle_haproxy_header_cmd_def intro: pp_header_refl\<close>)
qed

lemma haproxy_frame:
  assumes "handle_haproxy_header rearm x = Some (r, y)"
  shows "pp_header x y r" "length (rxs y) < length (rxs x)"
proof -
  obtain r1 x1 where 1: "recv_all 8 True x = Some (r1, x1)" using assms by (auto simp: handle_haproxy_header_def split: option.split_asm)
  note f1 = recv_all_reads [OF 1]
  have "pp_header x1 y r"
  proof (cases "y = x1 \<and> r \<noteq> HAPROXY_SUCCESS")
    case False
    then obtain r2 x2 where 2: "recv_all 8 False x1 = Some (r2, x2)"
      using assms 1 by (auto simp: handle_haproxy_header_def split: option.split_asm if_split_asm)
    note f2 = recv_all_reads [OF 2]
    have "pp_header x2 y r"
    proof (cases "y = x2 \<and> r \<noteq> HAPROXY_SUCCESS")
      case False': False
      then obtain r3 x3 where 3: "recv_all 4 False x2 = Some (r3, x3)"
        using assms 1 2 False by (auto simp: handle_haproxy_header_def split: option.split_asm if_split_asm)
      then have "pp_header x3 y r"
        using assms 1 2 False False' header_cmd_frame
        by (auto simp: handle_haproxy_header_def intro: pp_header_refl split: option.split_asm if_split_asm)
      then show ?thesis using pp_header_reads recv_all_reads [OF 3] by blast
    qed (simp add: pp_header_refl)
    then show ?thesis using pp_header_reads f2 by blast
  qed (simp add: pp_header_refl)
  then show h: "pp_header x y r" using pp_header_reads f1 by blast
  show "length (rxs y) < length (rxs x)" using f1 \<open>pp_header x1 y r\<close> by (auto simp: pp_header_def pp_frame_def)
qed

section \<open>A header that is read whole\<close>

text \<open>The bytes of a PROXY header behind the first word of its signature.\<close>

definition be16 :: "u16 \<Rightarrow> bytes" where
  "be16 v = [ucast (drop_bit 8 v), ucast v]"

lemma of_be16_be16 [simp]: "of_be16 (be16 v) = v"
  unfolding be16_def of_be16.simps by (rule bit_word_eqI) (auto simp: bit_simps)

lemma length_be16 [simp]: "length (be16 v) = 2"
  by (simp add: be16_def)

definition tlv_wire :: "tlv_header \<Rightarrow> bytes" where
  "tlv_wire t = tlv_type t # be16 (tlv_length t) @ tlv_value t"

definition tlv_ok :: "tlv_header \<Rightarrow> bool" where
  "tlv_ok t \<longleftrightarrow> length (tlv_value t) = unat (tlv_length t) \<and> (tlv_type t = PP2_TYPE_GCP \<longrightarrow> tlv_length t = PP2_TYPE_GCP_EXPECTED_LENGTH)"

definition pp2_wire :: "u8 \<Rightarrow> bytes \<Rightarrow> tlv_header list \<Rightarrow> bytes" where
  "pp2_wire fam a ts = be32 PP2_SIG_UINT32_2 @ be32 PP2_SIG_UINT32_3 @ [PP2_VERSION2_CMD_PROXY, fam] @
     be16 (of_nat (length a + tlv_size ts)) @ a @ concat (map tlv_wire ts)"

text \<open>Answers that deliver whatever is asked for.\<close>

definition plenty :: "('a) vc_xprt_scheme \<Rightarrow> nat \<Rightarrow> bool" where
  "plenty x n \<longleftrightarrow> set (rxs x) \<subseteq> Recv ` {65535..} \<and> n \<le> length (rxs x)"

lemma recv_plenty:
  assumes "plenty x (Suc m)" "inp x = bs @ rest" "length bs \<le> 65535"
  shows "\<exists>y. recv_call (length bs) peek x = Some (Inr bs, y) \<and> y = x\<lparr>inp := (if peek then inp x else rest), rxs := rxs y\<rparr> \<and> plenty y m"
  using assms by (cases "rxs x") (auto simp: plenty_def recv_call_def min_absorb2)

lemma safe_read_plenty:
  assumes "plenty x (Suc m)" "inp x = bs @ rest" "length bs = n" "n \<le> k" "k \<le> 65535"
  shows "\<exists>y. safe_read_and_update n k x = Some (HAPROXY_SUCCESS, bs, k - n, y) \<and> y = x\<lparr>inp := rest, rxs := rxs y\<rparr> \<and> plenty y m"
  using recv_plenty [OF assms(1,2), of False] assms(3-5) by (auto simp: safe_read_and_update_def)

lemma recv_all_plenty:
  assumes "plenty x (Suc m)" "inp x = bs @ rest" "length bs = n" "n \<le> 65535"
  shows "\<exists>y. recv_all n peek x = Some (Some bs, y) \<and> y = x\<lparr>inp := (if peek then inp x else rest), rxs := rxs y\<rparr> \<and> plenty y m"
  using recv_plenty [OF assms(1,2), of peek] assms(3,4) by (auto simp: recv_all_def)

lemma tlv_one_plenty:
  assumes "plenty x (m + 3)" "inp x = tlv_wire t @ rest" "tlv_ok t" "3 + length (tlv_value t) \<le> k" "k \<le> 65535"
  shows "\<exists>y. handle_haproxy_tlv_one k x = Some (HAPROXY_SUCCESS, k - (3 + length (tlv_value t)), y) \<and> plenty y m \<and>
    y = x\<lparr>inp := rest, rxs := rxs y, tlvs := tlvs x @ [t], tlv_count := tlv_count x + 1, network_id := network_id y\<rparr>"
proof -
  have i: "inp x = [tlv_type t] @ be16 (tlv_length t) @ tlv_value t @ rest" "plenty x (Suc (Suc (Suc m)))"
    using assms(1,2) by (simp_all add: tlv_wire_def eval_nat_numeral)
  have ar: "1 \<le> k" "2 \<le> k - 1" "k - 1 \<le> 65535" "unat (tlv_length t) \<le> k - 1 - 2" "k - 1 - 2 \<le> 65535" "length (tlv_value t) = unat (tlv_length t)"
    using assms(3-5) by (auto simp: tlv_ok_def)
  obtain x1 where 1: "safe_read_and_update 1 k x = Some (HAPROXY_SUCCESS, [tlv_type t], k - 1, x1)"
      "x1 = x\<lparr>inp := be16 (tlv_length t) @ tlv_value t @ rest, rxs := rxs x1\<rparr>" "plenty x1 (Suc (Suc m))"
    using safe_read_plenty [OF i(2,1) _ ar(1) assms(5)] by auto
  have i1: "inp x1 = be16 (tlv_length t) @ tlv_value t @ rest" by (subst 1(2)) simp
  obtain x2 where 2: "safe_read_and_update 2 (k - 1) x1 = Some (HAPROXY_SUCCESS, be16 (tlv_length t), k - 1 - 2, x2)"
      "x2 = x1\<lparr>inp := tlv_value t @ rest, rxs := rxs x2\<rparr>" "plenty x2 (Suc m)"
    using safe_read_plenty [OF 1(3) i1 _ ar(2,3)] by auto
  have i2: "inp x2 = tlv_value t @ rest" by (subst 2(2)) simp
  obtain x3 where 3: "safe_read_and_update (unat (tlv_length t)) (k - 1 - 2) x2 = Some (HAPROXY_SUCCESS, tlv_value t, k - 1 - 2 - unat (tlv_length t), x3)"
      "x3 = x2\<lparr>inp := rest, rxs := rxs x3\<rparr>" "plenty x3 m"
    using safe_read_plenty [OF 2(3) i2 ar(6) ar(4,5)] by auto
  let ?t = "\<lparr>tlv_type = tlv_type t, tlv_length = tlv_length t, tlv_value = tlv_value t\<rparr>"
  obtain y where y: "handle_proxy_protocol_network_id ?t (x3\<lparr>tlvs := tlvs x3 @ [?t], tlv_count := tlv_count x3 + 1\<rparr>) = (HAPROXY_SUCCESS, y)"
      "\<exists>i. y = x3\<lparr>tlvs := tlvs x3 @ [?t], tlv_count := tlv_count x3 + 1, network_id := i\<rparr>"
  proof -
    obtain r y where "handle_proxy_protocol_network_id ?t (x3\<lparr>tlvs := tlvs x3 @ [?t], tlv_count := tlv_count x3 + 1\<rparr>) = (r, y)" by (rule prod.exhaust)
    moreover from this have "r = HAPROXY_SUCCESS" using assms(3) by (auto simp: handle_proxy_protocol_network_id_def tlv_ok_def split: if_split_asm)
    ultimately show ?thesis using that network_id_frame by fastforce
  qed
  have e: "handle_haproxy_tlv_one k x = Some (HAPROXY_SUCCESS, k - 1 - 2 - unat (tlv_length t), y)"
    unfolding handle_haproxy_tlv_one_def 1(1) by (simp add: 2(1) [simplified] 3(1) [simplified] y(1))
  have "x3 = x\<lparr>inp := rest, rxs := rxs x3\<rparr>" by (subst 3(2), subst 2(2), subst 1(2)) simp
  then obtain r' where x3: "x3 = x\<lparr>inp := rest, rxs := r'\<rparr>" by blast
  obtain j where "y = x3\<lparr>tlvs := tlvs x3 @ [?t], tlv_count := tlv_count x3 + 1, network_id := j\<rparr>" using y(2) by blast
  moreover have "?t = t" by simp
  ultimately have y': "y = x\<lparr>inp := rest, rxs := r', tlvs := tlvs x @ [t], tlv_count := tlv_count x + 1, network_id := j\<rparr>" by (simp add: x3)
  with e ar(6) 3(3) x3 show ?thesis by (simp add: plenty_def)
qed

lemma tlv_plenty:
  assumes "plenty x (m + 3 * length ts)" "inp x = concat (map tlv_wire ts) @ rest" "\<forall>t \<in> set ts. tlv_ok t" "tlv_size ts \<le> 65535"
  shows "\<exists>r j. handle_haproxy_tlv (tlv_size ts) x =
    Some (HAPROXY_SUCCESS, x\<lparr>inp := rest, rxs := r, tlvs := tlvs x @ ts, tlv_count := tlv_count x + of_nat (length ts), network_id := j\<rparr>)"
  using assms
proof (induction ts arbitrary: x)
  case Nil
  then show ?case by (intro exI [of _ "rxs x"] exI [of _ "network_id x"]) (simp add: handle_haproxy_tlv.simps)
next
  case (Cons t ts)
  have k: "tlv_size (t # ts) = 3 + length (tlv_value t) + tlv_size ts" by (simp add: tlv_size_def)
  have p: "plenty x (m + 3 * length ts + 3)" using Cons.prems(1) by (simp add: algebra_simps)
  have i: "inp x = tlv_wire t @ concat (map tlv_wire ts) @ rest" using Cons.prems(2) by simp
  obtain y where y: "handle_haproxy_tlv_one (tlv_size (t # ts)) x = Some (HAPROXY_SUCCESS, tlv_size ts, y)" "plenty y (m + 3 * length ts)"
      "y = x\<lparr>inp := concat (map tlv_wire ts) @ rest, rxs := rxs y, tlvs := tlvs x @ [t], tlv_count := tlv_count x + 1, network_id := network_id y\<rparr>"
    using tlv_one_plenty [OF p i, of "tlv_size (t # ts)"] Cons.prems(3,4) k by auto
  then obtain r0 j0 where y': "y = x\<lparr>inp := concat (map tlv_wire ts) @ rest, rxs := r0, tlvs := tlvs x @ [t], tlv_count := tlv_count x + 1, network_id := j0\<rparr>"
    by blast
  have "inp y = concat (map tlv_wire ts) @ rest" by (simp add: y')
  then obtain r j where z: "handle_haproxy_tlv (tlv_size ts) y =
      Some (HAPROXY_SUCCESS, y\<lparr>inp := rest, rxs := r, tlvs := tlvs y @ ts, tlv_count := tlv_count y + of_nat (length ts), network_id := j\<rparr>)"
    using Cons.IH [OF y(2)] Cons.prems(3,4) k by auto
  have "handle_haproxy_tlv (tlv_size (t # ts)) x = handle_haproxy_tlv (tlv_size ts) y"
    using y(1) k by (subst handle_haproxy_tlv.simps) simp
  then show ?case unfolding z by (intro exI [of _ r] exI [of _ j]) (simp add: y' add.assoc)
qed

lemma haproxy_parsed:
  assumes "\<not> is_remote_addr_set x" "inp x = pp2_wire fam (src @ dst @ sport @ dport) ts @ rest"
    and "(fam, af, n) \<in> {(PP2_TRANS_STREAM_FAM_INET, AF_INET, 4), (PP2_TRANS_STREAM_FAM_INET6, AF_INET6, 16)}"
    and "length src = n" "length dst = n" "length sport = 2" "length dport = 2"
    and "\<forall>t \<in> set ts. tlv_ok t" "2 * n + 4 + tlv_size ts \<le> 65535"
    and "set (rxs x) \<subseteq> Recv ` {65535..}" "4 + 3 * length ts \<le> length (rxs x)"
  shows "\<exists>y. handle_haproxy_header rearm x = Some (HAPROXY_SUCCESS, y) \<and> inp y = rest \<and>
    xp_remote y = (xp_remote x)\<lparr>ss_family := af, ss_addr := src, ss_port := sport\<rparr> \<and> xp_proxy y = xp_remote x \<and>
    tlvs y = tlvs x @ ts \<and> tlv_count y = tlv_count x + of_nat (length ts)"
proof -
  let ?a = "src @ dst @ sport @ dport" and ?w = "concat (map tlv_wire ts) @ rest"
  let ?s = "[PP2_VERSION2_CMD_PROXY, fam] @ be16 (of_nat (length ?a + tlv_size ts))"
  let ?sig = "be32 PP2_SIG_UINT32_2 @ be32 PP2_SIG_UINT32_3"
  have p: "plenty x (Suc (Suc (Suc (Suc (3 * length ts)))))" using assms(10,11) by (simp add: plenty_def)
  have i: "inp x = ?sig @ ?s @ ?a @ ?w" using assms(2) by (simp add: pp2_wire_def)
  obtain x1 where 1: "recv_all 8 True x = Some (Some ?sig, x1)" "x1 = x\<lparr>inp := inp x, rxs := rxs x1\<rparr>" "plenty x1 (Suc (Suc (Suc (3 * length ts))))"
    using recv_all_plenty [OF p i, of 8 True] by auto
  then obtain r1 where x1: "x1 = x\<lparr>inp := inp x, rxs := r1\<rparr>" by blast
  obtain x2 where 2: "recv_all 8 False x1 = Some (Some ?sig, x2)" "x2 = x1\<lparr>inp := ?s @ ?a @ ?w, rxs := rxs x2\<rparr>" "plenty x2 (Suc (Suc (3 * length ts)))"
    using recv_all_plenty [OF 1(3), of ?sig "?s @ ?a @ ?w" 8 False] i x1 by auto
  from 2(2) obtain r2 where "x2 = x1\<lparr>inp := ?s @ ?a @ ?w, rxs := r2\<rparr>" by blast
  then have x2: "x2 = x\<lparr>inp := ?s @ ?a @ ?w, rxs := r2\<rparr>" by (simp add: x1)
  obtain x3 where 3: "recv_all 4 False x2 = Some (Some ?s, x3)" "x3 = x2\<lparr>inp := ?a @ ?w, rxs := rxs x3\<rparr>" "plenty x3 (Suc (3 * length ts))"
    using recv_all_plenty [OF 2(3), of ?s "?a @ ?w" 4 False] x2 by auto
  from 3(2) obtain r3 where "x3 = x2\<lparr>inp := ?a @ ?w, rxs := r3\<rparr>" by blast
  then have x3: "x3 = x\<lparr>inp := ?a @ ?w, rxs := r3\<rparr>" by (simp add: x2)
  have la: "length ?a = 2 * n + 4" using assms(4-7) by simp
  have "unat (of_nat (length ?a + tlv_size ts) :: u16) = length ?a + tlv_size ts"
    unfolding la by (rule unat_of_nat_small) (use assms(9) in simp)
  note len = this la
  have h: "handle_haproxy_header rearm x = handle_haproxy_header_cmd_v2_proxy fam (length ?a + tlv_size ts) x3"
    unfolding handle_haproxy_header_def 1(1) option.case prod.case using 2(1) 3(1) len(1) by (simp add: handle_haproxy_header_cmd_def)
  obtain x4 where 4: "safe_read_and_update (2 * n + 4) (length ?a + tlv_size ts) x3 = Some (HAPROXY_SUCCESS, ?a, tlv_size ts, x4)"
      "x4 = x3\<lparr>inp := ?w, rxs := rxs x4\<rparr>" "plenty x4 (3 * length ts)"
    using safe_read_plenty [OF 3(3), of ?a ?w "2 * n + 4" "length ?a + tlv_size ts"] x3 len(2) assms(9) by auto
  from 4(2) obtain r4 where "x4 = x3\<lparr>inp := ?w, rxs := r4\<rparr>" by blast
  then have x4: "x4 = x\<lparr>inp := ?w, rxs := r4\<rparr>" by (simp add: x3)
  let ?x = "x4\<lparr>xp_proxy := xp_remote x, xp_remote := (xp_remote x)\<lparr>ss_family := af, ss_addr := src, ss_port := sport\<rparr>\<rparr>"
  have a: "handle_haproxy_header_cmd_v2_parse_address fam (length ?a + tlv_size ts) x3 = Some (HAPROXY_SUCCESS, tlv_size ts, ?x)"
    using assms(3-7) 4(1) x4 by (auto simp: handle_haproxy_header_cmd_v2_parse_address_def)
  have "\<exists>r j. handle_haproxy_tlv (tlv_size ts) ?x =
      Some (HAPROXY_SUCCESS, ?x\<lparr>inp := rest, rxs := r, tlvs := tlvs ?x @ ts, tlv_count := tlv_count ?x + of_nat (length ts), network_id := j\<rparr>)"
    by (rule tlv_plenty [of _ 0]) (use 4(3) x4 assms(8,9) in \<open>simp_all add: plenty_def\<close>)
  then show ?thesis
    unfolding h using a assms(1) by (auto simp: handle_haproxy_header_cmd_v2_proxy_def x3 x4 is_remote_addr_set_def)
qed

text \<open>A connection from a load balancer at 10.0.0.1 that announces a client at 192.168.1.2, with two TLV headers.\<close>

definition addr_demo :: sockaddr where
  "addr_demo = \<lparr>ss_family = AF_INET, ss_addr = [10, 0, 0, 1], ss_port = [3, 0]\<rparr>"

definition tlvs_demo :: "tlv_header list" where
  "tlvs_demo = [\<lparr>tlv_type = PP2_TYPE_GCP, tlv_length = 8, tlv_value = [0, 0, 0, 0, 0, 0, 1, 2]\<rparr>,
     \<lparr>tlv_type = 4, tlv_length = 1, tlv_value = [9]\<rparr>]"

definition pp2_demo :: bytes where
  "pp2_demo = pp2_wire PP2_TRANS_STREAM_FAM_INET ([192, 168, 1, 2] @ [10, 0, 0, 9] @ [4, 1] @ [8, 1]) tlvs_demo"

definition xprt_demo :: "bytes \<Rightarrow> recv_result list \<Rightarrow> vc_xprt" where
  "xprt_demo i rs = \<lparr>inp = i, rxs = rs, xp_remote = addr_demo, xp_proxy = addr_demo, tlvs = [], tlv_count = 0,
     network_id = (0, 0), vc_flags = 0x400, vc_log = []\<rparr>"

lemma haproxy_demo:
  "\<exists>y. handle_haproxy_header True (xprt_demo (pp2_demo @ rest) (replicate 10 (Recv 65535))) = Some (HAPROXY_SUCCESS, y) \<and> tlvs y = tlvs_demo"
proof -
  let ?x = "xprt_demo (pp2_demo @ rest) (replicate 10 (Recv 65535))"
  have "\<exists>y. handle_haproxy_header True ?x = Some (HAPROXY_SUCCESS, y) \<and> inp y = rest \<and>
    xp_remote y = (xp_remote ?x)\<lparr>ss_family := AF_INET, ss_addr := [192, 168, 1, 2], ss_port := [4, 1]\<rparr> \<and> xp_proxy y = xp_remote ?x \<and>
    tlvs y = tlvs ?x @ tlvs_demo \<and> tlv_count y = tlv_count ?x + of_nat (length tlvs_demo)"
    by (rule haproxy_parsed [where fam = PP2_TRANS_STREAM_FAM_INET and dst = "[10, 0, 0, 9]" and dport = "[8, 1]" and n = 4])
      (auto simp: xprt_demo_def is_remote_addr_set_def pp2_demo_def tlvs_demo_def tlv_ok_def tlv_size_def)
  then show ?thesis by (auto simp: xprt_demo_def)
qed

text \<open>
  C36: A PROXY header that arrives whole is parsed into what it says: the address and port of the client become the
  remote address, the connection's own address is kept as the address of the proxy, the TLV headers are
  recorded in order, and exactly the header is consumed.
\<close>

theorem proxy_header_parsed:
  assumes "\<not> is_remote_addr_set x" "inp x = pp2_wire fam (src @ dst @ sport @ dport) ts @ rest"
    and "(fam, af, n) \<in> {(PP2_TRANS_STREAM_FAM_INET, AF_INET, 4), (PP2_TRANS_STREAM_FAM_INET6, AF_INET6, 16)}"
    and "length src = n" "length dst = n" "length sport = 2" "length dport = 2"
    and "\<forall>t \<in> set ts. tlv_ok t" "2 * n + 4 + tlv_size ts \<le> 65535"
    and "set (rxs x) \<subseteq> Recv ` {65535..}" "4 + 3 * length ts \<le> length (rxs x)"
  shows "\<exists>y. handle_haproxy_header rearm x = Some (HAPROXY_SUCCESS, y) \<and> inp y = rest \<and>
    xp_remote y = (xp_remote x)\<lparr>ss_family := af, ss_addr := src, ss_port := sport\<rparr> \<and> xp_proxy y = xp_remote x \<and>
    tlvs y = tlvs x @ ts \<and> tlv_count y = tlv_count x + of_nat (length ts)"
  by (rule haproxy_parsed [OF assms])

theorem proxy_header_parsed_witness:
  "\<exists>y. handle_haproxy_header True (xprt_demo (pp2_demo @ [1, 2, 3]) (replicate 10 (Recv 65535))) = Some (HAPROXY_SUCCESS, y) \<and> inp y = [1, 2, 3] \<and>
     ss_addr (xp_remote y) = [192, 168, 1, 2] \<and> xp_proxy y = addr_demo \<and> tlvs y = tlvs_demo"
proof -
  have "\<exists>y. handle_haproxy_header True (xprt_demo (pp2_demo @ [1, 2, 3]) (replicate 10 (Recv 65535))) = Some (HAPROXY_SUCCESS, y) \<and> inp y = [1, 2, 3] \<and>
    xp_remote y = (xp_remote (xprt_demo (pp2_demo @ [1, 2, 3]) (replicate 10 (Recv 65535))))\<lparr>ss_family := AF_INET, ss_addr := [192, 168, 1, 2], ss_port := [4, 1]\<rparr> \<and>
    xp_proxy y = xp_remote (xprt_demo (pp2_demo @ [1, 2, 3]) (replicate 10 (Recv 65535))) \<and>
    tlvs y = tlvs (xprt_demo (pp2_demo @ [1, 2, 3]) (replicate 10 (Recv 65535))) @ tlvs_demo \<and>
    tlv_count y = tlv_count (xprt_demo (pp2_demo @ [1, 2, 3]) (replicate 10 (Recv 65535))) + of_nat (length tlvs_demo)"
    by (rule proxy_header_parsed [where fam = PP2_TRANS_STREAM_FAM_INET and dst = "[10, 0, 0, 9]" and dport = "[8, 1]" and n = 4])
      (auto simp: xprt_demo_def is_remote_addr_set_def pp2_demo_def tlvs_demo_def tlv_ok_def tlv_size_def)
  then show ?thesis by (auto simp: xprt_demo_def)
qed

text \<open>
  C37: Whatever the peer sends and however it arrives: the TLV headers recorded while one PROXY header is parsed number
  at most 21845, the counter of 16 bits counts them exactly, and together with their values they are within the length
  of 65535 bytes that a header can declare.
\<close>

theorem proxy_tlv_bound:
  assumes "handle_haproxy_header rearm x = Some (r, y)" "tlvs x = []" "tlv_count x = 0"
  shows "length (tlvs y) \<le> 21845 \<and> unat (tlv_count y) = length (tlvs y) \<and> sum_list (map (\<lambda>t. 3 + length (tlv_value t)) (tlvs y)) \<le> 65535"
proof -
  obtain ts where ts: "tlvs y = ts" "tlv_count y = of_nat (length ts)" "tlv_size ts \<le> 65535"
    using haproxy_frame(1) [OF assms(1)] assms(2,3) by (auto simp: pp_header_def)
  have "3 * length ts \<le> tlv_size ts" by (induction ts) (auto simp: tlv_size_def)
  then have "length ts \<le> 21845" using ts(3) by simp
  then show ?thesis using ts unat_of_nat_small [of "length ts", where ?'a = 16] by (simp add: tlv_size_def)
qed

theorem proxy_tlv_bound_witness:
  "\<exists>y. handle_haproxy_header True (xprt_demo pp2_demo (replicate 10 (Recv 65535))) = Some (HAPROXY_SUCCESS, y) \<and> unat (tlv_count y) = length (tlvs y)"
proof -
  obtain y where y: "handle_haproxy_header True (xprt_demo pp2_demo (replicate 10 (Recv 65535))) = Some (HAPROXY_SUCCESS, y)"
    using haproxy_demo [of "[]"] by auto
  from proxy_tlv_bound [OF y] show ?thesis using y by (simp add: xprt_demo_def)
qed

end
