(* ===== verification/Svc_Vc.thy ===== *)
theory Svc_Vc
  imports Ioq_Props Vc_Proxy
begin

text \<open>
  Receiving on a stream connection, \<^verbatim>\<open>svc_vc_recv\<close> of \<^verbatim>\<open>src/svc_vc.c\<close> (as built without TLS).  A call handles one event: it reads
  the mark of the next fragment, if none is open, and then what has arrived of the fragment, into one buffer per
  fragment; a complete record is handed on.  \<open>ioq_q\<close> is the queue \<^verbatim>\<open>rec->ioq\<close> with the record under construction, \<open>requests\<close> are the records
  that \<^verbatim>\<open>svc_request\<close> has been called with, oldest first.  \<open>vc_world\<close> is the memory that a new queue starts from.
\<close>

section \<open>State\<close>

record svc_vc = vc_xprt +
  sx_fbtbc :: u32
  pagesz :: nat
  maxrec :: nat
  vc_world :: xdr_ioq
  ioq_q :: "xdr_ioq list"
  requests :: "xdr_ioq list"

abbreviation UIO_FLAG_MORE :: u32 where "UIO_FLAG_MORE \<equiv> 8"
abbreviation VC_LAST_FRAG :: u32 where "VC_LAST_FRAG \<equiv> 0x80000000"
abbreviation EAGAIN :: u32 where "EAGAIN \<equiv> 11"

definition vc_destroyed :: "svc_vc \<Rightarrow> bool" where
  "vc_destroyed x \<longleftrightarrow> vc_flags x AND 0x60 \<noteq> 0"

section \<open>Operations\<close>

definition svc_rqst_rearm :: "bool \<Rightarrow> svc_vc \<Rightarrow> svc_vc" where
  "svc_rqst_rearm rearm x = (let x = x\<lparr>vc_log := Rearm # vc_log x\<rparr> in if rearm then x else svc_vc_destroy x)"

text \<open>The queue that the record is collected in.\<close>

definition svc_vc_recv_ioq :: "svc_vc \<Rightarrow> svc_vc" where
  "svc_vc_recv_ioq x =
     (if ioq_q x = [] then x\<lparr>ioq_q := [xdr_ioq_create (pagesz x) (maxrec x) UIO_FLAG_BUFQ (vc_world x)]\<rparr> else x)"

text \<open>
  A new fragment.  The results say whether the call goes on to receive, with the flags of the buffer.
\<close>

definition svc_vc_recv_frag :: "svc_vc \<Rightarrow> bool \<times> u32 \<times> svc_vc" where
  "svc_vc_recv_frag x =
     (let flags = UIO_FLAG_FREE OR UIO_FLAG_MORE;
          (flags, x) = (if flag (sx_fbtbc x) VC_LAST_FRAG then (UIO_FLAG_FREE, x\<lparr>sx_fbtbc := sx_fbtbc x AND NOT VC_LAST_FRAG\<rparr>)
                        else (flags, x)) in
      if sx_fbtbc x = 0 then (False, flags, svc_vc_destroy x)
      else
        case xdr_ioq_uv_create (unat (sx_fbtbc x)) flags (last (ioq_q x)) of
          (uv, q) \<Rightarrow>
            (True, flags, x\<lparr>ioq_q := butlast (ioq_q x) @ [q\<lparr>qcount := qcount q + 1, uvqh := uvqh q @ [uv]\<rparr>]\<rparr>))"

text \<open>
  The mark, from \<^verbatim>\<open>again:\<close> on; \<open>rearm\<close> and \<open>cb\<close> are the answers of the event channel and of the callback.  \<^verbatim>\<open>sx_fbtbc\<close> is 0 before the bytes are
  received into it, which matters when fewer than four arrive.
\<close>

function svc_vc_recv_mark :: "bool \<Rightarrow> bool \<Rightarrow> svc_vc \<Rightarrow> (bool \<times> u32 \<times> svc_vc) option" where
  "svc_vc_recv_mark rearm cb x =
     (case recv_call 4 False x of
        None \<Rightarrow> None
      | Some (Inl e, x) \<Rightarrow>
          if e = EAGAIN then Some (False, 0, svc_rqst_rearm rearm x) else Some (False, 0, svc_vc_destroy x)
      | Some (Inr got, x) \<Rightarrow>
          if got = [] then Some (False, 0, svc_vc_destroy x)
          else
            let x = x\<lparr>sx_fbtbc := of_be32 (got @ replicate (4 - length got) 0)\<rparr> in
            if sx_fbtbc x = PP2_SIG_UINT32 then
              case handle_haproxy_header rearm (x\<lparr>sx_fbtbc := 0\<rparr>) of
                None \<Rightarrow> None
              | Some (HAPROXY_SUCCESS, x) \<Rightarrow>
                  (case update_and_notify_remote_address_set cb x of
                     None \<Rightarrow> None
                   | Some (False, x) \<Rightarrow> Some (False, 0, svc_vc_destroy x)
                   | Some (True, x) \<Rightarrow> svc_vc_recv_mark rearm cb x)
              | Some (HAPROXY_FAILURE, x) \<Rightarrow> Some (False, 0, svc_vc_destroy x)
              | Some (HAPROXY_IGNORE_LOCAL, x) \<Rightarrow> Some (False, 0, x)
              | Some (HAPROXY_NOT_HAPROXY, x) \<Rightarrow> Some (svc_vc_recv_frag (x\<lparr>sx_fbtbc := PP2_SIG_UINT32\<rparr>))
            else Some (svc_vc_recv_frag x))"
  by pat_completeness auto

lemma update_and_notify_rxs: "update_and_notify_remote_address_set cb x = Some (b, y) \<Longrightarrow> rxs y = rxs x"
  by (auto simp: update_and_notify_remote_address_set_def split: if_split_asm)

termination svc_vc_recv_mark
  by (relation "measure (\<lambda>(rearm, cb, x). length (rxs x))")
    (auto dest!: recv_call_reads haproxy_frame(2) update_and_notify_rxs)

declare svc_vc_recv_mark.simps [simp del]

text \<open>The record is complete.  When the callback fails, the queue is neither on \<open>ioq_q\<close> nor released.\<close>

definition svc_vc_recv_finish :: "bool \<Rightarrow> bool \<Rightarrow> svc_vc \<Rightarrow> svc_vc option" where
  "svc_vc_recv_finish rearm cb x =
     (let q = xdr_ioq_reset 0 (last (ioq_q x)); x = x\<lparr>ioq_q := butlast (ioq_q x)\<rparr>;
          dispatch = (\<lambda>x. let x = svc_rqst_rearm rearm x in
            if rearm then Some (x\<lparr>requests := requests x @ [q]\<rparr>)
            else (case xdr_ioq_destroy 0 q of None \<Rightarrow> None | Some _ \<Rightarrow> Some x)) in
      if \<not> is_remote_addr_set x then
        case update_and_notify_remote_address_set cb x of
          None \<Rightarrow> None
        | Some (ok, x) \<Rightarrow> if \<not> ok then Some (svc_vc_destroy x) else dispatch x
      else dispatch x)"

text \<open>What has arrived of the fragment, into its buffer.\<close>

definition svc_vc_recv_store :: "bytes \<Rightarrow> svc_vc \<Rightarrow> svc_vc" where
  "svc_vc_recv_store got x =
     (let q = last (ioq_q x); uv = last (uvqh q); v = vios q uv;
          q = q\<lparr>heap := write_bytes (heap q) (vio_tail v) got, vios := (vios q)(uv := v\<lparr>vio_tail := vio_tail v + length got\<rparr>)\<rparr> in
      x\<lparr>sx_fbtbc := sx_fbtbc x - of_nat (length got), ioq_q := butlast (ioq_q x) @ [q]\<rparr>)"

definition svc_vc_recv_body :: "bool \<Rightarrow> bool \<Rightarrow> u32 \<Rightarrow> svc_vc \<Rightarrow> svc_vc option" where
  "svc_vc_recv_body rearm cb flags x =
     (case recv_call (unat (sx_fbtbc x)) False x of
        None \<Rightarrow> None
      | Some (Inl e, x) \<Rightarrow> if e = EAGAIN then Some (svc_rqst_rearm rearm x) else Some (svc_vc_destroy x)
      | Some (Inr got, x) \<Rightarrow>
          if got = [] then Some (svc_vc_destroy x)
          else
            let x = svc_vc_recv_store got x in
            if sx_fbtbc x \<noteq> 0 \<or> flag flags UIO_FLAG_MORE then Some (svc_rqst_rearm rearm x)
            else svc_vc_recv_finish rearm cb x)"

definition svc_vc_recv :: "bool \<Rightarrow> bool \<Rightarrow> svc_vc \<Rightarrow> svc_vc option" where
  "svc_vc_recv rearm cb x =
     (let x = svc_vc_recv_ioq x in
      if sx_fbtbc x = 0 then
        case svc_vc_recv_mark rearm cb x of
          None \<Rightarrow> None
        | Some (go_on, flags, x) \<Rightarrow> if go_on then svc_vc_recv_body rearm cb flags x else Some x
      else
        let q = last (ioq_q x) in svc_vc_recv_body rearm cb (u_flags (uvs q (last (uvqh q)))) x)"

section \<open>The remote address\<close>

lemma vc_more:
  assumes "vc_xprt.more y = vc_xprt.more (x :: svc_vc)"
  shows "sx_fbtbc y = sx_fbtbc x" "pagesz y = pagesz x" "maxrec y = maxrec x" "vc_world y = vc_world x" "ioq_q y = ioq_q x" "requests y = requests x"
  using assms by (cases x; cases y; simp)+

definition callbacks :: "('a) vc_xprt_scheme \<Rightarrow> nat" where
  "callbacks x = count_list (vc_log x) Remote_addr_set_cb"

text \<open>What a part of a call may do to the address: nothing once it is set; setting it calls the callback once.\<close>

definition addr_frame :: "svc_vc \<Rightarrow> svc_vc \<Rightarrow> bool" where
  "addr_frame x y \<longleftrightarrow> (is_remote_addr_set x \<longrightarrow> is_remote_addr_set y \<and> xp_remote y = xp_remote x) \<and>
     callbacks y = callbacks x + (if \<not> is_remote_addr_set x \<and> is_remote_addr_set y then 1 else 0) \<and>
     (requests y = requests x \<or> is_remote_addr_set y)"

lemma addr_frame_refl [simp]: "addr_frame x x"
  by (simp add: addr_frame_def)

lemma addr_frame_trans: "addr_frame x y \<Longrightarrow> addr_frame y z \<Longrightarrow> addr_frame x z"
  unfolding addr_frame_def by (auto split: if_split_asm)

lemma addr_frame_same:
  "vc_flags y = vc_flags x \<Longrightarrow> xp_remote y = xp_remote x \<Longrightarrow> vc_log y = vc_log x \<Longrightarrow> requests y = requests x \<Longrightarrow> addr_frame x y"
  by (simp add: addr_frame_def is_remote_addr_set_def callbacks_def)

lemma flag_200: "(f OR 0x20) AND 0x200 = f AND 0x200" "(f OR 0x200) AND 0x200 \<noteq> 0" for f :: u16
proof -
  have b: "g AND 0x200 = 0 \<longleftrightarrow> \<not> bit g 9" for g :: u16 using and_exp_eq_0_iff_not_bit [of g 9] by simp
  show "(f OR 0x200) AND 0x200 \<noteq> 0" by (simp add: b bit_or_iff)
  have "(f OR 0x20) AND 0x200 = (f AND 0x200) OR (0x20 AND 0x200)" by (rule bit.conj_disj_distrib2)
  then show "(f OR 0x20) AND 0x200 = f AND 0x200" by simp
qed

lemma destroy_frame [simp]: "addr_frame x (svc_vc_destroy x)" "is_remote_addr_set (svc_vc_destroy x) = is_remote_addr_set x"
  by (auto simp: addr_frame_def is_remote_addr_set_def callbacks_def svc_vc_destroy_def flag_200(1))

lemma rearm_frame [simp]: "addr_frame x (svc_rqst_rearm rearm x)" "is_remote_addr_set (svc_rqst_rearm rearm x) = is_remote_addr_set x"
proof -
  have "addr_frame x (x\<lparr>vc_log := Rearm # vc_log x\<rparr>)" by (simp add: addr_frame_def is_remote_addr_set_def callbacks_def)
  then show "addr_frame x (svc_rqst_rearm rearm x)" using addr_frame_trans destroy_frame(1) by (auto simp: svc_rqst_rearm_def)
  show "is_remote_addr_set (svc_rqst_rearm rearm x) = is_remote_addr_set x"
    by (auto simp: svc_rqst_rearm_def svc_vc_destroy_def is_remote_addr_set_def flag_200(1))
qed

lemma recv_frame: "recv_call n peek x = Some (r, y) \<Longrightarrow> addr_frame x y"
  by (auto dest!: recv_call_reads simp: pp_reads_def intro!: addr_frame_same)

lemma notify_frame: "update_and_notify_remote_address_set cb x = Some (b, y) \<Longrightarrow> addr_frame x y \<and> is_remote_addr_set y \<and> requests y = requests x"
  by (auto simp: update_and_notify_remote_address_set_def addr_frame_def callbacks_def split: if_split_asm)
    (auto simp: is_remote_addr_set_def flag_200(2))

lemma haproxy_addr_frame:
  assumes "handle_haproxy_header rearm x = Some (r, y)"
  shows "addr_frame x y" "is_remote_addr_set y = is_remote_addr_set x"
proof -
  have f: "pp_frame x y" using haproxy_frame(1) [OF assms] by (simp add: pp_header_def)
  then show "is_remote_addr_set y = is_remote_addr_set x" by (simp add: pp_frame_def is_remote_addr_set_def)
  with f vc_more(6) [of y x] show "addr_frame x y" by (auto simp: pp_frame_def addr_frame_def callbacks_def)
qed

lemma frag_frame: "svc_vc_recv_frag x = (b, flags, y) \<Longrightarrow> addr_frame x y"
proof -
  assume a: "svc_vc_recv_frag x = (b, flags, y)"
  let ?x = "if flag (sx_fbtbc x) VC_LAST_FRAG then x\<lparr>sx_fbtbc := sx_fbtbc x AND NOT VC_LAST_FRAG\<rparr> else x"
  have 1: "addr_frame x ?x" by (auto intro: addr_frame_same)
  have "y = svc_vc_destroy ?x \<or> (\<exists>q. y = ?x\<lparr>ioq_q := q\<rparr>)" using a by (auto simp: svc_vc_recv_frag_def split: if_split_asm prod.split_asm)
  moreover have "addr_frame ?x (?x\<lparr>ioq_q := q\<rparr>)" for q by (rule addr_frame_same) simp_all
  ultimately have "addr_frame ?x y" using destroy_frame(1) by metis
  with 1 show ?thesis by (rule addr_frame_trans)
qed

lemma mark_frame: "svc_vc_recv_mark rearm cb x = Some (b, flags, y) \<Longrightarrow> addr_frame x y"
proof (induction rearm cb x rule: svc_vc_recv_mark.induct)
  case (1 rearm cb x)
  from 1(2) obtain r x1 where r: "recv_call 4 False x = Some (r, x1)"
    by (cases "recv_call 4 False x") (auto simp: svc_vc_recv_mark.simps [of rearm cb x])
  note f1 = recv_frame [OF r]
  show ?case
  proof (cases r)
    case (Inl e)
    with 1(2) r f1 show ?thesis
      by (auto simp: svc_vc_recv_mark.simps [of rearm cb x] split: if_split_asm intro: addr_frame_trans)
  next
    case (Inr got)
    show ?thesis
    proof (cases "got = []")
      case True
      with 1(2) r Inr f1 show ?thesis by (auto simp: svc_vc_recv_mark.simps [of rearm cb x] intro: addr_frame_trans)
    next
      case ne: False
      let ?v = "of_be32 (got @ replicate (4 - length got) 0)"
      have f2: "addr_frame x (x1\<lparr>sx_fbtbc := v\<rparr>)" for v by (rule addr_frame_trans [OF f1]) (simp add: addr_frame_same)
      show ?thesis
      proof (cases "?v = PP2_SIG_UINT32")
        case True
        with 1(2) r Inr ne obtain h x2 where h: "handle_haproxy_header rearm (x1\<lparr>sx_fbtbc := 0\<rparr>) = Some (h, x2)"
          by (auto simp: svc_vc_recv_mark.simps [of rearm cb x] split: option.split_asm)
        note f3 = addr_frame_trans [OF f2 haproxy_addr_frame(1) [OF h]]
        have e: "svc_vc_recv_mark rearm cb x = (case h of
            HAPROXY_SUCCESS \<Rightarrow> (case update_and_notify_remote_address_set cb x2 of None \<Rightarrow> None
              | Some (False, x) \<Rightarrow> Some (False, 0, svc_vc_destroy x) | Some (True, x) \<Rightarrow> svc_vc_recv_mark rearm cb x)
          | HAPROXY_FAILURE \<Rightarrow> Some (False, 0, svc_vc_destroy x2) | HAPROXY_IGNORE_LOCAL \<Rightarrow> Some (False, 0, x2)
          | HAPROXY_NOT_HAPROXY \<Rightarrow> Some (svc_vc_recv_frag (x2\<lparr>sx_fbtbc := PP2_SIG_UINT32\<rparr>)))"
          using r Inr ne True h by (simp add: svc_vc_recv_mark.simps [of rearm cb x])
        show ?thesis
        proof (cases h)
          case HAPROXY_SUCCESS
          with 1(2) e obtain ok x3 where u: "update_and_notify_remote_address_set cb x2 = Some (ok, x3)" by (auto split: option.split_asm)
          note f4 = addr_frame_trans [OF f3 notify_frame [OF u, THEN conjunct1]]
          show ?thesis
          proof (cases ok)
            case True': True
            with 1(2) e HAPROXY_SUCCESS u have m: "svc_vc_recv_mark rearm cb x3 = Some (b, flags, y)" by simp
            have "addr_frame x3 y"
              by (rule 1(1) [OF r refl Inr ne refl _ _ refl HAPROXY_SUCCESS u refl _ m]) (use True True' h in simp_all)
            with f4 show ?thesis by (rule addr_frame_trans)
          qed (use 1(2) e HAPROXY_SUCCESS u f4 in \<open>auto intro: addr_frame_trans\<close>)
        next
          case HAPROXY_NOT_HAPROXY
          with 1(2) e have "svc_vc_recv_frag (x2\<lparr>sx_fbtbc := PP2_SIG_UINT32\<rparr>) = (b, flags, y)" by simp
          moreover have "addr_frame x2 (x2\<lparr>sx_fbtbc := PP2_SIG_UINT32\<rparr>)" by (rule addr_frame_same) simp_all
          ultimately show ?thesis using frag_frame f3 addr_frame_trans by metis
        qed (use 1(2) e f3 in \<open>auto intro: addr_frame_trans\<close>)
      next
        case False
        with 1(2) r Inr ne have "svc_vc_recv_frag (x1\<lparr>sx_fbtbc := ?v\<rparr>) = (b, flags, y)" by (simp add: svc_vc_recv_mark.simps [of rearm cb x])
        from frag_frame [OF this] f2 show ?thesis by (auto intro: addr_frame_trans)
      qed
    qed
  qed
qed

lemma finish_frame:
  assumes "svc_vc_recv_finish rearm cb x = Some y"
  shows "addr_frame x y"
proof -
  let ?x = "x\<lparr>ioq_q := butlast (ioq_q x)\<rparr>"
  have 1: "addr_frame x ?x" by (rule addr_frame_same) simp_all
  have dis: "addr_frame z y" if "is_remote_addr_set z" "(let w = svc_rqst_rearm rearm z in if rearm then Some (w\<lparr>requests := requests w @ [q]\<rparr>)
      else (case xdr_ioq_destroy 0 q of None \<Rightarrow> None | Some _ \<Rightarrow> Some w)) = Some y" for z q
  proof -
    have "addr_frame (svc_rqst_rearm rearm z) y" using that(2) that(1)
      by (auto simp: addr_frame_def is_remote_addr_set_def callbacks_def split: if_split_asm option.split_asm)
        (auto simp: svc_rqst_rearm_def)
    then show ?thesis by (rule addr_frame_trans [OF rearm_frame(1)])
  qed
  have "addr_frame ?x y"
  proof (cases "is_remote_addr_set ?x")
    case True
    with assms show ?thesis by (intro dis [of ?x "xdr_ioq_reset 0 (last (ioq_q x))"]) (simp_all add: svc_vc_recv_finish_def is_remote_addr_set_def)
  next
    case False
    then obtain ok z where u: "update_and_notify_remote_address_set cb ?x = Some (ok, z)"
      using assms by (auto simp: svc_vc_recv_finish_def is_remote_addr_set_def split: option.split_asm)
    note n = notify_frame [OF u]
    have "addr_frame z y"
    proof (cases ok)
      case True
      with assms False u n show ?thesis
        by (intro dis [of z "xdr_ioq_reset 0 (last (ioq_q x))"]) (simp_all add: svc_vc_recv_finish_def is_remote_addr_set_def)
    next
      case False': False
      with assms False u have "y = svc_vc_destroy z" by (simp add: svc_vc_recv_finish_def is_remote_addr_set_def)
      then show ?thesis by simp
    qed
    with n show ?thesis using addr_frame_trans by blast
  qed
  with 1 show ?thesis by (rule addr_frame_trans)
qed

lemma body_frame:
  assumes "svc_vc_recv_body rearm cb flags x = Some y"
  shows "addr_frame x y"
proof -
  obtain r x1 where r: "recv_call (unat (sx_fbtbc x)) False x = Some (r, x1)"
    using assms by (auto simp: svc_vc_recv_body_def split: option.split_asm)
  have "addr_frame x1 y"
  proof (cases r)
    case (Inl e)
    with assms r show ?thesis by (auto simp: svc_vc_recv_body_def split: if_split_asm)
  next
    case (Inr got)
    have "addr_frame x1 (svc_vc_recv_store got x1)" by (rule addr_frame_same) (simp_all add: svc_vc_recv_store_def)
    moreover have "y = svc_vc_destroy x1 \<or> y = svc_rqst_rearm rearm (svc_vc_recv_store got x1) \<or> svc_vc_recv_finish rearm cb (svc_vc_recv_store got x1) = Some y"
      using assms r Inr by (auto simp: svc_vc_recv_body_def split: if_split_asm)
    ultimately show ?thesis using finish_frame by (auto intro: addr_frame_trans)
  qed
  then show ?thesis by (rule addr_frame_trans [OF recv_frame [OF r]])
qed

lemma vc_recv_frame:
  assumes "svc_vc_recv rearm cb x = Some y"
  shows "addr_frame x y"
proof -
  let ?x = "svc_vc_recv_ioq x"
  have 1: "addr_frame x ?x" by (auto simp: svc_vc_recv_ioq_def intro: addr_frame_same)
  have "addr_frame ?x y"
  proof (cases "sx_fbtbc ?x = 0")
    case True
    then obtain b flags z where m: "svc_vc_recv_mark rearm cb ?x = Some (b, flags, z)"
      using assms by (auto simp: svc_vc_recv_def split: option.split_asm)
    have "addr_frame z y" using assms True m body_frame by (auto simp: svc_vc_recv_def split: if_split_asm)
    then show ?thesis by (rule addr_frame_trans [OF mark_frame [OF m]])
  next
    case False
    with assms show ?thesis by (auto simp: svc_vc_recv_def intro: body_frame)
  qed
  with 1 show ?thesis by (rule addr_frame_trans)
qed

text \<open>Calls on a connection, as long as it is not being destroyed, each with the answers that it gets.\<close>

inductive vc_reach :: "svc_vc \<Rightarrow> svc_vc \<Rightarrow> bool" for x0 where
  start: "vc_reach x0 x0"
| call: "vc_reach x0 x \<Longrightarrow> \<not> vc_destroyed x \<Longrightarrow> svc_vc_recv rearm cb (x\<lparr>rxs := rs\<rparr>) = Some y \<Longrightarrow> vc_reach x0 y"

lemma vc_reach_frame: "vc_reach x y \<Longrightarrow> addr_frame x y"
proof (induction rule: vc_reach.induct)
  case (call z rearm cb rs y)
  have "addr_frame z (z\<lparr>rxs := rs\<rparr>)" by (rule addr_frame_same) simp_all
  with call.IH vc_recv_frame [OF call(3)] show ?case by (blast intro: addr_frame_trans)
qed simp

text \<open>
  C35: The remote address of a connection cannot be changed by what the peer sends.  It is announced to the server at most
  once; after that it is final, whatever arrives, and no request is handed on before.
\<close>

theorem vc_remote_address_final:
  assumes "vc_reach x0 x" "\<not> is_remote_addr_set x0" "callbacks x0 = 0" "requests x0 = []"
  shows "callbacks x \<le> 1 \<and> (callbacks x = 1 \<longleftrightarrow> is_remote_addr_set x) \<and> (requests x \<noteq> [] \<longrightarrow> is_remote_addr_set x) \<and>
    (\<forall>y. is_remote_addr_set x \<longrightarrow> vc_reach x y \<longrightarrow> is_remote_addr_set y \<and> xp_remote y = xp_remote x \<and> callbacks y = 1)"
proof -
  have "is_remote_addr_set y \<and> xp_remote y = xp_remote x \<and> callbacks y = callbacks x" if "is_remote_addr_set x" "vc_reach x y" for y
    using vc_reach_frame [OF that(2)] that(1) by (auto simp: addr_frame_def)
  then show ?thesis using vc_reach_frame [OF assms(1)] assms(2-4) by (auto simp: addr_frame_def)
qed

text \<open>A connection on which a record of two bytes arrives.\<close>

definition vc_demo :: "bytes \<Rightarrow> svc_vc" where
  "vc_demo i = \<lparr>inp = i, rxs = [], xp_remote = addr_demo, xp_proxy = addr_demo, tlvs = [], tlv_count = 0, network_id = (0, 0),
     vc_flags = 0x400, vc_log = [], sx_fbtbc = 0, pagesz = 8, maxrec = 64, vc_world = ioq_blank, ioq_q = [], requests = []\<rparr>"

lemma vc_demo_call:
  "case svc_vc_recv True True (vc_demo [0x80, 0, 0, 2, 7, 8]\<lparr>rxs := [Recv 4, Recv 100]\<rparr>) of None \<Rightarrow> False
   | Some y \<Rightarrow> requests y \<noteq> [] \<and> inp y = []"
  by code_simp

theorem vc_remote_address_final_witness:
  "\<exists>x. vc_reach (vc_demo [0x80, 0, 0, 2, 7, 8]) x \<and> requests x \<noteq> [] \<and> is_remote_addr_set x \<and> callbacks x = 1"
proof -
  let ?x = "vc_demo [0x80, 0, 0, 2, 7, 8]"
  obtain y where y: "svc_vc_recv True True (?x\<lparr>rxs := [Recv 4, Recv 100]\<rparr>) = Some y" "requests y \<noteq> []"
    using vc_demo_call by (auto split: option.split_asm)
  have r: "vc_reach ?x y" by (rule vc_reach.call [OF vc_reach.start _ y(1)]) (simp add: vc_destroyed_def vc_demo_def)
  have "\<not> is_remote_addr_set ?x" "callbacks ?x = 0" "requests ?x = []" by (simp_all add: vc_demo_def is_remote_addr_set_def callbacks_def)
  from vc_remote_address_final [OF r this] r y(2) show ?thesis by blast
qed

section \<open>Records\<close>

text \<open>The fragments of a record on the wire, and the condition that their marks can be told from a PROXY header.\<close>

fun enc_frags :: "bytes list \<Rightarrow> bytes" where
  "enc_frags [] = []"
| "enc_frags [f] = be32 (of_nat (length f) OR VC_LAST_FRAG) @ f"
| "enc_frags (f # g # gs) = be32 (of_nat (length f)) @ f @ enc_frags (g # gs)"

fun frags_ok :: "bytes list \<Rightarrow> bool" where
  "frags_ok [] = False"
| "frags_ok [f] = (0 < length f \<and> length f < 2 ^ 31)"
| "frags_ok (f # g # gs) = (0 < length f \<and> length f < 2 ^ 31 \<and> length f \<noteq> unat PP2_SIG_UINT32 \<and> frags_ok (g # gs))"

text \<open>A queue with one buffer per fragment, and one that is positioned at its start.\<close>

definition q_frags :: "xdr_ioq \<Rightarrow> bytes list" where
  "q_frags q = map (\<lambda>i. vio_bytes (heap q) (vios q i)) (uvqh q)"

definition q_ok :: "xdr_ioq \<Rightarrow> bool" where
  "q_ok q \<longleftrightarrow> distinct (uvqh q) \<and> bufs_ok (vios q) (uvqh q) (brk q) (next_uv q) \<and> qcount q = length (uvqh q) \<and>
     (\<forall>i \<in> set (uvqh q). vio_head (vios q i) = vio_base (vios q i) \<and> vio_base (vios q i) < vio_wrap (vios q i))"

definition vc_ready :: "xdr_ioq \<Rightarrow> bytes list \<Rightarrow> bool" where
  "vc_ready q fs \<longleftrightarrow> uvqh q \<noteq> [] \<and> ioq_at q [] (hd (uvqh q)) (tl (uvqh q)) \<and> x_data q = vio_head (x_v q) \<and> q_frags q = fs"

lemma vc_ready_rd: "vc_ready q fs \<Longrightarrow> ioq_rd q = concat fs"
proof -
  assume r: "vc_ready q fs"
  then have "ioq_at q [] (hd (uvqh q)) (tl (uvqh q))" by (simp add: vc_ready_def)
  from following_at [OF this] r have "uvqh q = hd (uvqh q) # tl (uvqh q)" "x_v q = vios q (hd (uvqh q))" "following q = tl (uvqh q)"
    by (auto simp: vc_ready_def ioq_at_def)
  moreover have "fs = vio_bytes (heap q) (vios q (hd (uvqh q))) # map (\<lambda>i. vio_bytes (heap q) (vios q i)) (tl (uvqh q))"
    using r by (metis calculation(1) list.simps(9) q_frags_def vc_ready_def)
  ultimately show ?thesis using r by (simp add: ioq_rd_def vc_ready_def bufs_bytes_def vio_bytes_def ioquv_length_def)
qed

text \<open>A new buffer, a store into the last one, and rewinding.\<close>

lemma q_new_buffer:
  assumes "q_ok q" "0 < n" "xdr_ioq_uv_create n flags q = (uv, q1)"
  defines "q2 \<equiv> q1\<lparr>qcount := qcount q1 + 1, uvqh := uvqh q1 @ [uv]\<rparr>"
  shows "q_ok q2" "q_frags q2 = q_frags q @ [[]]" "uvqh q2 = uvqh q @ [uv]" "u_flags (uvs q2 uv) = flags"
    "vio_wrap (vios q2 uv) = vio_tail (vios q2 uv) + n"
proof -
  let ?v = "\<lparr>vio_base = brk q, vio_head = brk q, vio_tail = brk q, vio_wrap = brk q + n, vio_length = 0, vio_type = VIO_HEADER\<rparr>"
  have uv: "uv = next_uv q" and q1: "vios q1 = (vios q)(uv := ?v)" "uvqh q1 = uvqh q" "brk q1 = brk q + n" "next_uv q1 = next_uv q + 1"
      "qcount q1 = qcount q" "heap q1 = heap q" "u_flags (uvs q1 uv) = flags"
    using assms(2,3) by (auto simp: xdr_ioq_uv_create_def)
  have b: "bufs_ok (vios q) (uvqh q) (brk q) (next_uv q)" "0 < brk q" "next_uv q \<notin> set (uvqh q)" using assms(1) by (auto simp: q_ok_def bufs_ok_def)
  have "bufs_ok ((vios q)(next_uv q := ?v)) (uvqh q @ [next_uv q]) (brk q + n) (next_uv q + 1)"
    by (rule bufs_ok_new [OF b(1)]) (use b(2) in \<open>auto simp: vio_ok_def\<close>)
  with assms(1,2) b(3) show "q_ok q2" by (auto simp: q_ok_def q2_def q1 uv)
  show "q_frags q2 = q_frags q @ [[]]" using b(3) by (auto simp: q_frags_def q2_def q1 uv vio_bytes_def ioquv_length_def)
  show "uvqh q2 = uvqh q @ [uv]" "u_flags (uvs q2 uv) = flags" "vio_wrap (vios q2 uv) = vio_tail (vios q2 uv) + n"
    by (simp_all add: q2_def q1)
qed

lemma q_store:
  assumes "q_ok q" "uvqh q = us @ [uv]" "vio_tail (vios q uv) + length got \<le> vio_wrap (vios q uv)" "q_frags q = fs @ [p]"
  defines "v \<equiv> vios q uv"
  defines "q2 \<equiv> q\<lparr>heap := write_bytes (heap q) (vio_tail v) got, vios := (vios q)(uv := v\<lparr>vio_tail := vio_tail v + length got\<rparr>)\<rparr>"
  shows "q_ok q2" "q_frags q2 = fs @ [p @ got]"
proof -
  have o: "distinct (us @ [uv])" "bufs_ok (vios q) (us @ [uv]) (brk q) (next_uv q)" using assms(1,2) by (auto simp: q_ok_def)
  then have v: "vio_ok v" "vio_head v \<le> vio_tail v" by (auto simp: bufs_ok_def v_def vio_ok_def)
  have "bufs_ok ((vios q)(uv := v\<lparr>vio_tail := vio_tail v + length got\<rparr>)) (us @ [uv]) (brk q) (next_uv q)"
    unfolding v_def by (rule bufs_ok_tail [OF o(2)]) (use v assms(3) in \<open>auto simp: v_def\<close>)
  with assms(1,2) show "q_ok q2" by (auto simp: q_ok_def q2_def v_def)
  have pf: "map (\<lambda>i. vio_bytes (heap q) (vios q i)) us = fs" "vio_bytes (heap q) v = p"
    using assms(2,4) by (auto simp: q_frags_def v_def)
  have "vio_bytes (write_bytes (heap q) (vio_tail v) got) (vios q i) = vio_bytes (heap q) (vios q i)" if "i \<in> set us" for i
  proof -
    have "vio_apart (vios q i) v" "vio_ok (vios q i)" using that o by (auto simp: bufs_ok_def v_def)
    with v assms(3) show ?thesis unfolding vio_bytes_def ioquv_length_def
      by (intro read_bytes_cong) (auto simp: vio_apart_def vio_ok_def v_def write_bytes_def)
  qed
  then have "map (\<lambda>i. vio_bytes (heap q2) (vios q2 i)) us = fs" using pf(1) o(1) by (auto simp: q2_def)
  moreover have "vio_bytes (heap q2) (vios q2 uv) = p @ got"
    unfolding pf(2) [symmetric] vio_bytes_def q2_def using v(2)
    by (simp add: ioquv_length_def v_def read_write_append)
  ultimately show "q_frags q2 = fs @ [p @ got]" using assms(2) by (simp add: q_frags_def q2_def)
qed

lemma q_rewind:
  assumes "q_ok q" "uvqh q \<noteq> []"
  shows "vc_ready (xdr_ioq_reset 0 q) (q_frags q)"
proof -
  obtain u us where u: "uvqh q = u # us" using assms(2) by (cases "uvqh q") auto
  have h: "vio_head (vios q u) = vio_base (vios q u)" "vio_base (vios q u) < vio_wrap (vios q u)" using assms(1) u by (auto simp: q_ok_def)
  have same: "(vios q)(u := (vios q u)\<lparr>vio_head := vio_base (vios q u)\<rparr>) = vios q" using h(1) by (intro fun_upd_idem) simp
  have "xdr_ioq_reset 0 q = q\<lparr>plength := 0, pcount := 0, x_data := vio_head (vios q u), x_base := VioAt u, x_v := vios q u\<rparr>"
    using same by (simp add: xdr_ioq_reset_def xdr_ioq_uv_reset_def u)
  with assms(1) u h show ?thesis by (auto simp: vc_ready_def ioq_at_def q_ok_def q_frags_def)
qed

text \<open>
  Where the connection is in the stream: between two fragments, or within one.  \<open>ext\<close> is the part of the stream that does not
  arrive.
\<close>

definition stream_of :: "bytes list \<Rightarrow> bytes list list \<Rightarrow> bytes" where
  "stream_of gs rest = enc_frags gs @ concat (map enc_frags rest)"

definition vc_between :: "bytes \<Rightarrow> svc_vc \<Rightarrow> bytes list list \<Rightarrow> bool" where
  "vc_between ext x todo \<longleftrightarrow> sx_fbtbc x = 0 \<and> 0 < brk (vc_world x) \<and>
     (\<exists>fs gs rest. (todo = [] \<and> fs = [] \<and> gs = [] \<and> rest = [] \<or> todo = (fs @ gs) # rest \<and> frags_ok gs \<and> (\<forall>r \<in> set rest. frags_ok r)) \<and>
        inp x @ ext = stream_of gs rest \<and> (ioq_q x = [] \<and> fs = [] \<or> (\<exists>q. ioq_q x = [q] \<and> q_ok q \<and> q_frags q = fs)))"

definition vc_within :: "bytes \<Rightarrow> svc_vc \<Rightarrow> bytes list list \<Rightarrow> bool" where
  "vc_within ext x todo \<longleftrightarrow> 0 < brk (vc_world x) \<and> (\<exists>fs p p' gs rest q us uv. todo = (fs @ (p @ p') # gs) # rest \<and> (gs = [] \<or> frags_ok gs) \<and>
     (\<forall>r \<in> set rest. frags_ok r) \<and> p' \<noteq> [] \<and> unat (sx_fbtbc x) = length p' \<and> inp x @ ext = p' @ stream_of gs rest \<and>
     ioq_q x = [q] \<and> q_ok q \<and> uvqh q = us @ [uv] \<and> q_frags q = fs @ [p] \<and>
     vio_wrap (vios q uv) = vio_tail (vios q uv) + length p' \<and> (flag (u_flags (uvs q uv)) UIO_FLAG_MORE \<longleftrightarrow> gs \<noteq> []))"

definition vc_inv :: "bytes \<Rightarrow> bytes list list \<Rightarrow> svc_vc \<Rightarrow> bool" where
  "vc_inv ext recs x \<longleftrightarrow> (\<exists>fin todo. recs = fin @ todo \<and> list_all2 vc_ready (requests x) fin \<and>
     (vc_destroyed x \<or> vc_between ext x todo \<or> vc_within ext x todo))"

lemma vc_inv_frame:
  assumes "recs = fin @ todo" "list_all2 vc_ready (requests x) fin" "vc_between ext x todo \<or> vc_within ext x todo"
    "requests y = requests x" "sx_fbtbc y = sx_fbtbc x" "inp y = inp x" "ioq_q y = ioq_q x" "vc_world y = vc_world x"
  shows "vc_inv ext recs y"
  using assms unfolding vc_inv_def vc_between_def vc_within_def by metis

lemma vc_inv_dead:
  assumes "recs = fin @ todo" "list_all2 vc_ready (requests x) fin"
  shows "vc_inv ext recs (svc_vc_destroy x)"
proof -
  have "(vc_flags x OR 0x20) AND 0x60 = (vc_flags x AND 0x60) OR (0x20 AND 0x60)" by (rule bit.conj_disj_distrib2)
  then have "vc_destroyed (svc_vc_destroy x)" by (simp add: vc_destroyed_def svc_vc_destroy_def or_eq_0_iff)
  with assms show ?thesis by (auto simp: vc_inv_def svc_vc_destroy_def)
qed

lemma vc_inv_rearm:
  assumes "recs = fin @ todo" "list_all2 vc_ready (requests x) fin" "vc_between ext x todo \<or> vc_within ext x todo"
  shows "vc_inv ext recs (svc_rqst_rearm r x)"
  using vc_inv_frame [OF assms, of "x\<lparr>vc_log := Rearm # vc_log x\<rparr>"] vc_inv_dead [OF assms(1), of "x\<lparr>vc_log := Rearm # vc_log x\<rparr>"] assms(2)
  by (simp add: svc_rqst_rearm_def)

abbreviation open_flags :: "svc_vc \<Rightarrow> u32" where
  "open_flags x \<equiv> u_flags (uvs (last (ioq_q x)) (last (uvqh (last (ioq_q x)))))"

text \<open>The mark of a fragment.\<close>

definition mark_of :: "bytes list \<Rightarrow> u32" where
  "mark_of gs = (if tl gs = [] then of_nat (length (hd gs)) OR VC_LAST_FRAG else of_nat (length (hd gs)))"

lemma enc_frags_Cons: "gs \<noteq> [] \<Longrightarrow> enc_frags gs = be32 (mark_of gs) @ hd gs @ enc_frags (tl gs)"
  by (cases gs rule: enc_frags.cases) (auto simp: mark_of_def)

lemma frags_ok_Cons: "frags_ok gs \<Longrightarrow> gs \<noteq> [] \<and> 0 < length (hd gs) \<and> length (hd gs) < 2 ^ 31 \<and> (tl gs = [] \<or> frags_ok (tl gs) \<and> length (hd gs) \<noteq> unat PP2_SIG_UINT32)"
  by (cases gs rule: frags_ok.cases) auto

lemma mark_bits:
  assumes "n < 2 ^ 31"
  shows "(of_nat n OR VC_LAST_FRAG) AND NOT VC_LAST_FRAG = (of_nat n :: u32)" "flag (of_nat n OR VC_LAST_FRAG) VC_LAST_FRAG" "\<not> flag (of_nat n) VC_LAST_FRAG"
proof -
  let ?w = "of_nat n :: u32"
  have w: "unat ?w = n" using assms by (intro unat_of_nat_small) simp
  have b: "\<not> bit ?w 31"
  proof
    assume "bit ?w 31"
    then have "bit (unat ?w) 31" by (simp only: bit_unsigned_iff) simp
    with w assms show False by (simp add: bit_iff_odd)
  qed
  have m: "f AND 0x80000000 = 0 \<longleftrightarrow> \<not> bit f 31" for f :: u32 using and_exp_eq_0_iff_not_bit [of f 31] by simp
  show "flag (?w OR VC_LAST_FRAG) VC_LAST_FRAG" "\<not> flag ?w VC_LAST_FRAG" using b by (simp_all add: flag_def m bit_or_iff)
  have e: "bit (0x80000000 :: u32) i \<longleftrightarrow> i = 31" for i using bit_exp_iff [of 31 i, where ?'a = "32 word"] by auto
  show "(?w OR VC_LAST_FRAG) AND NOT VC_LAST_FRAG = ?w"
  proof (rule bit_word_eqI)
    fix i assume "i < LENGTH(32)"
    then show "bit ((?w OR VC_LAST_FRAG) AND NOT VC_LAST_FRAG) i = bit ?w i"
      using b e [of i] unfolding bit_and_iff bit_or_iff bit_not_iff by (cases "i = 31") auto
  qed
qed

text \<open>The three parts of a call: a new fragment, what arrives of it, and the mark.\<close>

lemma frag_within:
  assumes "frags_ok gs" "\<forall>r \<in> set rest. frags_ok r" "sx_fbtbc x = mark_of gs" "inp x @ ext = hd gs @ stream_of (tl gs) rest"
    "ioq_q x = [q]" "q_ok q" "q_frags q = fs" "0 < brk (vc_world x)"
  shows "\<exists>y flags. svc_vc_recv_frag x = (True, flags, y) \<and> vc_within ext y ((fs @ gs) # rest) \<and> requests y = requests x \<and> flags = open_flags y"
proof -
  note ok = frags_ok_Cons [OF assms(1)]
  let ?n = "length (hd gs)" and ?flags = "if tl gs = [] then UIO_FLAG_FREE else UIO_FLAG_FREE OR UIO_FLAG_MORE"
  have n: "?n < 2 ^ 31" "0 < ?n" using ok by auto
  have un: "unat (of_nat ?n :: u32) = ?n" using n(1) by (intro unat_of_nat_small) simp
  then have nz: "(of_nat ?n :: u32) \<noteq> 0" using n(2) by (metis less_numeral_extra(3) unat_0)
  obtain uv q1 where c: "xdr_ioq_uv_create ?n ?flags q = (uv, q1)" by (rule prod.exhaust)
  let ?q = "q1\<lparr>qcount := qcount q1 + 1, uvqh := uvqh q1 @ [uv]\<rparr>"
  let ?y = "x\<lparr>sx_fbtbc := of_nat ?n, ioq_q := [?q]\<rparr>"
  note b = q_new_buffer [OF assms(6) n(2) c]
  have "svc_vc_recv_frag x = (True, ?flags, ?y)"
  proof (cases "tl gs = []")
    case True
    then show ?thesis using assms(3,5) mark_bits [OF n(1)] nz un c by (simp add: svc_vc_recv_frag_def mark_of_def)
  next
    case False
    then show ?thesis using assms(3,5) mark_bits(3) [OF n(1)] nz un c by (simp add: svc_vc_recv_frag_def mark_of_def)
  qed
  moreover have "vc_within ext ?y ((fs @ gs) # rest)"
    unfolding vc_within_def
  proof (intro conjI exI)
    show "(fs @ gs) # rest = (fs @ ([] @ hd gs) # tl gs) # rest" using ok by simp
    show "unat (sx_fbtbc ?y) = length (hd gs)" using un by simp
    show "uvqh ?q = uvqh q @ [uv]" "vio_wrap (vios ?q uv) = vio_tail (vios ?q uv) + length (hd gs)" "q_ok ?q" using b by simp_all
    show "q_frags ?q = fs @ [[]]" using b(2) assms(7) by simp
    show "flag (u_flags (uvs ?q uv)) UIO_FLAG_MORE \<longleftrightarrow> tl gs \<noteq> []" using b(4) by (simp add: flag_def)
  qed (use assms ok in auto)
  moreover have "?flags = open_flags ?y" using b(3,4) by simp
  moreover have "requests ?y = requests x" by simp
  ultimately show ?thesis by blast
qed

lemma finish_inv:
  assumes "svc_vc_recv_finish rearm cb x = Some y" "recs = fin @ fs # rest" "list_all2 vc_ready (requests x) fin"
    "ioq_q x = [q]" "q_ok q" "q_frags q = fs" "fs \<noteq> []" "sx_fbtbc x = 0" "inp x @ ext = stream_of [] rest" "\<forall>r \<in> set rest. frags_ok r" "0 < brk (vc_world x)"
  shows "vc_inv ext recs y"
proof -
  let ?q = "xdr_ioq_reset 0 q" and ?x = "x\<lparr>ioq_q := []\<rparr>"
  have ready: "vc_ready ?q fs" using q_rewind [OF assms(5)] assms(6,7) by (auto simp: q_frags_def)
  have dead: "vc_inv ext recs (svc_vc_destroy z)" if "requests z = requests x" for z
    by (rule vc_inv_dead [OF assms(2)]) (use that assms(3) in simp)
  have dis: "vc_inv ext recs y" if z: "requests z = requests x" "sx_fbtbc z = 0" "inp z = inp x" "ioq_q z = []" "vc_world z = vc_world x"
    and d: "(let w = svc_rqst_rearm rearm z in if rearm then Some (w\<lparr>requests := requests w @ [?q]\<rparr>)
      else (case xdr_ioq_destroy 0 ?q of None \<Rightarrow> None | Some _ \<Rightarrow> Some w)) = Some y" for z
  proof (cases rearm)
    case True
    then have y: "y = z\<lparr>vc_log := Rearm # vc_log z, requests := requests z @ [?q]\<rparr>" using d by (simp add: svc_rqst_rearm_def)
    have "vc_between ext y rest"
    proof (cases rest)
      case Nil
      then show ?thesis using z assms(9,11) by (auto simp: y vc_between_def stream_of_def)
    next
      case (Cons r rest')
      with assms(10) have "frags_ok r" "\<forall>r \<in> set rest'. frags_ok r" by auto
      then show ?thesis using z assms(9,11) Cons
        by (auto simp: y vc_between_def stream_of_def intro!: exI [of _ "[]"] exI [of _ r] exI [of _ rest'])
    qed
    moreover have "list_all2 vc_ready (requests y) (fin @ [fs])" using assms(3) ready z(1) by (simp add: y list_all2_appendI)
    ultimately show ?thesis unfolding vc_inv_def using assms(2) by (intro exI [of _ "fin @ [fs]"] exI [of _ rest]) simp
  next
    case False
    then have "y = svc_vc_destroy (z\<lparr>vc_log := Rearm # vc_log z\<rparr>)" using d by (simp add: svc_rqst_rearm_def split: option.split_asm)
    then show ?thesis using dead z(1) by simp
  qed
  show ?thesis
  proof (cases "is_remote_addr_set ?x")
    case True
    with assms(1,4) show ?thesis by (intro dis [of ?x]) (use assms(8) in \<open>simp_all add: svc_vc_recv_finish_def\<close>)
  next
    case False
    then obtain ok z where u: "update_and_notify_remote_address_set cb ?x = Some (ok, z)"
      using assms(1,4) by (auto simp: svc_vc_recv_finish_def split: option.split_asm)
    have z: "requests z = requests x" "sx_fbtbc z = 0" "inp z = inp x" "ioq_q z = []" "vc_world z = vc_world x"
      using u assms(8) by (auto simp: update_and_notify_remote_address_set_def split: if_split_asm)
    show ?thesis
    proof (cases ok)
      case True
      with assms(1,4) False u z show ?thesis by (intro dis [of z]) (simp_all add: svc_vc_recv_finish_def)
    next
      case False': False
      with assms(1,4) False u have "y = svc_vc_destroy z" by (simp add: svc_vc_recv_finish_def)
      then show ?thesis using dead z(1) by simp
    qed
  qed
qed

lemma recv_call_cases:
  assumes "recv_call n False x = Some (r, y)"
  obtains e rs where "r = Inl e" "y = x\<lparr>rxs := rs\<rparr>" | k rs where "r = Inr (take k (inp x))" "k \<le> n" "y = x\<lparr>inp := drop k (inp x), rxs := rs\<rparr>"
    "\<exists>m. hd (rxs x) = Recv m \<and> k = min m n"
proof (cases "rxs x")
  case (Cons a rs)
  show ?thesis
  proof (cases a)
    case (Recv m)
    have "drop (length (take (min m n) (inp x))) (inp x) = drop (min m n) (inp x)" by (simp add: min_def)
    then show ?thesis using that(2) [of "min m n" rs] assms Cons Recv by (simp add: recv_call_def)
  next
    case (Recv_errno e)
    then show ?thesis using that(1) [of e rs] assms Cons by (simp add: recv_call_def)
  qed
qed (use assms in \<open>simp add: recv_call_def\<close>)

lemma body_inv:
  assumes b: "svc_vc_recv_body rearm cb (open_flags x) x = Some y" and s: "recs = fin @ todo" "list_all2 vc_ready (requests x) fin" "vc_within ext x todo"
  shows "vc_inv ext recs y"
proof -
  from s(3) obtain fs p p' gs rest q us uv where w: "todo = (fs @ (p @ p') # gs) # rest" "gs = [] \<or> frags_ok gs" "\<forall>r \<in> set rest. frags_ok r" "p' \<noteq> []"
      "unat (sx_fbtbc x) = length p'" "inp x @ ext = p' @ stream_of gs rest" "ioq_q x = [q]" "q_ok q" "uvqh q = us @ [uv]" "q_frags q = fs @ [p]"
      "vio_wrap (vios q uv) = vio_tail (vios q uv) + length p'" "flag (u_flags (uvs q uv)) UIO_FLAG_MORE \<longleftrightarrow> gs \<noteq> []" "0 < brk (vc_world x)"
    unfolding vc_within_def by (elim exE conjE)
  have fl: "flag (open_flags x) UIO_FLAG_MORE \<longleftrightarrow> gs \<noteq> []" using w(7,9,12) by simp
  obtain r x1 where r: "recv_call (unat (sx_fbtbc x)) False x = Some (r, x1)" using b by (auto simp: svc_vc_recv_body_def split: option.split_asm)
  from r show ?thesis
  proof (cases rule: recv_call_cases)
    case (1 e rs)
    have "list_all2 vc_ready (requests x1) fin" "vc_within ext x1 todo" using s(2,3) 1(2) by (simp_all add: vc_within_def)
    then have "vc_inv ext recs (svc_rqst_rearm rearm x1)" "vc_inv ext recs (svc_vc_destroy x1)" using vc_inv_rearm [OF s(1)] vc_inv_dead [OF s(1)] by blast+
    then show ?thesis using b r 1(1) by (auto simp: svc_vc_recv_body_def split: if_split_asm)
  next
    case (2 k rs)
    define got where "got = take k (inp x)"
    define p2 where "p2 = drop (length got) p'"
    have k: "length got \<le> length p'" using 2(2) w(5) by (simp add: got_def)
    have s2: "got @ (drop k (inp x) @ ext) = p' @ stream_of gs rest" using w(6) by (simp add: got_def flip: append_assoc)
    then have "got = take (length got) p'" using k by (metis append_eq_append_conv_if append_take_drop_id length_take min.absorb2)
    then have pg: "p' = got @ p2" by (metis append_take_drop_id p2_def)
    have g: "r = Inr got" "p' = got @ p2" "x1 = x\<lparr>inp := drop k (inp x), rxs := rs\<rparr>" "drop k (inp x) @ ext = p2 @ stream_of gs rest"
      using 2(1,3) s2 pg by (simp_all add: got_def)
    show ?thesis
    proof (cases "got = []")
      case True
      then have "y = svc_vc_destroy x1" using b r g(1) by (simp add: svc_vc_recv_body_def)
      then show ?thesis using vc_inv_dead [OF s(1), of x1] s(2) g(3) by simp
    next
      case ne: False
      define z where "z = svc_vc_recv_store got x1"
      have e: "(if sx_fbtbc z \<noteq> 0 \<or> gs \<noteq> [] then Some (svc_rqst_rearm rearm z) else svc_vc_recv_finish rearm cb z) = Some y"
        unfolding z_def using b r g(1) ne fl by (simp add: svc_vc_recv_body_def split del: if_split)
      let ?v = "vios q uv"
      let ?q = "q\<lparr>heap := write_bytes (heap q) (vio_tail ?v) got, vios := (vios q)(uv := ?v\<lparr>vio_tail := vio_tail ?v + length got\<rparr>)\<rparr>"
      have fit: "vio_tail ?v + length got \<le> vio_wrap ?v" using w(11) g(2) by simp
      note st = q_store [OF w(8,9) fit w(10)]
      have z: "requests z = requests x" "inp z @ ext = p2 @ stream_of gs rest" "ioq_q z = [?q]" "vc_world z = vc_world x" "sx_fbtbc z = sx_fbtbc x - of_nat (length got)"
        using w(7,9) g(3,4) by (simp_all add: z_def svc_vc_recv_store_def)
      have "length got < 2 ^ 32" using k w(5) unsigned_less [of "sx_fbtbc x", where ?'a = nat] by simp
      then have uk: "unat (of_nat (length got) :: u32) = length got" by (intro unat_of_nat_small) simp
      have sz: "unat (sx_fbtbc z) = length p2"
        using w(5) k uk by (simp add: z(5) unat_sub word_le_nat_alt p2_def)
      have rdy: "list_all2 vc_ready (requests z) fin" using s(2) z(1) by simp
      show ?thesis
      proof (cases "p2 = []")
        case False
        have "vc_within ext z todo"
          unfolding vc_within_def
        proof (intro conjI exI)
          show "todo = (fs @ ((p @ got) @ p2) # gs) # rest" using w(1) g(2) by simp
          show "q_frags ?q = fs @ [p @ got]" "q_ok ?q" using st by simp_all
          show "uvqh ?q = us @ [uv]" using w(9) by simp
          show "vio_wrap (vios ?q uv) = vio_tail (vios ?q uv) + length p2" using w(11) g(2) by simp
          show "flag (u_flags (uvs ?q uv)) UIO_FLAG_MORE \<longleftrightarrow> gs \<noteq> []" using w(12) by simp
        qed (use w z sz False in simp_all)
        moreover have "sx_fbtbc z \<noteq> 0" using sz False by auto
        ultimately show ?thesis using e vc_inv_rearm [OF s(1) rdy, of ext rearm] by auto
      next
        case True
        then have s0: "sx_fbtbc z = 0" "got = p'" using sz g(2) by (simp_all add: unat_eq_0)
        show ?thesis
        proof (cases "gs = []")
          case False
          have "vc_between ext z todo"
            unfolding vc_between_def
          proof (intro conjI exI)
            show "todo = [] \<and> fs @ [p @ p'] = [] \<and> gs = [] \<and> rest = [] \<or> todo = ((fs @ [p @ p']) @ gs) # rest \<and> frags_ok gs \<and> (\<forall>r \<in> set rest. frags_ok r)"
              using w(1-3) False by simp
            show "ioq_q z = [] \<and> fs @ [p @ p'] = [] \<or> (\<exists>q. ioq_q z = [q] \<and> q_ok q \<and> q_frags q = fs @ [p @ p'])" using z(3) st s0(2) by auto
          qed (use z w(13) s0 True in simp_all)
          then show ?thesis using e False vc_inv_rearm [OF s(1) rdy, of ext rearm] by auto
        next
          case gs: True
          have f: "svc_vc_recv_finish rearm cb z = Some y" using e gs s0(1) by simp
          show ?thesis
            by (rule finish_inv [OF f _ rdy z(3) st(1) st(2) _ s0(1)]) (use s(1) w z(2,4) gs True s0(2) in simp_all)
        qed
      qed
    qed
  qed
qed

text \<open>The first read of a call gives a whole mark or nothing of it.\<close>

definition whole_mark :: "bytes \<Rightarrow> recv_result list \<Rightarrow> bool" where
  "whole_mark i rs \<longleftrightarrow> (\<forall>m. hd rs = Recv m \<longrightarrow> m = 0 \<or> i = [] \<or> 4 \<le> m \<and> 4 \<le> length i)"

lemma mark_not_proxy: "frags_ok gs \<Longrightarrow> mark_of gs \<noteq> PP2_SIG_UINT32"
proof
  assume g: "frags_ok gs" and m: "mark_of gs = PP2_SIG_UINT32"
  note ok = frags_ok_Cons [OF g]
  show False
  proof (cases "tl gs = []")
    case True
    then have "flag PP2_SIG_UINT32 VC_LAST_FRAG" using m mark_bits(2) [of "length (hd gs)"] ok by (simp add: mark_of_def)
    then show False by (simp add: flag_def)
  next
    case False
    then have "unat (of_nat (length (hd gs)) :: u32) = unat PP2_SIG_UINT32" using m by (simp add: mark_of_def)
    then show False using ok False unat_of_nat_small [of "length (hd gs)", where ?'a = 32] by simp
  qed
qed

lemma mark_inv:
  assumes b: "svc_vc_recv_mark rearm cb x = Some (go_on, flags, y)" and s: "recs = fin @ todo" "list_all2 vc_ready (requests x) fin" "vc_between ext x todo"
    and q: "ioq_q x = [q]" and m: "whole_mark (inp x) (rxs x)"
  shows "if go_on then vc_within ext y todo \<and> requests y = requests x \<and> flags = open_flags y else vc_inv ext recs y"
proof -
  from s(3) q obtain fs gs rest where w: "sx_fbtbc x = 0" "0 < brk (vc_world x)" "inp x @ ext = stream_of gs rest" "q_ok q" "q_frags q = fs"
      "todo = [] \<and> gs = [] \<and> rest = [] \<or> todo = (fs @ gs) # rest \<and> frags_ok gs \<and> (\<forall>r \<in> set rest. frags_ok r)"
    unfolding vc_between_def by auto
  obtain r x1 where r: "recv_call 4 False x = Some (r, x1)"
    using b by (cases "recv_call 4 False x") (auto simp: svc_vc_recv_mark.simps [of rearm cb x])
  from r show ?thesis
  proof (cases rule: recv_call_cases)
    case (1 e rs)
    have "list_all2 vc_ready (requests x1) fin" "vc_between ext x1 todo" using s(2,3) 1(2) by (simp_all add: vc_between_def)
    then have "vc_inv ext recs (svc_rqst_rearm rearm x1)" "vc_inv ext recs (svc_vc_destroy x1)" using vc_inv_rearm [OF s(1)] vc_inv_dead [OF s(1)] by blast+
    then show ?thesis using b r 1(1) by (auto simp: svc_vc_recv_mark.simps [of rearm cb x] split: if_split_asm)
  next
    case (2 k rs)
    then have k: "take k (inp x) = [] \<or> k = 4 \<and> 4 \<le> length (inp x)" using m by (auto simp: whole_mark_def min_def split: if_split_asm)
    show ?thesis
    proof (cases "take k (inp x) = []")
      case True
      then have "y = svc_vc_destroy x1" "\<not> go_on" using b r 2(1) by (auto simp: svc_vc_recv_mark.simps [of rearm cb x])
      then show ?thesis using vc_inv_dead [OF s(1), of x1] s(2) 2(3) by simp
    next
      case False
      then have k4: "k = 4" "4 \<le> length (inp x)" and td: "todo = (fs @ gs) # rest" "frags_ok gs" "\<forall>r \<in> set rest. frags_ok r"
        using k w(3,6) by (auto simp: stream_of_def)
      have i: "inp x @ ext = be32 (mark_of gs) @ hd gs @ stream_of (tl gs) rest"
        using w(3) enc_frags_Cons [of gs] frags_ok_Cons [OF td(2)] by (simp add: stream_of_def)
      then have "take 4 (inp x @ ext) = be32 (mark_of gs)" "drop 4 (inp x @ ext) = hd gs @ stream_of (tl gs) rest" by simp_all
      then have g: "r = Inr (be32 (mark_of gs))" "x1 = x\<lparr>inp := drop 4 (inp x), rxs := rs\<rparr>" "drop 4 (inp x) @ ext = hd gs @ stream_of (tl gs) rest"
        using 2(1,3) k4 by simp_all
      let ?x = "x1\<lparr>sx_fbtbc := mark_of gs\<rparr>"
      have "svc_vc_recv_frag ?x = (go_on, flags, y)"
        using b r g(1) mark_not_proxy [OF td(2)] by (simp add: svc_vc_recv_mark.simps [of rearm cb x])
      moreover obtain z fl where "svc_vc_recv_frag ?x = (True, fl, z)" "vc_within ext z ((fs @ gs) # rest)" "requests z = requests ?x" "fl = open_flags z"
        using frag_within [OF td(2,3), of ?x ext q fs] w q g(2,3) by auto
      ultimately show ?thesis using g(2) td(1) by auto
    qed
  qed
qed

lemma recv_ioq_between:
  assumes "vc_between ext x todo"
  shows "vc_between ext (svc_vc_recv_ioq x) todo" "\<exists>q. ioq_q (svc_vc_recv_ioq x) = [q]" "requests (svc_vc_recv_ioq x) = requests x"
    "rxs (svc_vc_recv_ioq x) = rxs x" "inp (svc_vc_recv_ioq x) = inp x" "sx_fbtbc (svc_vc_recv_ioq x) = 0"
proof -
  let ?q = "xdr_ioq_create (pagesz x) (maxrec x) UIO_FLAG_BUFQ (vc_world x)"
  have "0 < brk (vc_world x)" using assms by (simp add: vc_between_def)
  then have "q_ok ?q" "q_frags ?q = []"
    by (simp_all add: xdr_ioq_create_def xdr_ioq_setup_def q_ok_def q_frags_def bufs_ok_def flag_def)
  with assms show "vc_between ext (svc_vc_recv_ioq x) todo"
    unfolding vc_between_def svc_vc_recv_ioq_def by (cases "ioq_q x = []") auto
  show "\<exists>q. ioq_q (svc_vc_recv_ioq x) = [q]" "requests (svc_vc_recv_ioq x) = requests x" "rxs (svc_vc_recv_ioq x) = rxs x" "inp (svc_vc_recv_ioq x) = inp x" "sx_fbtbc (svc_vc_recv_ioq x) = 0"
    using assms by (auto simp: svc_vc_recv_ioq_def vc_between_def)
qed

lemma recv_inv:
  assumes "svc_vc_recv rearm cb x = Some y" "vc_inv ext recs x" "\<not> vc_destroyed x" "sx_fbtbc x = 0 \<longrightarrow> whole_mark (inp x) (rxs x)"
  shows "vc_inv ext recs y"
proof -
  obtain fin todo where s: "recs = fin @ todo" "list_all2 vc_ready (requests x) fin" "vc_between ext x todo \<or> vc_within ext x todo"
    using assms(2,3) by (auto simp: vc_inv_def)
  show ?thesis
  proof (cases "sx_fbtbc x = 0")
    case True
    then have "vc_between ext x todo" using s(3) by (auto simp: vc_within_def)
    note i = recv_ioq_between [OF this]
    then obtain q where q: "ioq_q (svc_vc_recv_ioq x) = [q]" by blast
    obtain go_on flags z where m: "svc_vc_recv_mark rearm cb (svc_vc_recv_ioq x) = Some (go_on, flags, z)"
      using assms(1) i(6) by (auto simp: svc_vc_recv_def split: option.split_asm)
    have "if go_on then vc_within ext z todo \<and> requests z = requests x \<and> flags = open_flags z else vc_inv ext recs z"
      using mark_inv [OF m s(1) _ i(1) q] s(2) i(3,4,5) assms(4) True by simp
    then show ?thesis using assms(1) i(6) m body_inv [OF _ s(1), of rearm cb z y] s(2)
      by (auto simp: svc_vc_recv_def split: if_split_asm)
  next
    case False
    then have w: "vc_within ext x todo" using s(3) by (auto simp: vc_between_def)
    then have "svc_vc_recv_ioq x = x" by (auto simp: svc_vc_recv_ioq_def vc_within_def)
    then show ?thesis using assms(1) False body_inv [OF _ s(1,2) w] by (simp add: svc_vc_recv_def)
  qed
qed

text \<open>Calls of which none reads a part of a mark: each mark is received whole, as \<^verbatim>\<open>MSG_WAITALL\<close> asks for, or not at all.\<close>

inductive vc_whole_run :: "svc_vc \<Rightarrow> svc_vc \<Rightarrow> bool" for x0 where
  start: "vc_whole_run x0 x0"
| call: "vc_whole_run x0 x \<Longrightarrow> \<not> vc_destroyed x \<Longrightarrow> sx_fbtbc x = 0 \<longrightarrow> whole_mark (inp x) rs \<Longrightarrow>
    svc_vc_recv rearm cb (x\<lparr>rxs := rs\<rparr>) = Some y \<Longrightarrow> vc_whole_run x0 y"

definition vc_fresh :: "svc_vc \<Rightarrow> bool" where
  "vc_fresh x \<longleftrightarrow> sx_fbtbc x = 0 \<and> ioq_q x = [] \<and> requests x = [] \<and> 0 < brk (vc_world x)"

lemma vc_fresh_inv:
  assumes "vc_fresh x" "inp x @ ext = concat (map enc_frags recs)" "\<forall>r \<in> set recs. frags_ok r"
  shows "vc_inv ext recs x"
proof -
  have "vc_between ext x recs"
  proof (cases recs)
    case Nil
    then show ?thesis using assms by (auto simp: vc_between_def vc_fresh_def stream_of_def)
  next
    case (Cons r rest)
    with assms show ?thesis
      by (auto simp: vc_between_def vc_fresh_def stream_of_def intro!: exI [of _ "[]"] exI [of _ r] exI [of _ rest])
  qed
  then show ?thesis using assms(1) by (auto simp: vc_inv_def vc_fresh_def)
qed

lemma vc_whole_run_inv: "vc_whole_run x0 x \<Longrightarrow> vc_inv ext recs x0 \<Longrightarrow> vc_inv ext recs x"
proof (induction rule: vc_whole_run.induct)
  case (call x rs rearm cb y)
  have "vc_inv ext recs (x\<lparr>rxs := rs\<rparr>)" using call by (auto simp: vc_inv_def vc_between_def vc_within_def vc_destroyed_def)
  then show ?case using recv_inv [OF call(4)] call(2,3) by (simp add: vc_destroyed_def)
qed

lemma vc_inv_result:
  assumes "vc_inv ext recs x"
  shows "\<exists>fin todo. recs = fin @ todo \<and> map ioq_rd (requests x) = map concat fin \<and> list_all2 vc_ready (requests x) fin \<and>
    (ext = [] \<and> inp x = [] \<and> \<not> vc_destroyed x \<longrightarrow> todo = [])"
proof -
  obtain fin todo where f: "recs = fin @ todo" "list_all2 vc_ready (requests x) fin" "vc_destroyed x \<or> vc_between ext x todo \<or> vc_within ext x todo"
    using assms by (auto simp: vc_inv_def)
  have "map ioq_rd (requests x) = map concat fin" using f(2) by (induction rule: list_all2_induct) (auto simp: vc_ready_rd)
  moreover have "todo = []" if "inp x @ ext = []" "\<not> vc_destroyed x"
  proof -
    have ne: "frags_ok gs \<Longrightarrow> stream_of gs rest \<noteq> []" for gs rest using frags_ok_Cons [of gs] by (simp add: stream_of_def enc_frags_Cons)
    have "\<not> vc_within ext x todo" using that(1) unfolding vc_within_def by force
    then have "vc_between ext x todo" using that(2) f(3) by blast
    then show ?thesis using that(1) ne unfolding vc_between_def by metis
  qed
  ultimately show ?thesis using f(1,2) by auto
qed

text \<open>
  C3: Records are reassembled.  If the peer sends records of any number of fragments, none of them empty and none but
  the last of a record as long as the number that starts a PROXY header, and any part of that stream arrives, then
  however the reads split the bytes of the fragments and whatever calls fail in between, but as long as no read
  returns only a part of a four-byte mark, the requests handed on are the records in order and unchanged, up to
  some record; and all of them when everything has arrived and been read and the connection is alive.
\<close>

theorem vc_records_reassembled:
  assumes "vc_whole_run x0 x" "vc_fresh x0" "inp x0 @ ext = concat (map enc_frags recs)" "\<forall>r \<in> set recs. frags_ok r"
  shows "\<exists>fin todo. recs = fin @ todo \<and> map ioq_rd (requests x) = map concat fin \<and> (ext = [] \<and> inp x = [] \<and> \<not> vc_destroyed x \<longrightarrow> todo = [])"
  using vc_inv_result [OF vc_whole_run_inv [OF assms(1) vc_fresh_inv [OF assms(2-4)]]] by blast

lemma vc_demo_calls:
  "case svc_vc_recv True True (vc_demo [0x80, 0, 0, 2, 7, 8]\<lparr>rxs := [Recv 4, Recv 1]\<rparr>) of None \<Rightarrow> False
   | Some y \<Rightarrow> \<not> vc_destroyed y \<and> sx_fbtbc y = 1 \<and>
       (case svc_vc_recv True True (y\<lparr>rxs := [Recv 100]\<rparr>) of None \<Rightarrow> False | Some z \<Rightarrow> \<not> vc_destroyed z \<and> inp z = [])"
  by code_simp

lemma vc_demo_run: "\<exists>x. vc_whole_run (vc_demo [0x80, 0, 0, 2, 7, 8]) x \<and> inp x = [] \<and> \<not> vc_destroyed x"
proof -
  let ?x = "vc_demo [0x80, 0, 0, 2, 7, 8]"
  obtain y z where y: "svc_vc_recv True True (?x\<lparr>rxs := [Recv 4, Recv 1]\<rparr>) = Some y" "\<not> vc_destroyed y" "sx_fbtbc y = 1"
      and z: "svc_vc_recv True True (y\<lparr>rxs := [Recv 100]\<rparr>) = Some z" "\<not> vc_destroyed z" "inp z = []"
    using vc_demo_calls by (auto split: option.split_asm)
  have "vc_whole_run ?x y" by (rule vc_whole_run.call [OF vc_whole_run.start _ _ y(1)]) (simp_all add: vc_destroyed_def vc_demo_def whole_mark_def)
  from vc_whole_run.call [OF this y(2) _ z(1)] y(3) z show ?thesis by auto
qed

lemma vc_demo_fresh: "vc_fresh (vc_demo i)" "inp (vc_demo i) = i"
  by (simp_all add: vc_fresh_def vc_demo_def ioq_blank_def)

lemma be32_demo: "be32 0x80000002 = [0x80, 0, 0, 2]"
  by code_simp

theorem vc_records_reassembled_witness:
  "\<exists>x. vc_whole_run (vc_demo [0x80, 0, 0, 2, 7, 8]) x \<and> map ioq_rd (requests x) = [[7, 8]]"
proof -
  obtain x where x: "vc_whole_run (vc_demo [0x80, 0, 0, 2, 7, 8]) x" "inp x = []" "\<not> vc_destroyed x" using vc_demo_run by blast
  from vc_records_reassembled [OF x(1) vc_demo_fresh(1), of "[]" "[[[7, 8]]]"] x show ?thesis
    by (auto simp: vc_demo_fresh(2) be32_demo)
qed

text \<open>
  C38: A mark of which a read returns only a part is taken for whole.  Whatever the state of the connection before a
  fragment and whatever follows, \<^verbatim>\<open>svc_vc_recv\<close> does the same as if the peer had sent zero bytes for the missing ones:
  the rest of the mark is then read as data.  (With \<^verbatim>\<open>MSG_WAITALL\<close> the kernel returns less only at the end of the
  stream, on an error or on a signal; the mark behind a PROXY header is read with \<^verbatim>\<open>MSG_DONTWAIT\<close>.)
\<close>

theorem vc_short_mark_taken_whole:
  assumes "sx_fbtbc x = 0" "rxs x = Recv k # rs" "inp x = got @ rest" "length got = min k (length (inp x))" "0 < length got" "length got < 4"
  shows "svc_vc_recv rearm cb x =
    svc_vc_recv rearm cb (x\<lparr>inp := got @ replicate (4 - length got) 0 @ rest, rxs := Recv 4 # rs\<rparr>)"
proof -
  let ?x = "svc_vc_recv_ioq x" and ?y = "svc_vc_recv_ioq (x\<lparr>inp := got @ replicate (4 - length got) 0 @ rest, rxs := Recv 4 # rs\<rparr>)"
  let ?z = "?x\<lparr>inp := rest, rxs := rs\<rparr>"
  have t: "take (min k 4) (inp x) = got" using assms(3-6) by (auto simp: min_def split: if_split_asm)
  have "inp ?x = inp x" "rxs ?x = rxs x" "sx_fbtbc ?x = 0" using assms(1) by (simp_all add: svc_vc_recv_ioq_def)
  then have 1: "recv_call 4 False ?x = Some (Inr got, ?z)" using t assms(2,3) by (simp add: recv_call_def)
  have 2: "recv_call 4 False ?y = Some (Inr (got @ replicate (4 - length got) 0), ?z)"
    using assms(6) by (simp add: recv_call_def svc_vc_recv_ioq_def)
  have "svc_vc_recv_mark rearm cb ?x = svc_vc_recv_mark rearm cb ?y"
    unfolding svc_vc_recv_mark.simps [of rearm cb ?x] svc_vc_recv_mark.simps [of rearm cb ?y] 1 2 using assms(5,6) by auto
  moreover have "sx_fbtbc ?x = 0" "sx_fbtbc ?y = 0" using assms(1) by (simp_all add: svc_vc_recv_ioq_def)
  ultimately show ?thesis by (simp add: svc_vc_recv_def)
qed

text \<open>Three bytes of the mark of a record of two bytes: the connection is given up.\<close>

theorem vc_short_mark_taken_whole_witness:
  "\<exists>y. svc_vc_recv True True (vc_demo [0x80, 0, 0, 2, 7, 8]\<lparr>rxs := [Recv 3]\<rparr>) = Some y \<and> vc_destroyed y"
proof -
  have "case svc_vc_recv True True (vc_demo [0x80, 0, 0, 0, 2, 7, 8]\<lparr>rxs := [Recv 4]\<rparr>) of None \<Rightarrow> False | Some y \<Rightarrow> vc_destroyed y"
    by code_simp
  moreover have "svc_vc_recv True True (vc_demo [0x80, 0, 0, 2, 7, 8]\<lparr>rxs := [Recv 3]\<rparr>) =
      svc_vc_recv True True (vc_demo [0x80, 0, 0, 0, 2, 7, 8]\<lparr>rxs := [Recv 4]\<rparr>)"
    using vc_short_mark_taken_whole [of "vc_demo [0x80, 0, 0, 2, 7, 8]\<lparr>rxs := [Recv 3]\<rparr>" 3 "[]" "[0x80, 0, 0]" "[2, 7, 8]" True True]
    by (simp add: vc_demo_def)
  ultimately show ?thesis by (auto split: option.split_asm)
qed

end
