(* ===== verification/Spec2Isabelle.thy ===== *)
theory Spec2Isabelle
  imports Rpc_Msg Svc_Write Svc_Vc
begin

text \<open>
  \<^bold>\<open>A verification development for ntirpc\<close>

  \<^verbatim>\<open>ntirpc\<close> is the transport-independent RPC library of the NFS server Ganesha.  A message is written and read by
  XDR filters through a handle (\<^verbatim>\<open>XDR\<close>) whose operations vector is a stream: a block of memory, or a queue of
  buffers (\<^verbatim>\<open>xdr_ioq\<close>).  The messages of the RPC protocol are filters over these primitives.  A server sends a reply
  by handing its buffer queue to the connection, which puts it on a queue of replies and writes it as a
  record with a four-byte mark, from whichever thread finds itself in charge, possibly without copying; pages
  given to the kernel are kept until it reports that it has finished with them.

  \<^bold>\<open>Theories and the code they model\<close>

  \<^item> \<^verbatim>\<open>Prelude\<close>: machine words, the flat memory of the model (\<open>heap\<close>, NULL is address 0), big-endian bytes, and the
    lemmas on lists, words and memory that the other theories share.
  \<^item> \<^verbatim>\<open>Xdr_Handle\<close> (\<^verbatim>\<open>ntirpc/rpc/xdr.h\<close>): the handle as an extensible record, the operations vector as the record
    \<open>xdr_ops\<close> that every stream operation and filter takes, the in-line getters and putters with their fast path.  The
    locales \<open>xdr_reader\<close> and \<open>xdr_writer\<close> are the contract of a stream with its clients: what the calls of the vector
    consume and produce of an abstract byte sequence.  Filters are proved once, inside these locales: \<open>encodes\<close>, \<open>decodes\<close>
    and \<open>truncated\<close> say which bytes a filter writes, reads, and on which inputs it fails.
  \<^item> \<^verbatim>\<open>Xdr_Mem\<close> (\<^verbatim>\<open>src/xdr_mem.c\<close>): the memory stream, its interpretation \<open>mem_r\<close>, \<open>mem_w\<close> of the contract; every call stays within the
    buffer; ranges, positions and headers are exact.
  \<^item> \<^verbatim>\<open>Xdr_Scalar\<close>, \<^verbatim>\<open>Xdr_Opaque\<close>, \<^verbatim>\<open>Xdr_Compound\<close> (\<^verbatim>\<open>ntirpc/rpc/xdr_inline.h\<close>, \<^verbatim>\<open>src/xdr.c\<close>, \<^verbatim>\<open>src/xdr_reference.c\<close>): the filters.  They round-trip, refuse
    lengths above their bound and truncated input, cannot wrap in the size of an array, and release what they
    allocate.
  \<^item> \<^verbatim>\<open>Rpc_Auth\<close>, \<^verbatim>\<open>Rpc_Msg\<close> (\<^verbatim>\<open>ntirpc/rpc/auth_inline.h\<close>, \<^verbatim>\<open>src/rpc_callmsg.c\<close>, \<^verbatim>\<open>src/rpc_prot.c\<close>, \<^verbatim>\<open>src/rpc_dplx_msg.c\<close>): authenticators, call and reply
    messages, in every encoding that the code has (in line, piecewise, duplex); they agree on the bytes,
    round-trip, and malformed messages are refused.
  \<^item> \<^verbatim>\<open>Xdr_Ioq\<close> (\<^verbatim>\<open>src/xdr_ioq.c\<close>, \<^verbatim>\<open>ntirpc/rpc/xdr_ioq.h\<close>): the buffer queue, with its buffers, their reference counts and owners, and
    every operation of its vector.  \<^verbatim>\<open>Ioq_Contract\<close> interprets the contract (\<open>ioq_r\<close>, \<open>ioq_w\<close>), so that all filters work over it;
    \<^verbatim>\<open>Ioq_Props\<close> shows the invariant of the queue under the calls of the relation \<open>ioq_step\<close> (units, bytes, the inline fast path, new
    buffers, positions, vectors; not \<^verbatim>\<open>putbufs\<close> and \<^verbatim>\<open>allochdrs\<close>, and not the calls that are refused), positions, and that
    releasing balances allocation; \<^verbatim>\<open>Ioq_Vec\<close> that the vectors given for a range cover its bytes, and where \<^verbatim>\<open>xdr_ioq_allochdrs\<close>
    puts a trailer before the data.
  \<^item> \<^verbatim>\<open>Svc_Zc\<close> (\<^verbatim>\<open>src/svc_ioq.c\<close>, first half): the account of zero-copy sends, where a send and the note of its cookie are two steps with the
    kernel's confirmations between them; until the connection is torn down (\<^verbatim>\<open>svc_ioq_zc_release_all\<close> is defined, but not one of
    the steps) a reply is freed only when all of its sends are confirmed, and confirmed replies are freed.
  \<^item> \<^verbatim>\<open>Svc_Flush\<close>, \<^verbatim>\<open>Svc_Write\<close> (\<^verbatim>\<open>src/svc_ioq.c\<close>, second half, with \<^verbatim>\<open>clear_requests\<close> of \<^verbatim>\<open>src/svc_rqst.c\<close> and \<^verbatim>\<open>work_pool_submit\<close> of
    \<^verbatim>\<open>src/work_pool.c\<close>): sending one reply, the queue of replies, and the threads that write it.  \<^verbatim>\<open>svc_ioq_write\<close> is cut where it takes or
    gives up the lock of the queue and where it sends, one definition for each part; \<open>write_step\<close> is one such part of one thread, and
    \<open>out_reach\<close> interleaves the parts of any number of threads with calls that queue replies, events of the socket, and the
    end of the connection.  The wire is always a prefix of the records in order, one thread writes at a time, and, with a pool
    of workers that is not draining, no reply is forgotten.
  \<^item> \<^verbatim>\<open>Vc_Proxy\<close>, \<^verbatim>\<open>Svc_Vc\<close> (\<^verbatim>\<open>src/svc_vc.c\<close>, \<^verbatim>\<open>ntirpc/rpc/haproxy.h\<close>): receiving on a stream connection, with the PROXY header that a load balancer
    puts in front.  A header is parsed into what it says and within its bounds; the remote address is final once it is
    announced, and it is announced before any request is handed on.  Records of any number of fragments are
    reassembled however the reads split them, as long as no read returns only a part of a four-byte mark (\<open>vc_whole_run\<close>); what the
    code does with such a read is a property of its own.  Input need not be complete: what has not arrived is a suffix of
    the stream that the invariant carries along.
  \<^item> This theory joins the two ends: of what \<open>out_reach\<close> has written, the part that has arrived is what \<open>vc_whole_run\<close> hands on, in order.

  \<^bold>\<open>Conventions\<close>

  State is passed explicitly: an operation takes and returns the records it reads and writes.  C integers are
  words of their width, sizes of memory objects are \<open>nat\<close>.  A pointer into memory is an address of the flat memory,
  a pointer to a buffer of a queue its number.  Calls to the allocator, to other components and frees are
  logged, so that they can be counted.  The system calls are answered from a list (\<open>send_result\<close>, the messages of the error
  queue), so that a theorem holds for every behaviour of the kernel.  \<open>None\<close> as the result of an operation of the
  buffer queue is an abort of the program (out of memory or an assertion); of a sending function, that the list of answers
  is used up.

  \<^bold>\<open>Bounds and fuel\<close>

  Loops over buffers, vectors and arrays are recursive functions with termination proofs.  The sending loop recurs
  on the list of answers, one call of \<^verbatim>\<open>sendmsg\<close> each; one answer for each byte left is enough, which is a property below.
  The theorems on sending are for replies of at most 0x7ffffffc bytes, the most that one fragment holds, and those on the whole queue
  of replies for a pool of workers that accepts work (\<^verbatim>\<open>thrd_max\<close> is not 0; a draining pool drops what is submitted).

  \<^bold>\<open>Not modelled\<close>

  Transport over RDMA and TLS, and zero-copy sends combined with TLS, are calls of libraries (libibverbs,
  OpenSSL, GnuTLS) with little code of their own that is not such a call.  The GSS authenticators and the clients of rpcbind, of the
  key server and of the naming files wrap calls of libgssapi, of sockets and of the file system.  Tracing and metrics have no
  effect on the rest.  Time, sockets and \<^verbatim>\<open>epoll\<close> are the environment.
\<close>

section \<open>From one end of a connection to the other\<close>

lemma out_reach_fits: "out_reach p failing o' ph adds \<Longrightarrow> \<forall>b \<in> set adds. rm_fits b"
  by (induction rule: out_reach.induct) (auto simp: reply_new_def flush_ok_def)

text \<open>A record as it is sent is one fragment as it is received.\<close>

lemma rm_record_frag: "rm_record b = enc_frags [b]"
  by (simp add: rm_record_def rm_header_def)

lemma rm_fits_frag: "rm_fits b \<Longrightarrow> frags_ok [b]"
  by (simp add: rm_fits_def unat_lfxu)

text \<open>What has arrived is a part of the records in order; nothing is missing when all of it was sent and has arrived.\<close>

lemma stream_arrives:
  assumes "out_reach p failing o' ph adds" "thrd_max p \<noteq> 0" "i @ ext = wire o'"
  shows "\<exists>ext'. i @ ext' = concat (map enc_frags (map (\<lambda>b. [b]) adds)) \<and> (writeq o' = [] \<and> \<not> destroyed o' \<and> ext = [] \<longrightarrow> ext' = [])"
proof -
  note w = out_inv_wire [OF out_reach_inv [OF assms(1,2)]]
  have r: "concat (map enc_frags (map (\<lambda>b. [b]) adds)) = concat (map rm_record adds)" by (simp add: rm_record_frag [abs_def] comp_def)
  obtain rest where "concat (map rm_record adds) = i @ ext @ rest" using w(1) assms(3) by (metis append_assoc)
  moreover have "rest = []" if "writeq o' = [] \<and> \<not> destroyed o'" using w(2) that calculation assms(3) by simp
  ultimately show ?thesis unfolding r by (intro exI [of _ "ext @ rest"]) auto
qed

lemma records_arrive:
  assumes "out_reach p failing o' ph adds" "thrd_max p \<noteq> 0" "vc_fresh x0" "inp x0 @ ext = wire o'" "vc_whole_run x0 x"
  shows "\<exists>todo. adds = map ioq_rd (requests x) @ todo \<and>
    (writeq o' = [] \<and> \<not> destroyed o' \<and> ext = [] \<and> inp x = [] \<and> \<not> vc_destroyed x \<longrightarrow> todo = [])"
proof -
  obtain ext' where e: "inp x0 @ ext' = concat (map enc_frags (map (\<lambda>b. [b]) adds))" "writeq o' = [] \<and> \<not> destroyed o' \<and> ext = [] \<longrightarrow> ext' = []"
    using stream_arrives [OF assms(1,2,4)] by blast
  have "\<forall>r \<in> set (map (\<lambda>b. [b]) adds). frags_ok r" using out_reach_fits [OF assms(1)] rm_fits_frag by auto
  then obtain fin todo where f: "map (\<lambda>b. [b]) adds = fin @ todo" "map ioq_rd (requests x) = map concat fin"
      "ext' = [] \<and> inp x = [] \<and> \<not> vc_destroyed x \<longrightarrow> todo = []"
    using vc_inv_result [OF vc_whole_run_inv [OF assms(5) vc_fresh_inv [OF assms(3) e(1)]]] by blast
  let ?n = "length fin"
  have fin: "fin = map (\<lambda>b. [b]) (take ?n adds)" and todo: "todo = map (\<lambda>b. [b]) (drop ?n adds)"
    using arg_cong [OF f(1), of "take ?n"] arg_cong [OF f(1), of "drop ?n"] by (simp_all add: take_map drop_map)
  have "map concat fin = take ?n adds" by (subst fin) (simp add: comp_def)
  then show ?thesis using f(2,3) e(2) todo by (intro exI [of _ "drop ?n adds"]) auto
qed

text \<open>
  C1: From one end to the other.  The sender queues messages of at least one byte and at most one fragment each with \<^verbatim>\<open>svc_ioq_write_now\<close> or
  \<^verbatim>\<open>svc_ioq_write_submit\<close>, its pool of workers is not draining (\<^verbatim>\<open>thrd_max\<close> is not 0), and any part of what is on the wire has
  arrived at a new connection of the peer.  Whatever the interleaving of the threads of the sender and the sizes of
  the writes, errors and destruction included, and whatever the sizes of the reads of the peer, as long as no
  read returns only a part of a four-byte mark: \<^verbatim>\<open>svc_vc_recv\<close> hands on the same messages, unchanged and in the order in
  which they were queued, up to some message; and all of them once the queue of the sender is empty, neither
  connection is being destroyed, and everything has arrived and been read.
\<close>

theorem messages_arrive_in_order:
  assumes "out_reach p failing o' ph adds" "thrd_max p \<noteq> 0" "vc_fresh x0" "inp x0 @ ext = wire o'" "vc_whole_run x0 x"
  shows "\<exists>todo. adds = map ioq_rd (requests x) @ todo \<and>
    (writeq o' = [] \<and> \<not> destroyed o' \<and> ext = [] \<and> inp x = [] \<and> \<not> vc_destroyed x \<longrightarrow> todo = [])"
  by (rule records_arrive [OF assms])

lemma receive_demo:
  "case svc_vc_recv True True (vc_demo [0x80, 0, 0, 10, 1, 2, 3, 4, 5, 6, 7, 8, 9, 10]\<lparr>rxs := [Recv 4, Recv 3]\<rparr>) of None \<Rightarrow> False
   | Some y \<Rightarrow> \<not> vc_destroyed y \<and> sx_fbtbc y = 7 \<and>
       (case svc_vc_recv True True (y\<lparr>rxs := [Recv 100]\<rparr>) of None \<Rightarrow> False | Some z \<Rightarrow> \<not> vc_destroyed z \<and> inp z = [])"
  by code_simp

theorem messages_arrive_in_order_witness:
  "\<exists>o' ph x. out_reach params_demo False o' ph [bytes_demo] \<and> vc_whole_run (vc_demo (wire o')) x \<and> map ioq_rd (requests x) = [bytes_demo]"
proof -
  obtain o' ph where r: "out_reach params_demo False o' ph [bytes_demo]" "writeq o' = []" "\<not> destroyed o'" using run_sent by blast
  have p: "thrd_max params_demo \<noteq> 0" by (simp add: params_demo_def)
  have "rm_record bytes_demo = [0x80, 0, 0, 10, 1, 2, 3, 4, 5, 6, 7, 8, 9, 10]" by code_simp
  then have w: "wire o' = [0x80, 0, 0, 10, 1, 2, 3, 4, 5, 6, 7, 8, 9, 10]" using out_inv_wire(2) [OF out_reach_inv [OF r(1) p]] r by simp
  obtain y z where y: "svc_vc_recv True True (vc_demo (wire o')\<lparr>rxs := [Recv 4, Recv 3]\<rparr>) = Some y" "\<not> vc_destroyed y" "sx_fbtbc y = 7"
      and z: "svc_vc_recv True True (y\<lparr>rxs := [Recv 100]\<rparr>) = Some z" "\<not> vc_destroyed z" "inp z = []"
    using receive_demo unfolding w by (auto split: option.split_asm)
  have "vc_whole_run (vc_demo (wire o')) y"
    by (rule vc_whole_run.call [OF vc_whole_run.start _ _ y(1)]) (simp_all add: vc_destroyed_def vc_demo_def whole_mark_def w)
  then have x: "vc_whole_run (vc_demo (wire o')) z" using vc_whole_run.call [OF _ y(2) _ z(1)] y(3) by simp
  from messages_arrive_in_order [OF r(1) p vc_demo_fresh(1) _ x, of "[]"] r x z show ?thesis by (auto simp: vc_demo_fresh(2))
qed

end
